(* ===== verification/Nplex_Base.thy ===== *)
theory Nplex_Base
  imports Main "HOL-Library.Word" "HOL-Library.Char_ord" "HOL-Library.List_Lexorder"
    "HOL-Library.Sublist"
begin

text \<open>
  The prelude: the machine types of the client library, the exceptions its code throws, the
  shape of an operation that reads and writes a state and may throw, and the generic lemmas the
  component theories share.

  A C++ \<open>std::string\<close>, \<open>gto::cstring\<close> or \<open>std::string_view\<close> is a \<^typ>\<open>string\<close>, a list of
  bytes: \<^typ>\<open>char\<close> has 256 values, and the order of \<open>HOL-Library.Char_ord\<close> and
  \<open>HOL-Library.List_Lexorder\<close> compares bytes as unsigned numbers and strings lexicographically,
  as \<open>std::char_traits<char>::compare\<close> does.  A null \<open>const char *\<close> is \<^term>\<open>None\<close>.
\<close>

section \<open>Machine types\<close>

text \<open>\<open>rev_t\<close> is \<open>std::size_t\<close> on a 64-bit platform (\<open>include/nplex-cpp/types.hpp\<close>).\<close>

type_synonym rev_t = "64 word"
type_synonym millis_t = "64 word"
type_synonym u32 = "32 word"
type_synonym u8 = "8 word"

text \<open>The fact collections the component proofs draw on.\<close>

named_theorems op_simps \<open>evaluation of operations that may throw\<close>
named_theorems inv_intros \<open>operations that keep an invariant\<close>

section \<open>Exceptions\<close>

text \<open>
  One constructor per kind of \<open>throw\<close> in the modelled code.  The text of a message is not
  modelled, only which throw was reached.
\<close>

datatype exn =
    Ex_invalid_key            \<comment> \<open>nplex_exception, trying to read/upsert/delete an invalid key\<close>
  | Ex_invalid_argument       \<comment> \<open>std::invalid_argument\<close>
  | Ex_logic_error            \<comment> \<open>std::logic_error\<close>
  | Ex_not_open               \<comment> \<open>nplex_exception, transaction is not open\<close>
  | Ex_read_only              \<comment> \<open>nplex_exception, transaction is read-only\<close>
  | Ex_not_authorized         \<comment> \<open>nplex_exception, not authorized to create/update/delete\<close>
  | Ex_old_update             \<comment> \<open>nplex_exception, update not newer than the store\<close>
  | Ex_malformed_update       \<comment> \<open>nplex_exception, malformed update message\<close>
  | Ex_bad_snapshot           \<comment> \<open>nplex_exception, snapshot entry newer than the snapshot\<close>
  | Ex_no_client              \<comment> \<open>nplex_exception, client is no longer available\<close>
  | Ex_discarded              \<comment> \<open>nplex_exception, transaction was discarded\<close>
  | Ex_canceled               \<comment> \<open>nplex_exception, request canceled\<close>
  | Ex_not_connected          \<comment> \<open>nplex_exception, client is not connected\<close>
  | Ex_client_closed          \<comment> \<open>nplex_exception, client is closed\<close>
  | Ex_queue_overflow         \<comment> \<open>nplex_exception, command queue overflow\<close>
  | Ex_unexpected_update      \<comment> \<open>nplex_exception, unexpected update received\<close>
  | Ex_invalid_address        \<comment> \<open>nplex_exception, connection to port 0\<close>
  | Ex_not_closed             \<comment> \<open>nplex_exception, connect on a connection that is not closed\<close>
  | Ex_uv_error               \<comment> \<open>nplex_exception with the text of a libuv error or of a failed address lookup\<close>
  | Ex_not_established        \<comment> \<open>nplex_exception, send on a connection that is not established\<close>
  | Ex_no_servers             \<comment> \<open>nplex_exception, no servers\<close>
  | Ex_running                \<comment> \<open>nplex_exception, cannot set something while running\<close>
  | Ex_too_many_txs           \<comment> \<open>nplex_exception, too many concurrent transactions\<close>
  | Ex_no_monitor             \<comment> \<open>nplex_exception, user has no permission to monitor sessions\<close>
  | Ex_closed_by_user         \<comment> \<open>the error of \<open>abort\<close>: client closed by user\<close>
  | Ex_closed_by_manager      \<comment> \<open>the error of \<open>abort\<close>: client closed by manager\<close>
  | Ex_manager_threw          \<comment> \<open>the error of \<open>abort\<close>: manager threw an exception\<close>
  | Ex_initial_data           \<comment> \<open>the error of \<open>abort\<close>: error in \<open>on_initial_data\<close>\<close>
  | Ex_signal                 \<comment> \<open>the error of \<open>abort\<close>: signal received\<close>
  | Ex_no_user                \<comment> \<open>nplex_exception, user not found in the parameters\<close>
  | Ex_no_password            \<comment> \<open>nplex_exception, password not found in the parameters\<close>
  | Ex_bad_timeout            \<comment> \<open>nplex_exception, timeout factor not above 1\<close>
  | Ex_broken_promise         \<comment> \<open>std::future_error, broken_promise: the promise was destroyed unsatisfied\<close>
  | Ex_crash                  \<comment> \<open>undefined behaviour, as the use of a null pointer: no exception, nothing catches it\<close>
  | Ex_hang                   \<comment> \<open>a loop that does not end: no exception either\<close>
  | Ex_length_error           \<comment> \<open>std::length_error\<close>
  | Ex_out_of_range           \<comment> \<open>std::out_of_range\<close>
  | Ex_bad_alloc              \<comment> \<open>std::bad_alloc\<close>
  | Ex_promise_satisfied      \<comment> \<open>std::future_error, promise_already_satisfied\<close>
  | Ex_future_retrieved       \<comment> \<open>std::future_error, future_already_retrieved\<close>

section \<open>Operations on a state that may throw\<close>

text \<open>
  An operation returns what it returns or throws, and the state it leaves: a throw does not undo
  the writes made before it.
\<close>

type_synonym ('s, 'a) op = "'s \<Rightarrow> (exn + 'a) \<times> 's"

definition return_op :: "'a \<Rightarrow> ('s, 'a) op" where
  "return_op a s = (Inr a, s)"

definition raise_op :: "exn \<Rightarrow> ('s, 'a) op" where
  "raise_op e s = (Inl e, s)"

definition bind_op :: "('s, 'a) op \<Rightarrow> ('a \<Rightarrow> ('s, 'b) op) \<Rightarrow> ('s, 'b) op" where
  "bind_op m f s = (case m s of (Inl e, s') \<Rightarrow> (Inl e, s') | (Inr a, s') \<Rightarrow> f a s')"

definition modify_op :: "('s \<Rightarrow> 's) \<Rightarrow> ('s, unit) op" where
  "modify_op f s = (Inr (), f s)"

text \<open>A \<open>for\<close> loop over a vector that collects what its body returns.\<close>

fun each_op :: "('b \<Rightarrow> ('s, 'a) op) \<Rightarrow> 'b list \<Rightarrow> ('s, 'a list) op" where
  "each_op f [] s = (Inr [], s)"
| "each_op f (x # xs) s =
     (case f x s of
        (Inl e, s') \<Rightarrow> (Inl e, s')
      | (Inr a, s') \<Rightarrow>
          (case each_op f xs s' of
             (Inl e, s'') \<Rightarrow> (Inl e, s'')
           | (Inr as, s'') \<Rightarrow> (Inr (a # as), s'')))"

lemma return_op_eval [simp, op_simps]: "return_op a s = (Inr a, s)"
  by (simp add: return_op_def)

lemma raise_op_eval [simp, op_simps]: "raise_op e s = (Inl e, s)"
  by (simp add: raise_op_def)

lemma modify_op_eval [simp, op_simps]: "modify_op f s = (Inr (), f s)"
  by (simp add: modify_op_def)

lemma bind_op_Inr: "m s = (Inr a, s') \<Longrightarrow> bind_op m f s = f a s'"
  by (simp add: bind_op_def)

lemma bind_op_Inl: "m s = (Inl e, s') \<Longrightarrow> bind_op m f s = (Inl e, s')"
  by (simp add: bind_op_def)

lemma bind_op_InrE:
  assumes "bind_op m f s = (Inr b, t)"
  obtains a s' where "m s = (Inr a, s')" "f a s' = (Inr b, t)"
  using assms by (auto simp: bind_op_def split: prod.splits sum.splits)

lemma each_op_append:
  "each_op f (xs @ ys) s =
     (case each_op f xs s of
        (Inl e, s') \<Rightarrow> (Inl e, s')
      | (Inr as, s') \<Rightarrow>
          (case each_op f ys s' of
             (Inl e, s'') \<Rightarrow> (Inl e, s'')
           | (Inr bs, s'') \<Rightarrow> (Inr (as @ bs), s'')))"
  by (induction xs arbitrary: s) (auto split: prod.splits sum.splits)

lemma each_op_length:
  "each_op f xs s = (Inr as, t) \<Longrightarrow> length as = length xs"
  by (induction xs arbitrary: s as) (auto split: prod.splits sum.splits)

text \<open>An operation keeps an invariant whether it returns or throws.\<close>

definition keeps :: "('s \<Rightarrow> bool) \<Rightarrow> ('s, 'a) op \<Rightarrow> bool" where
  "keeps P m \<longleftrightarrow> (\<forall>s. P s \<longrightarrow> P (snd (m s)))"

lemma keepsD: "keeps P m \<Longrightarrow> P s \<Longrightarrow> m s = (r, t) \<Longrightarrow> P t"
  unfolding keeps_def by (metis snd_conv)

lemma keepsI: "(\<And>s r t. P s \<Longrightarrow> m s = (r, t) \<Longrightarrow> P t) \<Longrightarrow> keeps P m"
  unfolding keeps_def by (metis prod.exhaust_sel)

lemma keeps_return [inv_intros]: "keeps P (return_op a)"
  by (simp add: keeps_def)

lemma keeps_raise [inv_intros]: "keeps P (raise_op e)"
  by (simp add: keeps_def)

lemma keeps_bind [inv_intros]:
  "keeps P m \<Longrightarrow> (\<And>a. keeps P (f a)) \<Longrightarrow> keeps P (bind_op m f)"
  unfolding keeps_def bind_op_def by (fastforce split: prod.splits sum.splits)

lemma keeps_each [inv_intros]:
  assumes "\<And>x. x \<in> set xs \<Longrightarrow> keeps P (f x)"
  shows "keeps P (each_op f xs)"
proof (rule keepsI)
  fix s r t
  assume "P s" "each_op f xs s = (r, t)"
  with assms show "P t"
  proof (induction xs arbitrary: s r)
    case Nil
    then show ?case by simp
  next
    case (Cons x xs)
    obtain r1 s1 where fx: "f x s = (r1, s1)" by fastforce
    have "P s1" using Cons.prems(1)[of x] Cons.prems(2) fx by (auto intro: keepsD)
    moreover obtain r2 s2 where "each_op f xs s1 = (r2, s2)" by fastforce
    ultimately show ?case
      using Cons.IH[of s1 r2] Cons.prems fx by (auto split: sum.splits)
  qed
qed

section \<open>Strings\<close>

text \<open>\<open>c_str()\<close> read as a C string: the bytes before the first NUL.\<close>

definition c_str :: "string \<Rightarrow> string" where
  "c_str s = takeWhile (\<lambda>c. c \<noteq> CHR 0x00) s"

lemma c_str_no_nul: "CHR 0x00 \<notin> set (c_str s)"
  unfolding c_str_def by (auto dest: set_takeWhileD)

lemma c_str_id: "CHR 0x00 \<notin> set s \<Longrightarrow> c_str s = s"
  unfolding c_str_def by (auto simp: takeWhile_eq_all_conv)

lemma c_str_Nil [simp]: "c_str [] = []"
  by (simp add: c_str_def)

text \<open>A string with prefix \<open>p\<close> is not below \<open>p\<close> in the order of \<open>cstring_compare\<close>.\<close>

lemma prefix_imp_le: "prefix p s \<Longrightarrow> p \<le> (s :: string)"
proof (induction p arbitrary: s)
  case Nil
  then show ?case by simp
next
  case (Cons a p)
  then show ?case by (cases s) auto
qed

text \<open>
  The strings with a given prefix are contiguous: once a string not below the prefix lacks it, no
  larger string has it.
\<close>

lemma prefix_contiguous:
  fixes p s t :: string
  assumes "p \<le> s" "s \<le> t" "prefix p t"
  shows "prefix p s"
  using assms
proof (induction p arbitrary: s t)
  case Nil
  then show ?case by simp
next
  case (Cons a p)
  from Cons.prems(3) obtain t' where t: "t = a # t'" "prefix p t'"
    by (cases t) auto
  from Cons.prems(1) obtain b s' where s: "s = b # s'" by (cases s) auto
  have "a = b" "p \<le> s'" "s' \<le> t'"
    using Cons.prems(1,2) by (auto simp: s t(1) split: if_splits)
  with Cons.IH[of s' t'] t(2) show ?case by (simp add: s)
qed

section \<open>Lists\<close>

lemma sorted_wrt_less_distinct: "sorted_wrt (<) (xs :: 'a :: linorder list) \<Longrightarrow> distinct xs"
  by (induction xs) auto

lemma takeWhile_prefix_closed:
  assumes "\<And>i j. i < j \<Longrightarrow> j < length xs \<Longrightarrow> P (xs ! j) \<Longrightarrow> P (xs ! i)"
  shows "takeWhile P xs = filter P xs"
  using assms
proof (induction xs)
  case Nil
  then show ?case by simp
next
  case (Cons x xs)
  show ?case
  proof (cases "P x")
    case True
    have "takeWhile P xs = filter P xs"
      using Cons.IH Cons.prems by (metis Suc_less_eq length_Cons nth_Cons_Suc)
    with True show ?thesis by simp
  next
    case False
    have "\<not> P y" if "y \<in> set xs" for y
    proof -
      from that obtain j where "j < length xs" "y = xs ! j" by (auto simp: in_set_conv_nth)
      with Cons.prems[of 0 "Suc j"] False show ?thesis by auto
    qed
    with False show ?thesis by (simp add: filter_False)
  qed
qed

end
