(* ===== verification/Nplex_Ordmap.thy ===== *)
theory Nplex_Ordmap
  imports Nplex_Base
begin

text \<open>
  \<open>std::map\<close> as the code uses it: a sequence of key-value pairs whose keys increase strictly, with
  \<open>find\<close>, \<open>emplace\<close>, \<open>operator[]\<close> assignment, \<open>erase\<close>, \<open>lower_bound\<close> and iteration in key order.
  The locale \<open>ordered_store\<close> is the contract the components rely on; it is interpreted on the
  sequences at the end.
\<close>

section \<open>The operations\<close>

type_synonym ('k, 'v) omap = "('k \<times> 'v) list"

definition om_wf :: "('k :: linorder, 'v) omap \<Rightarrow> bool" where
  "om_wf m \<longleftrightarrow> sorted_wrt (<) (map fst m)"

text \<open>\<open>m[k] = v\<close>: insert or overwrite.\<close>

fun om_put :: "'k :: linorder \<Rightarrow> 'v \<Rightarrow> ('k, 'v) omap \<Rightarrow> ('k, 'v) omap" where
  "om_put k v [] = [(k, v)]"
| "om_put k v ((a, b) # m) =
     (if k < a then (k, v) # (a, b) # m
      else if k = a then (a, v) # m
      else (a, b) # om_put k v m)"

text \<open>\<open>m.emplace(k, v)\<close>: insert only when the key is absent.\<close>

fun om_emplace :: "'k :: linorder \<Rightarrow> 'v \<Rightarrow> ('k, 'v) omap \<Rightarrow> ('k, 'v) omap" where
  "om_emplace k v [] = [(k, v)]"
| "om_emplace k v ((a, b) # m) =
     (if k < a then (k, v) # (a, b) # m
      else if k = a then (a, b) # m
      else (a, b) # om_emplace k v m)"

fun om_erase :: "'k :: linorder \<Rightarrow> ('k, 'v) omap \<Rightarrow> ('k, 'v) omap" where
  "om_erase k [] = []"
| "om_erase k ((a, b) # m) = (if k = a then m else (a, b) # om_erase k m)"

text \<open>The entries from \<open>m.lower_bound(k)\<close> to \<open>m.end()\<close>.\<close>

definition om_lower_bound :: "'k :: linorder \<Rightarrow> ('k, 'v) omap \<Rightarrow> ('k, 'v) omap" where
  "om_lower_bound k m = dropWhile (\<lambda>(a, _). a < k) m"

section \<open>Their laws\<close>

lemma om_wf_Nil [simp]: "om_wf []"
  by (simp add: om_wf_def)

lemma om_wf_Cons: "om_wf ((a, b) # m) \<longleftrightarrow> (\<forall>k \<in> fst ` set m. a < k) \<and> om_wf m"
  by (auto simp: om_wf_def)

lemma om_wf_distinct: "om_wf m \<Longrightarrow> distinct (map fst m)"
  unfolding om_wf_def by (rule sorted_wrt_less_distinct)

lemma map_of_less_None: "\<forall>k \<in> fst ` set m. a < k \<Longrightarrow> x \<le> (a :: 'k :: linorder) \<Longrightarrow> map_of m x = None"
  by (auto simp: map_of_eq_None_iff)

lemma om_put_keys: "fst ` set (om_put k v m) = insert k (fst ` set m)"
  by (induction k v m rule: om_put.induct) auto

lemma om_emplace_keys: "fst ` set (om_emplace k v m) = insert k (fst ` set m)"
  by (induction k v m rule: om_emplace.induct) auto

lemma om_erase_keys: "fst ` set (om_erase k m) \<subseteq> fst ` set m"
  by (induction k m rule: om_erase.induct) auto

lemma om_wf_put: "om_wf m \<Longrightarrow> om_wf (om_put k v m)"
  by (induction k v m rule: om_put.induct) (auto simp: om_wf_Cons om_put_keys)

lemma om_wf_emplace: "om_wf m \<Longrightarrow> om_wf (om_emplace k v m)"
  by (induction k v m rule: om_emplace.induct) (auto simp: om_wf_Cons om_emplace_keys)

lemma om_wf_erase: "om_wf m \<Longrightarrow> om_wf (om_erase k m)"
proof (induction k m rule: om_erase.induct)
  case (1 k)
  then show ?case by simp
next
  case (2 k a b m)
  show ?case
  proof (cases "k = a")
    case True
    with 2 show ?thesis by (simp add: om_wf_Cons)
  next
    case False
    with 2 have "om_wf (om_erase k m)" by (simp add: om_wf_Cons)
    moreover have "a < x" if "x \<in> fst ` set (om_erase k m)" for x
      using subsetD[OF om_erase_keys that] "2.prems" by (auto simp add: om_wf_Cons)
    ultimately show ?thesis using False by (simp add: om_wf_Cons)
  qed
qed

lemma map_of_om_put: "om_wf m \<Longrightarrow> map_of (om_put k v m) = (map_of m)(k \<mapsto> v)"
  by (induction k v m rule: om_put.induct) (auto simp: om_wf_Cons fun_eq_iff)

lemma map_of_om_emplace:
  "om_wf m \<Longrightarrow>
     map_of (om_emplace k v m) =
       (case map_of m k of None \<Rightarrow> (map_of m)(k \<mapsto> v) | Some _ \<Rightarrow> map_of m)"
  by (induction k v m rule: om_emplace.induct)
    (auto simp: om_wf_Cons fun_eq_iff map_of_less_None order_less_imp_le split: option.splits)

lemma map_of_om_erase: "om_wf m \<Longrightarrow> map_of (om_erase k m) = (map_of m)(k := None)"
  by (induction k m rule: om_erase.induct)
    (auto simp: om_wf_Cons fun_eq_iff map_of_less_None)

lemma map_of_om_mem: "om_wf m \<Longrightarrow> map_of m k = Some v \<longleftrightarrow> (k, v) \<in> set m"
  by (simp add: om_wf_distinct)

text \<open>How many entries have a value with a property.\<close>

definition om_count :: "('v \<Rightarrow> bool) \<Rightarrow> ('k, 'v) omap \<Rightarrow> nat" where
  "om_count P m = length (filter (\<lambda>kv. P (snd kv)) m)"

lemma om_count_put_new:
  "map_of m k = None \<Longrightarrow> om_count P (om_put k v m) = om_count P m + of_bool (P v)"
  by (induction k v m rule: om_put.induct) (auto simp: om_count_def split: if_splits)

lemma om_count_erase:
  "map_of m k = Some v \<Longrightarrow> om_count P (om_erase k m) + of_bool (P v) = om_count P m"
  by (induction k m rule: om_erase.induct) (auto simp: om_count_def split: if_splits)

lemma om_count_pos: "0 < om_count P m \<longleftrightarrow> (\<exists>k v. (k, v) \<in> set m \<and> P v)"
  by (force simp: om_count_def filter_empty_conv)

lemma om_put_after_erase: "om_wf m \<Longrightarrow> om_put k v (om_erase k m) = om_put k v m"
proof (induction k m rule: om_erase.induct)
  case (1 k)
  then show ?case by simp
next
  case (2 k a b m)
  show ?case
  proof (cases "k = a")
    case True
    with 2 show ?thesis by (cases m) (auto simp: om_wf_Cons)
  next
    case False
    with 2 have "om_put k v (om_erase k m) = om_put k v m" by (simp add: om_wf_Cons)
    moreover have "k < a \<Longrightarrow> om_erase k m = m"
    proof -
      assume "k < a"
      with 2 have "k \<notin> fst ` set m" by (auto simp: om_wf_Cons)
      then show "om_erase k m = m" by (induction m) auto
    qed
    ultimately show ?thesis using False by auto
  qed
qed

lemma om_wf_dropWhile: "om_wf m \<Longrightarrow> om_wf (dropWhile P m)"
proof -
  assume "om_wf m"
  then have "sorted_wrt (<) (map fst (takeWhile P m @ dropWhile P m))" by (simp add: om_wf_def)
  then show "om_wf (dropWhile P m)" by (simp only: om_wf_def map_append sorted_wrt_append)
qed

lemma om_wf_filter: "om_wf m \<Longrightarrow> om_wf (filter P m)"
  by (induction m) (auto simp: om_wf_Cons)

lemma om_lower_bound_filter: "om_wf m \<Longrightarrow> om_lower_bound k m = filter (\<lambda>(a, _). k \<le> a) m"
  unfolding om_lower_bound_def
  by (induction m) (force simp: om_wf_Cons intro!: filter_True[symmetric])+

section \<open>The contract\<close>

text \<open>
  \<open>find\<close> sees exactly the entries written and not erased since, whatever the representation;
  \<open>entries\<close> is the iteration order.
\<close>

locale ordered_store =
  fixes find :: "'m \<Rightarrow> 'k :: linorder \<Rightarrow> 'v option"
    and put :: "'k \<Rightarrow> 'v \<Rightarrow> 'm \<Rightarrow> 'm"
    and emplace :: "'k \<Rightarrow> 'v \<Rightarrow> 'm \<Rightarrow> 'm"
    and erase :: "'k \<Rightarrow> 'm \<Rightarrow> 'm"
    and entries :: "'m \<Rightarrow> ('k \<times> 'v) list"
    and wf :: "'m \<Rightarrow> bool"
  assumes find_put: "wf m \<Longrightarrow> find (put k v m) = (find m)(k \<mapsto> v)"
    and find_emplace: "wf m \<Longrightarrow> find (emplace k v m) =
           (case find m k of None \<Rightarrow> (find m)(k \<mapsto> v) | Some _ \<Rightarrow> find m)"
    and find_erase: "wf m \<Longrightarrow> find (erase k m) = (find m)(k := None)"
    and wf_put: "wf m \<Longrightarrow> wf (put k v m)"
    and wf_emplace: "wf m \<Longrightarrow> wf (emplace k v m)"
    and wf_erase: "wf m \<Longrightarrow> wf (erase k m)"
    and entries_sorted: "wf m \<Longrightarrow> sorted_wrt (<) (map fst (entries m))"
    and entries_find: "wf m \<Longrightarrow> (k, v) \<in> set (entries m) \<longleftrightarrow> find m k = Some v"
begin

lemma wf_fold_put: "wf m \<Longrightarrow> wf (fold (\<lambda>(k, v). put k v) kvs m)"
  by (induction kvs arbitrary: m) (auto simp: wf_put)

lemma wf_fold_erase: "wf m \<Longrightarrow> wf (fold erase ks m)"
  by (induction ks arbitrary: m) (auto simp: wf_erase)

lemma wf_fold_emplace: "wf m \<Longrightarrow> wf (fold (\<lambda>(k, v). emplace k v) kvs m)"
  by (induction kvs arbitrary: m) (auto simp: wf_emplace)

text \<open>A batch of writes: the last write to a key wins.\<close>

lemma find_fold_put:
  "wf m \<Longrightarrow> find (fold (\<lambda>(k, v). put k v) kvs m) = find m ++ map_of (rev kvs)"
  by (induction kvs arbitrary: m) (auto simp: wf_put find_put)

text \<open>A batch of deletions.\<close>

lemma find_fold_erase:
  "wf m \<Longrightarrow> find (fold erase ks m) = (\<lambda>k. if k \<in> set ks then None else find m k)"
  by (induction ks arbitrary: m) (auto simp: wf_erase find_erase fun_eq_iff)

text \<open>A batch of insertions: what is there stays, and the first insertion of a key wins.\<close>

lemma find_fold_emplace:
  "wf m \<Longrightarrow> find (fold (\<lambda>(k, v). emplace k v) kvs m) = map_of kvs ++ find m"
proof (induction kvs arbitrary: m)
  case Nil
  then show ?case by simp
next
  case (Cons kv kvs)
  obtain k v where [simp]: "kv = (k, v)" by fastforce
  have "find (fold (\<lambda>(k, v). emplace k v) kvs (emplace k v m)) = map_of kvs ++ find (emplace k v m)"
    using Cons by (simp add: wf_emplace)
  also have "\<dots> = map_of (kv # kvs) ++ find m"
  proof (rule ext)
    fix a
    show "(map_of kvs ++ find (emplace k v m)) a = (map_of (kv # kvs) ++ find m) a"
      by (auto simp: find_emplace[OF Cons.prems] map_add_def split: option.splits)
  qed
  finally show ?case by (simp add: fun_upd_def)
qed

lemma entries_dom: "wf m \<Longrightarrow> fst ` set (entries m) = dom (find m)"
  using entries_find by (force simp: dom_def image_iff)

text \<open>Two well-formed maps that find the same iterate the same.\<close>

lemma entries_determined:
  assumes "wf m" "wf n" "find m = find n"
  shows "entries m = entries n"
proof -
  have sub: "set (entries m) = set (entries n)"
  proof (rule set_eqI)
    fix x :: "'k \<times> 'v"
    show "x \<in> set (entries m) \<longleftrightarrow> x \<in> set (entries n)"
      using entries_find[OF assms(1), of "fst x" "snd x"] entries_find[OF assms(2), of "fst x" "snd x"]
        assms(3) by simp
  qed
  have keys: "map fst (entries m) = map fst (entries n)"
    using entries_sorted[OF assms(1)] entries_sorted[OF assms(2)] arg_cong[OF sub, of "(`) fst"]
    by (intro strict_sorted_equal) simp_all
  have dist: "distinct (map fst (entries n))" "distinct (map fst (entries m))"
    using entries_sorted[OF assms(2)] entries_sorted[OF assms(1)]
    by (auto intro: sorted_wrt_less_distinct)
  show ?thesis
  proof (rule nth_equalityI)
    show len: "length (entries m) = length (entries n)"
      using keys by (metis length_map)
    fix i
    assume i: "i < length (entries m)"
    have "fst (entries m ! i) = fst (entries n ! i)"
      using keys i len by (metis nth_map)
    moreover have "entries m ! i \<in> set (entries n)" "entries n ! i \<in> set (entries n)"
      using i len sub by (metis nth_mem)+
    ultimately show "entries m ! i = entries n ! i"
      using dist(1) by (metis eq_key_imp_eq_value prod.collapse)
  qed
qed

end

text \<open>The sequences of key-value pairs provide it.\<close>

interpretation om: ordered_store map_of om_put om_emplace om_erase "\<lambda>m. m" om_wf
  by unfold_locales
    (simp_all only: map_of_om_put map_of_om_emplace map_of_om_erase om_wf_put om_wf_emplace
      om_wf_erase map_of_om_mem om_wf_def[symmetric])

end
