(* ===== verification/Nplex_Glob_Spec.thy ===== *)
theory Nplex_Glob_Spec
  imports Nplex_Glob
begin

text \<open>
  What \<open>glob_match\<close> promises: a pattern is a list of tokens, and a reference matcher tries every
  extent of a \<open>*\<close> (within a path segment) and of a \<open>**\<close> (across segments).  The loop of
  \<open>deps/match.c\<close> keeps only the latest backtrack point of each kind; this theory proves that on
  patterns where \<open>**\<close> is a whole path component it decides the same relation.
\<close>

section \<open>Patterns as tokens\<close>

datatype token =
    T_lit char              \<comment> \<open>a byte, escaped or not\<close>
  | T_any                   \<comment> \<open>\<open>?\<close>\<close>
  | T_class bool string     \<comment> \<open>\<open>[...]\<close>: inverted or not, and the pattern from its first byte\<close>
  | T_never                 \<comment> \<open>a trailing backslash\<close>
  | T_star                  \<comment> \<open>\<open>*\<close>\<close>
  | T_dir                   \<comment> \<open>\<open>**\<close> before a slash\<close>
  | T_rest                  \<comment> \<open>a trailing \<open>**\<close>\<close>

fun one_byte :: "token \<Rightarrow> bool" where
  "one_byte T_star = False" | "one_byte T_dir = False" | "one_byte T_rest = False"
| "one_byte _ = True"

fun in_segment :: "token \<Rightarrow> bool" where
  "in_segment T_dir = False" | "in_segment T_rest = False" | "in_segment _ = True"

fun tok_char :: "token \<Rightarrow> char \<Rightarrow> bool" where
  "tok_char (T_lit c) t = (t = c)"
| "tok_char T_any t = (t \<noteq> CHR ''/'')"
| "tok_char (T_class rv body) t =
     (t \<noteq> CHR ''/'' \<and> fst (bracket_scan t 256 False body) \<noteq> rv)"
| "tok_char _ t = False"

text \<open>
  \<open>tokenize at_start p\<close> reads a pattern; \<open>at_start\<close> says that \<open>p\<close> begins a path component.  It is
  \<^term>\<open>None\<close> when \<open>**\<close> is not a whole component (\<open>a**/b\<close>, \<open>**b\<close>, \<open>***\<close>).
\<close>

definition bracket_rest :: "string \<Rightarrow> string" where
  "bracket_rest body =
     (let r = snd (bracket_scan (CHR 0x00) 256 False body) in if r \<noteq> [] then tl r else r)"

lemma bracket_scan_rest: "snd (bracket_scan t l m gs) = snd (bracket_scan t' l m' gs)"
proof (induction t l m gs arbitrary: m' rule: bracket_scan.induct)
  case (1 t l m)
  then show ?case by simp
next
  case (2 t l m g gs)
  then show ?case by simp
qed

lemma bracket_rest_length: "length (bracket_rest body) \<le> length body"
  using bracket_scan_length[of "CHR 0x00" 256 False body] by (auto simp: bracket_rest_def Let_def)

lemma bracket_rest_Nil [simp]: "bracket_rest [] = []"
  by (simp add: bracket_rest_def)

function tokenize :: "bool \<Rightarrow> string \<Rightarrow> token list option" where
  "tokenize at_start [] = Some []"
| "tokenize at_start (g # gs) =
     (if g = CHR ''*'' then
        (if gs \<noteq> [] \<and> hd gs = CHR ''*'' then
           (if tl gs = [] then Some [T_rest]
            else if hd (tl gs) = CHR ''/'' \<and> at_start then
              map_option ((#) T_dir) (tokenize False (tl gs))
            else None)
         else map_option ((#) T_star) (tokenize False gs))
      else if g = CHR ''?'' then map_option ((#) T_any) (tokenize False gs)
      else if g = CHR ''['' then
        (let rv = (gs \<noteq> [] \<and> (hd gs = CHR ''^'' \<or> hd gs = CHR ''!''));
             body = (if rv then tl gs else gs)
         in map_option ((#) (T_class rv body)) (tokenize False (bracket_rest body)))
      else if g = CHR 0x5C then
        (case gs of
           [] \<Rightarrow> Some [T_never]
         | c # r \<Rightarrow> map_option ((#) (T_lit c)) (tokenize (c = CHR ''/'') r))
      else map_option ((#) (T_lit g)) (tokenize (g = CHR ''/'') gs))"
  by pat_completeness auto
termination
  by (relation "measure (\<lambda>(_, p). length p)")
    (auto intro!: order_trans[OF bracket_rest_length] simp: less_Suc_eq_le)

text \<open>The equation, one pattern shape at a time.\<close>

definition class_inverted :: "string \<Rightarrow> bool" where
  "class_inverted gs \<longleftrightarrow> gs \<noteq> [] \<and> (hd gs = CHR ''^'' \<or> hd gs = CHR ''!'')"

definition class_body :: "string \<Rightarrow> string" where
  "class_body gs = (if class_inverted gs then tl gs else gs)"

lemma tok_rest: "tokenize f (CHR ''*'' # [CHR ''*'']) = Some [T_rest]"
  by (subst tokenize.simps(2)) simp

lemma tok_dir:
  "hs \<noteq> [] \<Longrightarrow> tokenize f (CHR ''*'' # CHR ''*'' # hs) =
     (if hd hs = CHR ''/'' \<and> f then map_option ((#) T_dir) (tokenize False hs) else None)"
  by (subst tokenize.simps(2)) simp

lemma tok_star:
  "gs = [] \<or> hd gs \<noteq> CHR ''*'' \<Longrightarrow>
     tokenize f (CHR ''*'' # gs) = map_option ((#) T_star) (tokenize False gs)"
  by (subst tokenize.simps(2)) auto

lemma tok_any: "tokenize f (CHR ''?'' # gs) = map_option ((#) T_any) (tokenize False gs)"
  by (subst tokenize.simps(2)) simp

lemma tok_class:
  "tokenize f (CHR ''['' # gs) =
     map_option ((#) (T_class (class_inverted gs) (class_body gs)))
       (tokenize False (bracket_rest (class_body gs)))"
  by (subst tokenize.simps(2)) (simp add: class_inverted_def class_body_def Let_def)

lemma tok_escape:
  "tokenize f (CHR 0x5C # c # r) = map_option ((#) (T_lit c)) (tokenize (c = CHR ''/'') r)"
  by (subst tokenize.simps(2)) simp

lemma tok_escape_end: "tokenize f [CHR 0x5C] = Some [T_never]"
  by (subst tokenize.simps(2)) simp

lemma tok_plain:
  "g \<notin> {CHR ''*'', CHR ''?'', CHR ''['', CHR 0x5C} \<Longrightarrow>
     tokenize f (g # gs) = map_option ((#) (T_lit g)) (tokenize (g = CHR ''/'') gs)"
  by (subst tokenize.simps(2)) simp

lemmas tok_eqs = tok_rest tok_dir tok_star tok_any tok_class tok_escape tok_escape_end tok_plain

declare tokenize.simps(2) [simp del]

section \<open>The reference matcher\<close>

text \<open>Where a \<open>*\<close> at the start of a string may stop: anywhere up to the next slash.\<close>

fun star_ends :: "string \<Rightarrow> string list" where
  "star_ends [] = [[]]"
| "star_ends (c # cs) = (c # cs) # (if c = CHR ''/'' then [] else star_ends cs)"

fun glob_spec :: "token list \<Rightarrow> string \<Rightarrow> bool" where
  "glob_spec [] s = (s = [])"
| "glob_spec (T_star # p) s = list_ex (glob_spec p) (star_ends s)"
| "glob_spec (T_rest # p) s = True"
| "glob_spec (T_dir # p) s =
     (s \<noteq> [] \<and> hd s \<noteq> CHR ''/'' \<and> glob_spec (tl p) s \<or> list_ex (glob_spec p) (suffixes s))"
| "glob_spec (k # p) [] = False"
| "glob_spec (k # p) (c # cs) = (tok_char k c \<and> glob_spec p cs)"

lemma star_ends_iff: "e \<in> set (star_ends s) \<longleftrightarrow> (\<exists>w. s = w @ e \<and> CHR ''/'' \<notin> set w)"
proof (induction s)
  case Nil
  then show ?case by auto
next
  case (Cons c cs)
  show ?case
  proof
    assume "e \<in> set (star_ends (c # cs))"
    then consider "e = c # cs" | "c \<noteq> CHR ''/''" "e \<in> set (star_ends cs)"
      by (auto split: if_splits)
    then show "\<exists>w. c # cs = w @ e \<and> CHR ''/'' \<notin> set w"
    proof cases
      case 1
      then show ?thesis by (intro exI[of _ "[]"]) simp
    next
      case 2
      with Cons obtain w where "cs = w @ e" "CHR ''/'' \<notin> set w" by auto
      with 2 show ?thesis by (intro exI[of _ "c # w"]) auto
    qed
  next
    assume "\<exists>w. c # cs = w @ e \<and> CHR ''/'' \<notin> set w"
    then obtain w where w: "c # cs = w @ e" "CHR ''/'' \<notin> set w" by blast
    with Cons show "e \<in> set (star_ends (c # cs))" by (cases w) auto
  qed
qed

lemma glob_spec_star:
  "glob_spec (T_star # p) s \<longleftrightarrow> (\<exists>w e. s = w @ e \<and> CHR ''/'' \<notin> set w \<and> glob_spec p e)"
  unfolding glob_spec.simps(2) list_ex_iff by (metis star_ends_iff)

lemma glob_spec_dir:
  "glob_spec (T_dir # p) s \<longleftrightarrow>
     (s \<noteq> [] \<and> hd s \<noteq> CHR ''/'' \<and> glob_spec (tl p) s \<or> (\<exists>w e. s = w @ e \<and> glob_spec p e))"
  unfolding glob_spec.simps(4) list_ex_iff by (metis in_set_suffixes suffix_def)

lemma glob_spec_one:
  "one_byte k \<Longrightarrow>
     glob_spec (k # p) s \<longleftrightarrow> (\<exists>c cs. s = c # cs \<and> tok_char k c \<and> glob_spec p cs)"
  by (cases k; cases s) auto

declare glob_spec.simps(2,4) [simp del]

section \<open>Counting slashes\<close>

text \<open>
  A token within a segment consumes a slash only when it is a slash, so a run of such tokens
  consumes exactly as many slashes as it contains.  This is why keeping only the latest backtrack
  points loses nothing.
\<close>

abbreviation slashes :: "string \<Rightarrow> nat" where
  "slashes s \<equiv> count_list s (CHR ''/'')"

abbreviation lits :: "token list \<Rightarrow> nat" where
  "lits p \<equiv> count_list p (T_lit (CHR ''/''))"

lemma tok_char_slash: "tok_char k c \<Longrightarrow> c = CHR ''/'' \<longleftrightarrow> k = T_lit (CHR ''/'')"
  by (cases k) auto

lemma slashes_notin: "slashes w = 0 \<longleftrightarrow> CHR ''/'' \<notin> set w"
  by (simp add: count_list_0_iff)

lemma list_all2_slashes: "list_all2 tok_char u v \<Longrightarrow> slashes v = lits u"
  by (induction rule: list_all2_induct) (auto dest: tok_char_slash)

lemma glob_spec_append_one:
  "list_all one_byte u \<Longrightarrow>
     glob_spec (u @ p) s \<longleftrightarrow> (\<exists>v e. s = v @ e \<and> list_all2 tok_char u v \<and> glob_spec p e)"
proof (induction u arbitrary: s)
  case Nil
  then show ?case by simp
next
  case (Cons k u)
  then have "glob_spec ((k # u) @ p) s \<longleftrightarrow>
      (\<exists>c cs. s = c # cs \<and> tok_char k c \<and> glob_spec (u @ p) cs)"
    by (simp add: glob_spec_one)
  also have "\<dots> \<longleftrightarrow> (\<exists>v e. s = v @ e \<and> list_all2 tok_char (k # u) v \<and> glob_spec p e)"
  proof
    assume "\<exists>c cs. s = c # cs \<and> tok_char k c \<and> glob_spec (u @ p) cs"
    then obtain c v e where "s = (c # v) @ e" "tok_char k c" "list_all2 tok_char u v" "glob_spec p e"
      using Cons by auto
    then show "\<exists>v e. s = v @ e \<and> list_all2 tok_char (k # u) v \<and> glob_spec p e"
      by (intro exI[of _ "c # v"] exI[of _ e]) simp
  next
    assume "\<exists>v e. s = v @ e \<and> list_all2 tok_char (k # u) v \<and> glob_spec p e"
    then obtain v e where "s = v @ e" "list_all2 tok_char (k # u) v" "glob_spec p e" by blast
    with Cons show "\<exists>c cs. s = c # cs \<and> tok_char k c \<and> glob_spec (u @ p) cs"
      by (cases v) auto
  qed
  finally show ?case .
qed

text \<open>What a run of tokens within a segment consumes, stars included.\<close>

definition ends_slash :: "string \<Rightarrow> bool" where
  "ends_slash s \<longleftrightarrow> s \<noteq> [] \<and> last s = CHR ''/''"

definition ends_lit :: "token list \<Rightarrow> bool" where
  "ends_lit x \<longleftrightarrow> x \<noteq> [] \<and> last x = T_lit (CHR ''/'')"

lemma glob_spec_append_segment:
  assumes "list_all in_segment x" "glob_spec (x @ p) s"
  obtains y e where "s = y @ e" "slashes y = lits x" "ends_lit x \<Longrightarrow> ends_slash y" "glob_spec p e"
proof -
  have "\<exists>y e. s = y @ e \<and> slashes y = lits x \<and> (ends_lit x \<longrightarrow> ends_slash y) \<and>
      (x = [] \<longrightarrow> y = []) \<and> glob_spec p e"
    using assms
  proof (induction x arbitrary: s)
    case Nil
    then show ?case by (intro exI[of _ "[]"] exI[of _ s]) (simp add: ends_lit_def)
  next
    case (Cons k x)
    show ?case
    proof (cases "k = T_star")
      case True
      with Cons.prems(2) obtain w e1 where 1: "s = w @ e1" "slashes w = 0" "glob_spec (x @ p) e1"
        by (auto simp: glob_spec_star slashes_notin)
      with Cons.IH[of e1] Cons.prems(1) obtain y e where "e1 = y @ e" "slashes y = lits x"
          "ends_lit x \<longrightarrow> ends_slash y" "x = [] \<longrightarrow> y = []" "glob_spec p e"
        by auto
      with 1 True show ?thesis
        by (intro exI[of _ "w @ y"] exI[of _ e]) (auto simp: ends_lit_def ends_slash_def)
    next
      case False
      with Cons.prems(1) have k: "one_byte k" by (cases k) auto
      with Cons.prems(2) obtain c e1 where 1: "s = c # e1" "tok_char k c" "glob_spec (x @ p) e1"
        by (auto simp: glob_spec_one)
      with Cons.IH[of e1] Cons.prems(1) obtain y e where 2: "e1 = y @ e" "slashes y = lits x"
          "ends_lit x \<longrightarrow> ends_slash y" "x = [] \<longrightarrow> y = []" "glob_spec p e"
        by auto
      have "ends_lit (k # x) \<longrightarrow> ends_slash (c # y)"
        using 2 tok_char_slash[OF 1(2)] by (auto simp: ends_lit_def ends_slash_def count_list_0_iff)
      with 1 2 tok_char_slash[OF 1(2)] show ?thesis
        by (intro exI[of _ "c # y"] exI[of _ e]) auto
    qed
  qed
  with that show thesis by blast
qed

lemma ends_slash_append: "ends_slash (a @ b) \<Longrightarrow> b \<noteq> [] \<Longrightarrow> ends_slash b"
  by (simp add: ends_slash_def)

lemma ends_slash_count: "ends_slash s \<Longrightarrow> 0 < slashes s"
  unfolding ends_slash_def by (metis count_list_0_iff gr0I last_in_set)

lemma glob_spec_min_slashes:
  "list_all in_segment x \<Longrightarrow> glob_spec (x @ p) s \<Longrightarrow> lits x \<le> slashes s"
  by (auto elim!: glob_spec_append_segment)

section \<open>The switch, token by token\<close>

lemma switch_tokens:
  assumes "tokenize f glob = Some p"
  obtains
    (nil) "glob = []" "p = []" "glob_switch t ts glob inner outer = Sw_break"
  | (one) k p' glob' where "p = k # p'" "one_byte k"
      "tokenize (k = T_lit (CHR ''/'')) glob' = Some p'"
      "glob_switch t ts glob inner outer =
         (if tok_char k t then Sw_continue ts glob' inner outer else Sw_break)"
  | (star) gs p' where "p = T_star # p'" "tokenize False gs = Some p'"
      "glob_switch t ts glob inner outer = Sw_continue (t # ts) gs (Some (t # ts, gs)) outer"
  | (dir) r p' where "f" "p = T_dir # T_lit (CHR ''/'') # p'" "tokenize True r = Some p'"
      "tokenize False (CHR ''/'' # r) = Some (T_lit (CHR ''/'') # p')"
      "glob_switch t ts glob inner outer =
         Sw_continue (t # ts) (if t \<noteq> CHR ''/'' then r else CHR ''/'' # r) None
           (Some (t # ts, CHR ''/'' # r))"
  | (rest) "p = [T_rest]" "glob_switch t ts glob inner outer = Sw_return True"
proof (cases glob)
  case Nil
  with assms show thesis by (intro nil) (auto simp: glob_switch_def match_literal_def)
next
  case (Cons g gs)
  consider "g = CHR ''*''" "gs = [CHR ''*'']"
    | hs where "g = CHR ''*''" "gs = CHR ''*'' # hs" "hs \<noteq> []"
    | "g = CHR ''*''" "gs = [] \<or> hd gs \<noteq> CHR ''*''"
    | "g = CHR ''?''" | "g = CHR ''[''" | "g = CHR 0x5C"
    | "g \<notin> {CHR ''*'', CHR ''?'', CHR ''['', CHR 0x5C}"
    by (cases gs) auto
  then show thesis
  proof cases
    case 1
    with assms Cons show thesis by (intro rest) (simp_all add: tok_rest glob_switch_def)
  next
    case 2
    with assms Cons have f: "f" "hd hs = CHR ''/''" by (auto simp: tok_dir split: if_splits)
    with 2 obtain r where r: "hs = CHR ''/'' # r" by (cases hs) auto
    from 2 f r assms Cons obtain p' where p': "tokenize True r = Some p'"
        "p = T_dir # T_lit (CHR ''/'') # p'"
      by (auto simp: tok_dir tok_plain)
    with 2 f r Cons show thesis by (intro dir[of p' r]) (auto simp: tok_plain glob_switch_def)
  next
    case 3
    with assms Cons obtain p' where "p = T_star # p'" "tokenize False gs = Some p'"
      by (auto simp: tok_star)
    with 3 Cons show thesis by (intro star[of p' gs]) (auto simp: glob_switch_def)
  next
    case 4
    with assms Cons obtain p' where "p = T_any # p'" "tokenize False gs = Some p'"
      by (auto simp: tok_any)
    with 4 Cons show thesis by (intro one[of T_any p' gs]) (auto simp: glob_switch_def)
  next
    case 5
    define rv where "rv = class_inverted gs"
    define body where "body = class_body gs"
    from 5 assms Cons obtain p' where p': "tokenize False (bracket_rest body) = Some p'"
        "p = T_class rv body # p'"
      by (auto simp: tok_class rv_def body_def)
    have "snd (bracket_scan t 256 False body) = snd (bracket_scan (CHR 0x00) 256 False body)"
      by (rule bracket_scan_rest)
    then have "match_bracket t ts gs inner outer =
        (if tok_char (T_class rv body) t then Sw_continue ts (bracket_rest body) inner outer else Sw_break)"
      unfolding match_bracket_def class_inverted_def[symmetric] rv_def[symmetric]
      by (auto simp: Let_def bracket_rest_def body_def class_body_def rv_def split: prod.splits)
    with 5 p' Cons show thesis
      by (intro one[of "T_class rv body" p' "bracket_rest body"]) (auto simp: glob_switch_def)
  next
    case 6
    show thesis
    proof (cases gs)
      case Nil
      with 6 assms Cons show thesis
        by (intro one[of T_never "[]" "[]"])
          (auto simp: tok_escape_end glob_switch_def match_literal_def)
    next
      case (Cons c r)
      with 6 assms \<open>glob = g # gs\<close> obtain p' where p': "tokenize (c = CHR ''/'') r = Some p'"
          "p = T_lit c # p'"
        by (auto simp: tok_escape)
      with 6 Cons \<open>glob = g # gs\<close> show thesis
        by (intro one[of "T_lit c" p' r]) (auto simp: glob_switch_def match_literal_def)
    qed
  next
    case 7
    with assms Cons obtain p' where p': "tokenize (g = CHR ''/'') gs = Some p'" "p = T_lit g # p'"
      by (auto simp: tok_plain)
    with 7 Cons show thesis
      by (intro one[of "T_lit g" p' gs]) (auto simp: glob_switch_def match_literal_def)
  qed
qed

lemma tokenize_one:
  assumes "tokenize f (g # gs) = Some p" "g \<noteq> CHR ''*''"
  obtains k q where "p = k # q" "one_byte k"
proof -
  consider "g = CHR ''?''" | "g = CHR ''[''" | "g = CHR 0x5C" "gs = []"
    | c r where "g = CHR 0x5C" "gs = c # r"
    | "g \<notin> {CHR ''*'', CHR ''?'', CHR ''['', CHR 0x5C}"
    using assms(2) by (cases gs) auto
  then show thesis by cases (use assms that in \<open>auto simp: tok_eqs\<close>)
qed

text \<open>At the end of the text only stars may be left.\<close>

lemma tokens_at_end:
  "tokenize f glob = Some p \<Longrightarrow> dropWhile (\<lambda>g. g = CHR ''*'') glob = [] \<longleftrightarrow> glob_spec p []"
proof (induction glob arbitrary: f p rule: length_induct)
  case (1 glob)
  consider "glob = []" | g gs where "glob = g # gs" "g \<noteq> CHR ''*''"
    | "glob = [CHR ''*'', CHR ''*'']"
    | hs where "glob = CHR ''*'' # CHR ''*'' # hs" "hs \<noteq> []"
    | gs where "glob = CHR ''*'' # gs" "gs = [] \<or> hd gs \<noteq> CHR ''*''"
    by (metis list.collapse)
  then show ?case
  proof cases
    case 1
    with "1.prems" show ?thesis by simp
  next
    case 2
    with "1.prems" obtain k q where "p = k # q" "one_byte k" by (auto elim: tokenize_one)
    with 2 show ?thesis by (cases k) auto
  next
    case 3
    with "1.prems" show ?thesis by (auto simp: tok_rest)
  next
    case (4 hs)
    with "1.prems" obtain q where q: "hd hs = CHR ''/''" "tokenize False hs = Some q" "p = T_dir # q"
      by (auto simp: tok_dir split: if_splits)
    then have "\<not> glob_spec q []" using 4 by (cases hs) (auto simp: tok_plain)
    with q 4 show ?thesis by (cases hs) (auto simp: glob_spec_dir)
  next
    case (5 gs)
    with "1.prems" obtain q where "tokenize False gs = Some q" "p = T_star # q"
      by (auto simp: tok_star)
    with 5 "1.IH" show ?thesis by (auto simp: glob_spec_star)
  qed
qed

section \<open>The loop decides the reference relation\<close>

text \<open>
  What the two backtrack points still promise: the inner one, that the last star takes one more
  byte; the outer one, that the rest of the pattern matches further on.
\<close>

definition alt1 :: "backup \<Rightarrow> bool" where
  "alt1 b1 \<longleftrightarrow> (\<exists>c t1 g1 p1. b1 = Some (c # t1, g1) \<and> c \<noteq> CHR ''/'' \<and>
     tokenize False g1 = Some p1 \<and> glob_spec (T_star # p1) t1)"

definition alt2 :: "backup \<Rightarrow> bool" where
  "alt2 b2 \<longleftrightarrow> (\<exists>c t2 g2 p2 w e. b2 = Some (c # t2, g2) \<and> tokenize False g2 = Some p2 \<and>
     t2 = w @ e \<and> glob_spec p2 e)"

text \<open>
  The invariant of the loop.  \<open>region2\<close>: since the outer backtrack point the tokens \<open>x\<close> consumed
  the bytes \<open>pre\<close>, within their number of slashes.  \<open>region1\<close>: since a usable inner backtrack point
  the one-byte tokens \<open>u\<close> consumed the bytes \<open>v\<close>.  \<open>f\<close> says that the pattern is at the start of a
  path component.
\<close>

definition region2 :: "bool \<Rightarrow> token list \<Rightarrow> string \<Rightarrow> backup \<Rightarrow> token list \<Rightarrow> bool" where
  "region2 f p text b2 x \<longleftrightarrow>
     (case b2 of
        None \<Rightarrow> True
      | Some (t2, g2) \<Rightarrow>
          (\<exists>pre. t2 = pre @ text \<and> tokenize False g2 = Some (x @ p) \<and>
             (\<exists>q. x @ p = T_lit (CHR ''/'') # q) \<and> list_all in_segment x \<and>
             (x = [] \<and> pre = [] \<or> slashes (tl pre) < lits x \<and> slashes pre \<le> lits x) \<and>
             (f \<longrightarrow> ends_lit x \<and> (pre = [] \<or> ends_slash pre))))"

definition region1 :: "bool \<Rightarrow> token list \<Rightarrow> string \<Rightarrow> backup \<Rightarrow> backup \<Rightarrow> bool" where
  "region1 f p text b1 b2 \<longleftrightarrow>
     (\<forall>c t1 g1. b1 = Some (c # t1, g1) \<and> c \<noteq> CHR ''/'' \<longrightarrow>
        (\<exists>u v x. c # t1 = v @ text \<and> tokenize False g1 = Some (u @ p) \<and>
           list_all one_byte u \<and> list_all2 tok_char u v \<and> (f \<longrightarrow> ends_lit u) \<and>
           x \<noteq> [] \<and> region2 False (u @ p) (c # t1) b2 x))"

definition loop_inv :: "bool \<Rightarrow> token list \<Rightarrow> string \<Rightarrow> backup \<Rightarrow> backup \<Rightarrow> bool" where
  "loop_inv f p text b1 b2 \<longleftrightarrow> (\<exists>x. region2 f p text b2 x) \<and> region1 f p text b1 b2"

lemma ends_slash_list_all2:
  assumes "list_all2 tok_char u v" "ends_lit u"
  shows "ends_slash v"
proof -
  from assms obtain u' where u: "u = u' @ [T_lit (CHR ''/'')]"
    unfolding ends_lit_def by (metis append_butlast_last_id)
  with assms(1) show ?thesis by (auto simp: list_all2_append1 list_all2_Cons1 ends_slash_def)
qed

text \<open>A usable inner alternative reaches further in the text without crossing a slash.\<close>

lemma alt1_reach:
  assumes "region1 f p text b1 b2" "alt1 b1"
  obtains z e where "text = z @ e" "z \<noteq> []" "CHR ''/'' \<notin> set z" "glob_spec p e" "\<not> f"
proof -
  from assms(2) obtain c t1 g1 p1 where b1: "b1 = Some (c # t1, g1)" "c \<noteq> CHR ''/''"
      "tokenize False g1 = Some p1" "glob_spec (T_star # p1) t1"
    unfolding alt1_def by blast
  with assms(1) obtain u v where uv: "c # t1 = v @ text" "p1 = u @ p" "list_all one_byte u"
      "list_all2 tok_char u v" "f \<longrightarrow> ends_lit u"
    unfolding region1_def by fastforce
  from b1(4) obtain w e1 where w: "t1 = w @ e1" "CHR ''/'' \<notin> set w" "glob_spec p1 e1"
    by (auto simp: glob_spec_star)
  from w(3) uv obtain v' e where v': "e1 = v' @ e" "list_all2 tok_char u v'" "glob_spec p e"
    by (auto simp: glob_spec_append_one)
  have eq: "v @ text = (c # w @ v') @ e" using uv(1) w(1) v'(1) by simp
  have len: "length v = length v'" using uv(4) v'(2) by (metis list_all2_lengthD)
  define z where "z = drop (length v) (c # w @ v')"
  have parts: "c # w @ v' = v @ z"
    using arg_cong[OF eq, of "take (length v)"] len
    by (metis (no_types, lifting) append_eq_append_conv_if append_take_drop_id eq le_add2
        length_append length_Cons le_SucI z_def)
  have teq: "text = z @ e" using eq parts by simp
  have "slashes (c # w @ v') = lits u"
    using b1(2) w(2) list_all2_slashes[OF v'(2)] by (simp add: slashes_notin)
  then have z0: "CHR ''/'' \<notin> set z"
    using parts list_all2_slashes[OF uv(4)] by (simp add: slashes_notin)
  have zne: "z \<noteq> []" using parts len by (auto dest: arg_cong[of _ _ length])
  have "\<not> f"
  proof
    assume f
    with uv(5) v'(2) have "ends_slash v'" by (auto intro: ends_slash_list_all2)
    then have "ends_slash (c # w @ v')" by (auto simp: ends_slash_def)
    then have "ends_slash (v @ z)" unfolding parts .
    with zne have "ends_slash z" by (auto intro: ends_slash_append)
    with z0 show False unfolding ends_slash_def by (metis last_in_set)
  qed
  with that teq zne z0 v'(3) show thesis by blast
qed

text \<open>At the end of the text the backtrack points have nothing left to offer.\<close>

lemma alt1_end: "region1 f p [] b1 b2 \<Longrightarrow> \<not> alt1 b1"
  by (auto elim: alt1_reach)

lemma alt2_end:
  assumes "region2 f p [] b2 x"
  shows "\<not> alt2 b2"
proof
  assume "alt2 b2"
  then obtain c t2 g2 p2 w e where b2: "b2 = Some (c # t2, g2)" "tokenize False g2 = Some p2"
      "t2 = w @ e" "glob_spec p2 e"
    unfolding alt2_def by blast
  with assms have r: "p2 = x @ p" "list_all in_segment x" "slashes t2 < lits x"
    by (auto simp: region2_def)
  have "lits x \<le> slashes e" using glob_spec_min_slashes[OF r(2) b2(4)[unfolded r(1)]] .
  with r b2(3) show False by simp
qed

text \<open>The invariant is kept by the moves of the loop.\<close>

lemma region2_one:
  assumes "region2 f (k # p) (t # ts) b2 x" "tok_char k t" "one_byte k"
  shows "region2 (k = T_lit (CHR ''/'')) p ts b2 (x @ [k])"
proof (cases b2)
  case None
  then show ?thesis by (simp add: region2_def)
next
  case (Some b)
  obtain t2 g2 where b: "b = (t2, g2)" by fastforce
  with assms(1) Some obtain pre q where pre: "t2 = pre @ t # ts"
      "tokenize False g2 = Some (x @ k # p)" "x @ k # p = T_lit (CHR ''/'') # q"
      "list_all in_segment x"
      "x = [] \<and> pre = [] \<or> slashes (tl pre) < lits x \<and> slashes pre \<le> lits x"
    by (auto simp: region2_def)
  have k: "in_segment k" using assms(3) by (cases k) auto
  note ts = tok_char_slash[OF assms(2)]
  have "slashes (tl (pre @ [t])) < lits (x @ [k]) \<and> slashes (pre @ [t]) \<le> lits (x @ [k])"
    using pre(3,5) ts by (cases pre) auto
  moreover have "k = T_lit (CHR ''/'') \<longrightarrow> ends_lit (x @ [k]) \<and> ends_slash (pre @ [t])"
    using ts by (auto simp: ends_lit_def ends_slash_def)
  ultimately show ?thesis
    using pre k Some b unfolding region2_def by (auto intro!: exI[of _ "pre @ [t]"])
qed

lemma loop_inv_one:
  assumes "loop_inv f (k # p) (t # ts) b1 b2" "tok_char k t" "one_byte k"
  shows "loop_inv (k = T_lit (CHR ''/'')) p ts b1 b2"
proof -
  have "\<exists>x. region2 (k = T_lit (CHR ''/'')) p ts b2 x"
    using assms by (auto simp: loop_inv_def intro: region2_one)
  moreover have "region1 (k = T_lit (CHR ''/'')) p ts b1 b2"
    unfolding region1_def
  proof (intro allI impI)
    fix c t1 g1
    assume b1: "b1 = Some (c # t1, g1) \<and> c \<noteq> CHR ''/''"
    with assms(1) obtain u v x where uv: "c # t1 = v @ t # ts"
        "tokenize False g1 = Some (u @ k # p)" "list_all one_byte u" "list_all2 tok_char u v"
        "x \<noteq> []" "region2 False (u @ k # p) (c # t1) b2 x"
      unfolding loop_inv_def region1_def by fastforce
    with assms show "\<exists>u v x. c # t1 = v @ ts \<and> tokenize False g1 = Some (u @ p) \<and>
        list_all one_byte u \<and> list_all2 tok_char u v \<and> (k = T_lit (CHR ''/'') \<longrightarrow> ends_lit u) \<and>
        x \<noteq> [] \<and> region2 False (u @ p) (c # t1) b2 x"
      by (intro exI[of _ "u @ [k]"] exI[of _ "v @ [t]"] exI[of _ x])
        (auto simp: ends_lit_def list_all2_appendI)
  qed
  ultimately show ?thesis by (simp add: loop_inv_def)
qed

lemma region2_star:
  assumes "region2 f (T_star # p) text b2 x"
  shows "region2 False p text b2 (x @ [T_star])"
  using assms by (auto simp: region2_def Cons_eq_append_conv split: option.splits)

lemma region2_skip:
  assumes "region2 False p (c # t1) b2 x" "x \<noteq> []" "c \<noteq> CHR ''/''"
  shows "region2 False p t1 b2 x"
proof (cases b2)
  case None
  then show ?thesis by (simp add: region2_def)
next
  case (Some b)
  obtain t2 g2 where b: "b = (t2, g2)" by fastforce
  with assms Some obtain pre q where pre: "t2 = pre @ c # t1" "tokenize False g2 = Some (x @ p)"
      "x @ p = T_lit (CHR ''/'') # q" "list_all in_segment x"
      "slashes (tl pre) < lits x \<and> slashes pre \<le> lits x"
    by (auto simp: region2_def)
  moreover have "slashes (tl (pre @ [c])) < lits x \<and> slashes (pre @ [c]) \<le> lits x"
    using pre(5) assms(3) by (cases pre) auto
  ultimately show ?thesis
    using Some b by (auto simp: region2_def intro!: exI[of _ "pre @ [c]"])
qed

lemma loop_inv_star:
  assumes "loop_inv f (T_star # p) text b1 b2" "tokenize False gs = Some p"
  shows "loop_inv False p text (Some (text, gs)) b2"
proof -
  obtain x where "region2 False p text b2 (x @ [T_star])"
    using assms(1) region2_star unfolding loop_inv_def by blast
  moreover from this have "region1 False p text (Some (text, gs)) b2"
    unfolding region1_def using assms(2)
    by (intro allI impI exI[of _ "[]"] exI[of _ "x @ [T_star]"]) simp
  ultimately show ?thesis unfolding loop_inv_def by blast
qed

lemma loop_inv_backtrack1:
  assumes "loop_inv f p text (Some (c # t1, g1)) b2" "c \<noteq> CHR ''/''" "tokenize False g1 = Some p1"
  shows "loop_inv False p1 t1 (Some (t1, g1)) b2"
proof -
  from assms obtain x where "x \<noteq> []" "region2 False p1 (c # t1) b2 x"
    unfolding loop_inv_def region1_def by fastforce
  with assms(2) have "x \<noteq> []" "region2 False p1 t1 b2 x" by (auto intro: region2_skip)
  moreover from this have "region1 False p1 t1 (Some (t1, g1)) b2"
    unfolding region1_def using assms(3)
    by (intro allI impI exI[of _ "[]"] exI[of _ x]) simp
  ultimately show ?thesis unfolding loop_inv_def by blast
qed

lemma region1_stale:
  "(\<And>c t1 g1. b1 = Some (c # t1, g1) \<Longrightarrow> c = CHR ''/'') \<Longrightarrow> region1 f p text b1 b2"
  by (auto simp: region1_def)

lemma region2_start:
  "tokenize False g2 = Some (T_lit (CHR ''/'') # q) \<Longrightarrow>
     region2 False (T_lit (CHR ''/'') # q) t2 (Some (t2, g2)) []"
  by (simp add: region2_def)

lemma region2_zero_dirs:
  "tokenize False g2 = Some (T_lit (CHR ''/'') # q) \<Longrightarrow>
     region2 True q t2 (Some (t2, g2)) [T_lit (CHR ''/'')]"
  by (simp add: region2_def ends_lit_def)

text \<open>A \<open>**\<close> further on subsumes the older outer alternative.\<close>

lemma alt2_subsumed:
  assumes "region2 True (T_dir # T_lit (CHR ''/'') # q) text b2 x" "alt2 b2"
  shows "glob_spec (T_dir # T_lit (CHR ''/'') # q) text"
proof -
  let ?q = "T_lit (CHR ''/'') # q"
  from assms(2) obtain c t2 g2 p2 w s where b2: "b2 = Some (c # t2, g2)"
      "tokenize False g2 = Some p2" "t2 = w @ s" "glob_spec p2 s"
    unfolding alt2_def by blast
  with assms(1) obtain pre where pre: "c # t2 = pre @ text" "p2 = x @ T_dir # ?q"
      "list_all in_segment x" "slashes pre \<le> lits x" "ends_lit x" "pre = [] \<or> ends_slash pre"
    by (auto simp: region2_def ends_lit_def)
  from glob_spec_append_segment[OF pre(3) b2(4)[unfolded pre(2)]]
  obtain y e where y: "s = y @ e" "slashes y = lits x" "ends_slash y" "glob_spec (T_dir # ?q) e"
    using pre(5) by blast
  have eq: "pre @ text = (c # w @ y) @ e" using pre(1) b2(3) y(1) by simp
  consider z where "text = z @ e" "c # w @ y = pre @ z" | z where "z \<noteq> []" "pre = (c # w @ y) @ z"
  proof -
    from eq obtain us where "pre = (c # w @ y) @ us \<and> us @ text = e \<or> pre @ us = c # w @ y \<and> text = us @ e"
      unfolding append_eq_append_conv2 by blast
    then show thesis using that by (cases "us = []") auto
  qed
  then show ?thesis
  proof cases
    case 1
    from y(4) consider d r where "e = d # r" "glob_spec q e" | w' e' where "e = w' @ e'" "glob_spec ?q e'"
      by (cases e) (auto simp: glob_spec_dir)
    then show ?thesis
    proof cases
      case (1 d r)
      show ?thesis
      proof (cases "z = []")
        case True
        with \<open>text = z @ e\<close> y(4) show ?thesis by simp
      next
        case False
        have "ends_slash (c # w @ y)" using y(3) by (auto simp: ends_slash_def)
        then have "ends_slash (pre @ z)" unfolding \<open>c # w @ y = pre @ z\<close> .
        with False have "ends_slash z" by (auto intro: ends_slash_append)
        then obtain z' where "z = z' @ [CHR ''/'']"
          unfolding ends_slash_def by (metis append_butlast_last_id)
        with 1 \<open>text = z @ e\<close> show ?thesis
          unfolding glob_spec_dir by (intro disjI2 exI[of _ z'] exI[of _ "CHR ''/'' # e"]) simp
      qed
    next
      case (2 w' e')
      with \<open>text = z @ e\<close> show ?thesis
        unfolding glob_spec_dir by (intro disjI2 exI[of _ "z @ w'"] exI[of _ e']) simp
    qed
  next
    case 2
    then have "ends_slash ((c # w @ y) @ z)" using pre(6) by simp
    then have "ends_slash z" using 2(1) by (rule ends_slash_append)
    then have "0 < slashes z" by (rule ends_slash_count)
    moreover have "slashes pre \<le> slashes y" using pre(4) y(2) by simp
    ultimately have False unfolding 2(2) by (simp split: if_splits)
    then show ?thesis ..
  qed
qed

lemma glob_spec_star_Cons:
  "glob_spec (T_star # p) (c # t) \<longleftrightarrow> glob_spec p (c # t) \<or> c \<noteq> CHR ''/'' \<and> glob_spec (T_star # p) t"
  by (auto simp: glob_spec.simps(2))

lemma alt1_Some:
  "tokenize False g1 = Some p1 \<Longrightarrow>
     alt1 (Some (c # t1, g1)) \<longleftrightarrow> c \<noteq> CHR ''/'' \<and> glob_spec (T_star # p1) t1"
  by (auto simp: alt1_def)

lemma alt1_here:
  "tokenize False g1 = Some p1 \<Longrightarrow>
     glob_spec p1 t1 \<or> alt1 (Some (t1, g1)) \<longleftrightarrow> glob_spec (T_star # p1) t1"
  by (cases t1) (auto simp: alt1_Some glob_spec_star_Cons alt1_def glob_spec.simps(2))

lemma alt2_Some:
  "tokenize False g2 = Some p2 \<Longrightarrow>
     alt2 (Some (c # t2, g2)) \<longleftrightarrow> (\<exists>w e. t2 = w @ e \<and> glob_spec p2 e)"
  by (auto simp: alt2_def)

lemma alt2_here:
  assumes "tokenize False g2 = Some p2"
  shows "glob_spec p2 t2 \<or> alt2 (Some (t2, g2)) \<longleftrightarrow> (\<exists>w e. t2 = w @ e \<and> glob_spec p2 e)"
proof (cases t2)
  case Nil
  then show ?thesis by (auto simp: alt2_def)
next
  case (Cons c t)
  then show ?thesis
    using alt2_Some[OF assms, of c t] by (auto simp: Cons_eq_append_conv)
qed

lemma alt_None [simp]: "\<not> alt1 None" "\<not> alt2 None"
  by (simp_all add: alt1_def alt2_def)

definition live :: "backup \<Rightarrow> bool" where
  "live b1 \<longleftrightarrow> (\<exists>c t1 g1. b1 = Some (c # t1, g1) \<and> c \<noteq> CHR ''/'')"

lemma live_stale: "\<not> live b1 \<Longrightarrow> b1 = Some (c # t1, g1) \<Longrightarrow> c = CHR ''/''"
  by (auto simp: live_def)

text \<open>Taking the backtrack points, once the current attempt has failed.\<close>

definition backtrack :: "backup \<Rightarrow> backup \<Rightarrow> bool" where
  "backtrack b1 b2 \<longleftrightarrow>
     (case b1 of
        Some (c # t1, g1) \<Rightarrow>
          if c \<noteq> CHR ''/'' then glob_loop t1 g1 (Some (t1, g1)) b2
          else (case b2 of Some (_ # t2, g2) \<Rightarrow> glob_loop t2 g2 b1 (Some (t2, g2)) | _ \<Rightarrow> False)
      | _ \<Rightarrow> (case b2 of Some (_ # t2, g2) \<Rightarrow> glob_loop t2 g2 b1 (Some (t2, g2)) | _ \<Rightarrow> False))"

lemma glob_loop_Cons:
  "glob_loop (t # ts) glob b1 b2 =
     (case glob_switch t ts glob b1 b2 of
        Sw_return r \<Rightarrow> r
      | Sw_continue text' glob' b1' b2' \<Rightarrow> glob_loop text' glob' b1' b2'
      | Sw_break \<Rightarrow> backtrack b1 b2)"
  unfolding glob_loop.simps(2) backtrack_def ..

lemma alt1_subsumed:
  assumes "loop_inv f (T_star # p) text b1 b2" "alt1 b1"
  shows "glob_spec (T_star # p) text"
proof -
  from assms obtain z e where "text = z @ e" "CHR ''/'' \<notin> set z" "glob_spec (T_star # p) e"
    by (auto simp: loop_inv_def elim: alt1_reach)
  moreover from this(3) obtain w e' where "e = w @ e'" "CHR ''/'' \<notin> set w" "glob_spec p e'"
    by (auto simp: glob_spec_star)
  ultimately show ?thesis
    unfolding glob_spec_star by (intro exI[of _ "z @ w"] exI[of _ e']) auto
qed

text \<open>After \<open>**\<close> the loop first tries no directory at all, then every later slash.\<close>

lemma dir_correct:
  assumes "tokenize True r = Some p" "tokenize False (CHR ''/'' # r) = Some (T_lit (CHR ''/'') # p)"
    and "\<And>glob f q. tokenize f glob = Some q \<Longrightarrow>
           loop_inv f q (t # ts) None (Some (t # ts, CHR ''/'' # r)) \<Longrightarrow>
           glob = (if t \<noteq> CHR ''/'' then r else CHR ''/'' # r) \<Longrightarrow>
           glob_loop (t # ts) glob None (Some (t # ts, CHR ''/'' # r)) \<longleftrightarrow>
             glob_spec q (t # ts) \<or> alt2 (Some (t # ts, CHR ''/'' # r))"
  shows "glob_loop (t # ts) (if t \<noteq> CHR ''/'' then r else CHR ''/'' # r) None
           (Some (t # ts, CHR ''/'' # r))
         \<longleftrightarrow> glob_spec (T_dir # T_lit (CHR ''/'') # p) (t # ts)"
proof (cases "t = CHR ''/''")
  case True
  have "loop_inv False (T_lit (CHR ''/'') # p) (t # ts) None (Some (t # ts, CHR ''/'' # r))"
    unfolding loop_inv_def using region2_start[OF assms(2)] by (blast intro: region1_stale)
  from assms(3)[OF assms(2) this] True show ?thesis
    using alt2_here[OF assms(2), of "t # ts"] by (simp add: glob_spec_dir)
next
  case False
  have "loop_inv True p (t # ts) None (Some (t # ts, CHR ''/'' # r))"
    unfolding loop_inv_def using region2_zero_dirs[OF assms(2)] by (blast intro: region1_stale)
  from assms(3)[OF assms(1) this] False show ?thesis
    using alt2_here[OF assms(2), of "t # ts"] by (auto simp: glob_spec_dir)
qed

lemma backtrack2_correct:
  assumes "loop_inv f p text b1 b2" "\<not> live b1"
    and "\<And>t2 g2 c q. b2 = Some (c # t2, g2) \<Longrightarrow> tokenize False g2 = Some q \<Longrightarrow>
           loop_inv False q t2 b1 (Some (t2, g2)) \<Longrightarrow>
           glob_loop t2 g2 b1 (Some (t2, g2)) \<longleftrightarrow>
             glob_spec q t2 \<or> alt1 b1 \<or> alt2 (Some (t2, g2))"
  shows "(case b2 of Some (_ # t2, g2) \<Rightarrow> glob_loop t2 g2 b1 (Some (t2, g2)) | _ \<Rightarrow> False)
         \<longleftrightarrow> alt2 b2"
proof (cases "\<exists>c t2 g2. b2 = Some (c # t2, g2)")
  case True
  then obtain c t2 g2 where b2: "b2 = Some (c # t2, g2)" by blast
  with assms(1) obtain q where q: "tokenize False g2 = Some (T_lit (CHR ''/'') # q)"
    by (auto simp: loop_inv_def region2_def)
  have "\<not> alt1 b1" using assms(2) by (auto simp: alt1_def live_def)
  moreover have "loop_inv False (T_lit (CHR ''/'') # q) t2 b1 (Some (t2, g2))"
    unfolding loop_inv_def using region2_start[OF q, of t2] assms(2)
    by (blast intro: region1_stale live_stale)
  ultimately show ?thesis
    using assms(3)[OF b2 q] alt2_here[OF q, of t2] alt2_Some[OF q, of c t2] b2 by simp
next
  case False
  then show ?thesis by (auto simp: alt2_def split: option.splits list.splits)
qed

lemma backtrack_correct:
  assumes "loop_inv f p text b1 b2"
    and "\<And>text' glob' b1' b2' f' p'.
           ((text', glob', b1', b2'), (text, glob, b1, b2)) \<in> measures glob_measures \<Longrightarrow>
           tokenize f' glob' = Some p' \<Longrightarrow> loop_inv f' p' text' b1' b2' \<Longrightarrow>
           glob_loop text' glob' b1' b2' \<longleftrightarrow> glob_spec p' text' \<or> alt1 b1' \<or> alt2 b2'"
  shows "backtrack b1 b2 \<longleftrightarrow> alt1 b1 \<or> alt2 b2"
proof (cases "live b1")
  case True
  then obtain c t1 g1 where b1: "b1 = Some (c # t1, g1)" "c \<noteq> CHR ''/''" by (auto simp: live_def)
  with assms(1) obtain p1 where p1: "tokenize False g1 = Some p1"
    unfolding loop_inv_def region1_def by blast
  have "loop_inv False p1 t1 (Some (t1, g1)) b2"
    using loop_inv_backtrack1 assms(1) b1 p1 by blast
  then have "glob_loop t1 g1 (Some (t1, g1)) b2 \<longleftrightarrow>
      glob_spec p1 t1 \<or> alt1 (Some (t1, g1)) \<or> alt2 b2"
    using assms(2)[OF _ p1] backtrack1_decreases b1(1) by blast
  then show ?thesis
    using b1 alt1_here[OF p1, of t1] alt1_Some[OF p1, of c t1] by (auto simp: backtrack_def)
next
  case False
  then have "backtrack b1 b2 =
      (case b2 of Some (_ # t2, g2) \<Rightarrow> glob_loop t2 g2 b1 (Some (t2, g2)) | _ \<Rightarrow> False)"
    by (auto simp: backtrack_def live_def split: option.splits list.splits)
  moreover have "\<not> alt1 b1" using False by (auto simp: alt1_def live_def)
  moreover have "(case b2 of Some (_ # t2, g2) \<Rightarrow> glob_loop t2 g2 b1 (Some (t2, g2)) | _ \<Rightarrow> False)
      \<longleftrightarrow> alt2 b2"
    using assms(1) False
    by (rule backtrack2_correct) (use assms(2) backtrack2_decreases in blast)
  ultimately show ?thesis by blast
qed

lemmas loop_induct = wf_induct_rule [OF wf_measures [of glob_measures]]

theorem loop_correct:
  assumes "tokenize f glob = Some p" "loop_inv f p str b1 b2"
  shows "glob_loop str glob b1 b2 \<longleftrightarrow> glob_spec p str \<or> alt1 b1 \<or> alt2 b2"
  using assms
proof (induction "(str, glob, b1, b2)" arbitrary: str glob b1 b2 f p
    rule: loop_induct)
  case (1 str glob b1 b2)
  note IH = "1.hyps"
  show ?case
  proof (cases str)
    case Nil
    with "1.prems" have "\<not> alt1 b1" "\<not> alt2 b2"
      by (auto simp: loop_inv_def dest: alt1_end alt2_end)
    with Nil tokens_at_end[OF "1.prems"(1)] show ?thesis by simp
  next
    case (Cons t ts)
    have step: "glob_loop str' glob' b1' b2' \<longleftrightarrow> glob_spec p' str' \<or> alt1 b1' \<or> alt2 b2'"
      if "glob_switch t ts glob b1 b2 = Sw_continue str' glob' b1' b2'"
        "tokenize f' glob' = Some p'" "loop_inv f' p' str' b1' b2'" for str' glob' b1' b2' f' p'
      using IH[OF _ that(2,3)] continue_decreases[OF that(1)] Cons by blast
    have fail: "backtrack b1 b2 \<longleftrightarrow> alt1 b1 \<or> alt2 b2"
      by (rule backtrack_correct[OF "1.prems"(2), of glob]) (rule IH)
    from "1.prems"(1) show ?thesis
    proof (cases rule: switch_tokens [of f glob p t ts b1 b2])
      case nil
      with Cons fail show ?thesis by (simp add: glob_loop_Cons)
    next
      case (one k p' glob')
      show ?thesis
      proof (cases "tok_char k t")
        case True
        with one "1.prems"(2) Cons have "loop_inv (k = T_lit (CHR ''/'')) p' ts b1 b2"
          by (auto intro: loop_inv_one)
        with one True Cons step[of ts glob' b1 b2] show ?thesis
          by (simp add: glob_loop_Cons glob_spec_one)
      next
        case False
        with one Cons fail show ?thesis by (simp add: glob_loop_Cons glob_spec_one)
      qed
    next
      case (star gs p')
      have "loop_inv False p' str (Some (str, gs)) b2"
        using "1.prems"(2) star by (auto intro: loop_inv_star)
      with star Cons have "glob_loop str glob b1 b2 \<longleftrightarrow>
          glob_spec p' str \<or> alt1 (Some (str, gs)) \<or> alt2 b2"
        using step[of "t # ts" gs "Some (t # ts, gs)" b2 False p'] by (simp add: glob_loop_Cons)
      also have "\<dots> \<longleftrightarrow> glob_spec p str \<or> alt2 b2"
        using alt1_here[OF star(2), of str] star(1) by auto
      also have "\<dots> \<longleftrightarrow> glob_spec p str \<or> alt1 b1 \<or> alt2 b2"
        using alt1_subsumed[of f p' str b1 b2] "1.prems"(2) star(1) by auto
      finally show ?thesis .
    next
      case (dir r p')
      have "\<not> alt1 b1" using "1.prems"(2) dir(1) by (auto simp: loop_inv_def elim: alt1_reach)
      moreover have "alt2 b2 \<Longrightarrow> glob_spec p str"
        using "1.prems"(2) dir(1,2) by (auto simp: loop_inv_def intro: alt2_subsumed)
      moreover have "glob_loop str glob b1 b2 \<longleftrightarrow> glob_spec p str"
      proof -
        have "glob_loop str glob b1 b2 = glob_loop (t # ts)
            (if t \<noteq> CHR ''/'' then r else CHR ''/'' # r) None (Some (t # ts, CHR ''/'' # r))"
          unfolding Cons glob_loop_Cons[of t ts glob b1 b2] dir(5) switch_exit.case ..
        also have "\<dots> \<longleftrightarrow> glob_spec p (t # ts)"
          unfolding dir(2)
        proof (rule dir_correct[OF dir(3,4)])
          fix glob' f' q
          assume "tokenize f' glob' = Some q"
            "loop_inv f' q (t # ts) None (Some (t # ts, CHR ''/'' # r))"
            "glob' = (if t \<noteq> CHR ''/'' then r else CHR ''/'' # r)"
          with step[OF dir(5)[folded this(3)]] show
            "glob_loop (t # ts) glob' None (Some (t # ts, CHR ''/'' # r)) \<longleftrightarrow>
               glob_spec q (t # ts) \<or> alt2 (Some (t # ts, CHR ''/'' # r))"
            by simp
        qed
        finally show ?thesis using Cons by simp
      qed
      ultimately show ?thesis by blast
    next
      case rest
      with Cons show ?thesis by (simp add: glob_loop_Cons)
    qed
  qed
qed


section \<open>Literal prefixes\<close>

definition plain_byte :: "char \<Rightarrow> bool" where
  "plain_byte c \<longleftrightarrow> c \<notin> {CHR ''*'', CHR ''?'', CHR ''['', CHR 0x5C, CHR 0x00}"

lemma switch_plain:
  "plain_byte g \<Longrightarrow>
     glob_switch t ts (g # gs) b1 b2 = (if g = t then Sw_continue ts gs b1 b2 else Sw_break)"
  by (auto simp: plain_byte_def glob_switch_def match_literal_def)

text \<open>Before the first wildcard the loop compares byte by byte, whatever the rest of the pattern.\<close>

lemma loop_plain:
  "list_all plain_byte l \<Longrightarrow>
     glob_loop s (l @ rest) None None \<longleftrightarrow> (\<exists>s'. s = l @ s' \<and> glob_loop s' rest None None)"
proof (induction l arbitrary: s)
  case Nil
  then show ?case by simp
next
  case (Cons g l)
  show ?case
  proof (cases s)
    case Nil
    with Cons.prems show ?thesis by (auto simp: plain_byte_def)
  next
    fix t ts
    assume "s = t # ts"
    with Cons show ?thesis
      by (auto simp: glob_loop_Cons switch_plain backtrack_def)
  qed
qed

lemma c_str_plain: "list_all plain_byte l \<Longrightarrow> c_str (l @ rest) = l @ c_str rest"
  unfolding c_str_def by (induction l) (auto simp: plain_byte_def)

lemma glob_match_plain:
  "list_all plain_byte l \<Longrightarrow>
     glob_match s (l @ rest) \<longleftrightarrow> (\<exists>s'. c_str s = l @ s' \<and> glob_loop s' (c_str rest) None None)"
  by (simp add: glob_match_def c_str_plain loop_plain)

lemma glob_match_prefix: "list_all plain_byte l \<Longrightarrow> glob_match s (l @ rest) \<Longrightarrow> prefix l (c_str s)"
  by (auto simp: glob_match_plain)

lemma loop_nil_pattern: "glob_loop s [] None None \<longleftrightarrow> s = []"
  by (cases s) (simp_all add: glob_loop_Cons glob_switch_def match_literal_def backtrack_def)

lemma loop_rest_pattern: "glob_loop s ''**'' None None"
  by (cases s) (simp_all add: glob_loop_Cons glob_switch_def)

section \<open>Properties\<close>

text \<open>
  C16: on every pattern in which \<open>**\<close> is a whole path component, \<open>glob_match\<close> (the loop of
  \<open>deps/match.c\<close> with its two backtrack points) accepts a string exactly when the reference
  matcher, which tries every extent of every \<open>*\<close> and \<open>**\<close>, accepts it.
\<close>

theorem glob_match_reference:
  assumes "tokenize True (c_str glob) = Some p"
  shows "glob_match s glob \<longleftrightarrow> glob_spec p (c_str s)"
proof -
  have "loop_inv True p (c_str s) None None"
    by (simp add: loop_inv_def region1_def region2_def)
  then show ?thesis using loop_correct[OF assms] by (simp add: glob_match_def)
qed

theorem glob_match_reference_witness:
  "glob_match ''/a/b/xcd/f.txt'' ''/a/**/x*d/f.[st]xt'' \<and>
   \<not> glob_match ''/a/b/xcd/f.txt'' ''/a/*/f.txt''"
proof -
  have "tokenize True (c_str ''/a/**/x*d/f.[st]xt'') = Some
      [T_lit (CHR ''/''), T_lit (CHR ''a''), T_lit (CHR ''/''), T_dir, T_lit (CHR ''/''),
       T_lit (CHR ''x''), T_star, T_lit (CHR ''d''), T_lit (CHR ''/''), T_lit (CHR ''f''),
       T_lit (CHR ''.''), T_class False ''st]xt'', T_lit (CHR ''x''), T_lit (CHR ''t'')]"
    by code_simp
  from glob_match_reference[OF this, of "''/a/b/xcd/f.txt''"]
  have 1: "glob_match ''/a/b/xcd/f.txt'' ''/a/**/x*d/f.[st]xt''" by simp code_simp
  have "tokenize True (c_str ''/a/*/f.txt'') = Some
      [T_lit (CHR ''/''), T_lit (CHR ''a''), T_lit (CHR ''/''), T_star, T_lit (CHR ''/''),
       T_lit (CHR ''f''), T_lit (CHR ''.''), T_lit (CHR ''t''), T_lit (CHR ''x''),
       T_lit (CHR ''t'')]"
    by code_simp
  from glob_match_reference[OF this, of "''/a/b/xcd/f.txt''"]
  have 2: "\<not> glob_match ''/a/b/xcd/f.txt'' ''/a/*/f.txt''" by simp code_simp
  from 1 2 show ?thesis by blast
qed

text \<open>
  a pattern that starts with literal bytes matches only strings that start with them, and after
  them the match is that of the rest; in particular a pattern with no special byte matches one
  string, and a literal followed by \<open>**\<close> matches exactly the strings with that prefix.
\<close>

theorem glob_match_literal:
  assumes "list_all plain_byte l"
  shows "(glob_match s (l @ rest) \<longrightarrow> prefix l (c_str s)) \<and>
         (glob_match (l @ s) (l @ rest) \<longleftrightarrow> glob_match s rest) \<and>
         (glob_match s l \<longleftrightarrow> c_str s = l) \<and>
         (glob_match s (l @ ''**'') \<longleftrightarrow> prefix l (c_str s))"
proof (intro conjI)
  show "glob_match s (l @ rest) \<longrightarrow> prefix l (c_str s)"
    using assms by (auto intro: glob_match_prefix)
  show "glob_match (l @ s) (l @ rest) \<longleftrightarrow> glob_match s rest"
    using assms by (simp add: glob_match_plain c_str_plain) (simp add: glob_match_def)
  show "glob_match s l \<longleftrightarrow> c_str s = l"
    using glob_match_plain[OF assms, of s "[]"] by (simp add: loop_nil_pattern)
  have "c_str ''**'' = ''**''" by (simp add: c_str_def)
  then show "glob_match s (l @ ''**'') \<longleftrightarrow> prefix l (c_str s)"
    using glob_match_plain[OF assms, of s "''**''"]
    by (simp add: loop_rest_pattern prefix_def)
qed

theorem glob_match_literal_witness:
  "glob_match ''orders/7'' ''orders/**'' \<and> \<not> glob_match ''order'' ''orders/**''"
  using glob_match_literal[of "''orders/''" "''orders/7''" "[]"]
    glob_match_literal[of "''orders/''" "''order''" "[]"]
  by (simp add: plain_byte_def c_str_def prefix_def)

end
