(* ===== verification/Nplex_Keys.thy ===== *)
theory Nplex_Keys
  imports Nplex_Base
begin

unbundle bit_operations_syntax

text \<open>
  Keys and permission masks: \<open>src/utils.cpp\<close>, the validation and decoding loops of
  \<open>deps/utf8.h\<close>, and the \<open>CRUD_\<close> masks of \<open>src/user.hpp\<close>.
\<close>

section \<open>UTF-8\<close>

text \<open>
  A byte read through \<open>utf8_int8_t *\<close>.  The masks of the code look at the low eight bits only, so
  the sign of \<open>char\<close> does not show in them.
\<close>

definition byte :: "char \<Rightarrow> u8" where
  "byte c = of_char c"

definition cont_byte :: "char \<Rightarrow> bool" where
  "cont_byte c \<longleftrightarrow> byte c AND 0xC0 = 0x80"

text \<open>
  \<open>utf8nvalid(str, n) == 0\<close>, one turn of its loop per equation: the list is the \<open>n - consumed\<close>
  bytes still to read.  \<open>utf8nvalid4\<close>, \<open>utf8nvalid3\<close> and \<open>utf8nvalid2\<close> are the checks of its three
  multi-byte branches.
\<close>

definition utf8_ended :: "string \<Rightarrow> bool" where
  "utf8_ended rest \<longleftrightarrow> (case rest of [] \<Rightarrow> True | c # _ \<Rightarrow> \<not> cont_byte c)"

fun utf8nvalid4 :: "string \<Rightarrow> bool" where
  "utf8nvalid4 (a # b # c # d # rest) \<longleftrightarrow>
     cont_byte b \<and> cont_byte c \<and> cont_byte d \<and> utf8_ended rest \<and>
     \<not> (byte a AND 0x07 = 0 \<and> byte b AND 0x30 = 0)"
| "utf8nvalid4 _ = False"

fun utf8nvalid3 :: "string \<Rightarrow> bool" where
  "utf8nvalid3 (a # b # c # rest) \<longleftrightarrow>
     cont_byte b \<and> cont_byte c \<and> utf8_ended rest \<and>
     \<not> (byte a AND 0x0F = 0 \<and> byte b AND 0x20 = 0)"
| "utf8nvalid3 _ = False"

fun utf8nvalid2 :: "string \<Rightarrow> bool" where
  "utf8nvalid2 (a # b # rest) \<longleftrightarrow>
     cont_byte b \<and> utf8_ended rest \<and> \<not> (byte a AND 0x1E = 0)"
| "utf8nvalid2 _ = False"

text \<open>How many bytes the branch of \<open>utf8codepoint\<close> and of \<open>utf8nvalid\<close> advances by.\<close>

definition utf8_step :: "char \<Rightarrow> nat" where
  "utf8_step c =
     (if byte c AND 0xF8 = 0xF0 then 4
      else if byte c AND 0xF0 = 0xE0 then 3
      else if byte c AND 0xE0 = 0xC0 then 2
      else 1)"

lemma utf8_step_pos [simp]: "0 < utf8_step c"
  by (simp add: utf8_step_def)

function utf8nvalid :: "string \<Rightarrow> bool" where
  "utf8nvalid [] = True"
| "utf8nvalid (c # s) =
     (if c = CHR 0x00 then False
      else if byte c AND 0xF8 = 0xF0 then utf8nvalid4 (c # s) \<and> utf8nvalid (drop 4 (c # s))
      else if byte c AND 0xF0 = 0xE0 then utf8nvalid3 (c # s) \<and> utf8nvalid (drop 3 (c # s))
      else if byte c AND 0xE0 = 0xC0 then utf8nvalid2 (c # s) \<and> utf8nvalid (drop 2 (c # s))
      else if byte c AND 0x80 = 0 then utf8nvalid s
      else False)"
  by pat_completeness auto
termination by (relation "measure length") auto

text \<open>\<open>utf8codepoint\<close> at the head of the bytes left: the code point, and how far it advances.\<close>

definition byte_at :: "string \<Rightarrow> nat \<Rightarrow> u8 \<Rightarrow> u32" where
  "byte_at s i msk = (if i < length s then ucast (byte (s ! i) AND msk) else 0)"

definition utf8codepoint :: "string \<Rightarrow> u32" where
  "utf8codepoint s =
     (case s of
        [] \<Rightarrow> 0
      | c # _ \<Rightarrow>
          if byte c AND 0xF8 = 0xF0 then
            push_bit 18 (byte_at s 0 0x07) OR push_bit 12 (byte_at s 1 0x3F) OR
            push_bit 6 (byte_at s 2 0x3F) OR byte_at s 3 0x3F
          else if byte c AND 0xF0 = 0xE0 then
            push_bit 12 (byte_at s 0 0x0F) OR push_bit 6 (byte_at s 1 0x3F) OR byte_at s 2 0x3F
          else if byte c AND 0xE0 = 0xC0 then
            push_bit 6 (byte_at s 0 0x1F) OR byte_at s 1 0x3F
          else ucast (byte c))"

section \<open>Keys\<close>

text \<open>The control characters \<open>is_valid_key\<close> refuses: C0, DEL and C1.\<close>

definition control_cp :: "u32 \<Rightarrow> bool" where
  "control_cp cp \<longleftrightarrow> cp \<le> 0x1F \<or> 0x7F \<le> cp \<and> cp \<le> 0x9F"

text \<open>The \<open>while (ptr < end)\<close> loop of \<open>is_valid_key\<close>.\<close>

function no_controls :: "string \<Rightarrow> bool" where
  "no_controls [] = True"
| "no_controls (c # s) =
     (if control_cp (utf8codepoint (c # s)) then False
      else no_controls (drop (utf8_step c) (c # s)))"
  by pat_completeness auto
termination by (relation "measure length") auto

definition is_valid_key :: "string \<Rightarrow> bool" where
  "is_valid_key key \<longleftrightarrow>
     key \<noteq> [] \<and>
     \<not> (hd key = CHR '' '' \<or> last key = CHR '' '') \<and>
     \<not> sublist ''//'' key \<and>
     CHR 0x00 \<notin> set key \<and>
     utf8nvalid key \<and>
     no_controls key"

text \<open>The overload for a \<open>const char *\<close>, null or a C string.\<close>

definition is_valid_key_ptr :: "string option \<Rightarrow> bool" where
  "is_valid_key_ptr key \<longleftrightarrow> (case key of None \<Rightarrow> False | Some s \<Rightarrow> is_valid_key (c_str s))"

section \<open>Permission masks\<close>

definition CRUD_READ :: u8 where "CRUD_READ = 0x01"
definition CRUD_CREATE :: u8 where "CRUD_CREATE = 0x02"
definition CRUD_UPDATE :: u8 where "CRUD_UPDATE = 0x04"
definition CRUD_DELETE :: u8 where "CRUD_DELETE = 0x08"

lemmas crud_masks = CRUD_READ_def CRUD_CREATE_def CRUD_UPDATE_def CRUD_DELETE_def

definition crud_to_string :: "u8 \<Rightarrow> string" where
  "crud_to_string crud =
     [if crud AND CRUD_CREATE \<noteq> 0 then CHR ''c'' else CHR ''-'',
      if crud AND CRUD_READ \<noteq> 0 then CHR ''r'' else CHR ''-'',
      if crud AND CRUD_UPDATE \<noteq> 0 then CHR ''u'' else CHR ''-'',
      if crud AND CRUD_DELETE \<noteq> 0 then CHR ''d'' else CHR ''-'']"

definition crud_bit :: "char \<Rightarrow> u8" where
  "crud_bit c =
     (if c = CHR ''c'' then CRUD_CREATE
      else if c = CHR ''r'' then CRUD_READ
      else if c = CHR ''u'' then CRUD_UPDATE
      else if c = CHR ''d'' then CRUD_DELETE
      else 0)"

text \<open>The loop of \<open>parse_crud\<close>: the bytes left, the bytes of \<open>"crud"\<close> left, and the mask so far.\<close>

fun parse_crud_loop :: "string \<Rightarrow> string \<Rightarrow> u8 \<Rightarrow> exn + u8" where
  "parse_crud_loop (c # cs) (k # ks) crud =
     (if c \<noteq> k \<and> c \<noteq> CHR ''-'' then Inl Ex_invalid_argument
      else parse_crud_loop cs ks (crud OR crud_bit c))"
| "parse_crud_loop _ _ crud = Inr crud"

definition parse_crud :: "string \<Rightarrow> exn + u8" where
  "parse_crud str =
     (if length str \<noteq> 4 then Inl Ex_invalid_argument else parse_crud_loop str ''crud'' 0)"


section \<open>Printing and parsing masks\<close>

lemma and_power_nonzero: "(c :: u8) AND 2 ^ n \<noteq> 0 \<longleftrightarrow> bit c n"
  by (simp add: and_exp_eq_0_iff_not_bit)

lemma and_crud:
  "(c :: u8) AND CRUD_READ \<noteq> 0 \<longleftrightarrow> bit c 0" "(c :: u8) AND CRUD_CREATE \<noteq> 0 \<longleftrightarrow> bit c 1"
  "(c :: u8) AND CRUD_UPDATE \<noteq> 0 \<longleftrightarrow> bit c 2" "(c :: u8) AND CRUD_DELETE \<noteq> 0 \<longleftrightarrow> bit c 3"
  using and_power_nonzero[of c 0] and_power_nonzero[of c 1] and_power_nonzero[of c 2]
    and_power_nonzero[of c 3]
  by (simp_all add: crud_masks)

lemma low_bits:
  "(c :: u8) AND 0x0F =
     of_bool (bit c 0) OR (if bit c 1 then 2 else 0) OR (if bit c 2 then 4 else 0) OR
     (if bit c 3 then 8 else 0)"
proof -
  have "c AND 0x0F = take_bit 4 c" by (simp add: take_bit_eq_mask mask_eq_exp_minus_1)
  also have "\<dots> = (\<Sum>k = 0..<4. push_bit k (of_bool (bit c k)))" by (rule take_bit_sum)
  finally show ?thesis by (simp add: eval_nat_numeral)
qed

text \<open>
  printing a permission mask and parsing it back yields its four permission bits, and every
  string that parses is the printed form of the mask it parses to; everything else is refused with
  \<open>std::invalid_argument\<close>.
\<close>

theorem crud_roundtrip:
  "parse_crud (crud_to_string c) = Inr (c AND 0x0F) \<and>
   (\<forall>s. (\<exists>d. parse_crud s = Inr d \<and> crud_to_string d = s) \<or> parse_crud s = Inl Ex_invalid_argument)"
proof (intro conjI allI)
  show "parse_crud (crud_to_string c) = Inr (c AND 0x0F)"
    unfolding low_bits crud_to_string_def parse_crud_def
    by (cases "bit c 0"; cases "bit c 1"; cases "bit c 2"; cases "bit c 3")
      (simp_all add: and_crud crud_bit_def, simp_all add: crud_masks)
  fix s
  show "(\<exists>d. parse_crud s = Inr d \<and> crud_to_string d = s) \<or> parse_crud s = Inl Ex_invalid_argument"
  proof (cases "length s = 4")
    case True
    then obtain a b e f where "s = [a, b, e, f]" by (auto simp: length_Suc_conv eval_nat_numeral)
    then show ?thesis
      unfolding parse_crud_def by (auto simp: crud_bit_def crud_to_string_def crud_masks)
  next
    case False
    then show ?thesis by (simp add: parse_crud_def)
  qed
qed

end
