(* ===== verification/Nplex_Access.thy ===== *)
theory Nplex_Access
  imports Nplex_Glob Nplex_Keys
begin

unbundle bit_operations_syntax

text \<open>
  Users and their permissions, \<open>src/user.hpp\<close> and \<open>src/user.cpp\<close>: an ordered list of access rules,
  of which the first whose pattern matches the key decides.
\<close>

section \<open>Users\<close>

record acl =
  acl_mode :: u8
  acl_pattern :: string

record user =
  user_name :: string
  user_password :: string
  permissions :: "acl list"
  can_force :: bool
  can_monitor :: bool

text \<open>The \<open>for\<close> loop of \<open>is_authorized\<close>, with its \<open>continue\<close> and \<open>break\<close>.\<close>

fun acl_scan :: "u8 \<Rightarrow> string \<Rightarrow> acl list \<Rightarrow> bool" where
  "acl_scan m key [] = False"
| "acl_scan m key (r # rs) =
     (if \<not> glob_match key (acl_pattern r) then acl_scan m key rs
      else m AND acl_mode r = m)"

definition is_authorized :: "user \<Rightarrow> u8 \<Rightarrow> string option \<Rightarrow> bool" where
  "is_authorized u m key =
     (case key of
        None \<Rightarrow> False
      | Some k \<Rightarrow>
          if m = 0 then False
          else if permissions u = [] then False
          else acl_scan m k (permissions u))"

section \<open>The first matching rule decides\<close>

definition deciding_rule :: "user \<Rightarrow> string \<Rightarrow> acl option" where
  "deciding_rule u key = find (\<lambda>r. glob_match key (acl_pattern r)) (permissions u)"

lemma acl_scan_find:
  "acl_scan m key rs =
     (case find (\<lambda>r. glob_match key (acl_pattern r)) rs of
        None \<Rightarrow> False | Some r \<Rightarrow> m AND acl_mode r = m)"
  by (induction rs) auto

lemma is_authorized_rule:
  "is_authorized u m (Some key) \<longleftrightarrow>
     m \<noteq> 0 \<and> (\<exists>r. deciding_rule u key = Some r \<and> m AND acl_mode r = m)"
  by (auto simp: is_authorized_def deciding_rule_def acl_scan_find split: option.splits)

lemma mask_or_subset:
  "(m OR n) AND a = m OR n \<longleftrightarrow> m AND a = m \<and> n AND a = (n :: u8)"
proof
  assume *: "(m OR n) AND a = m OR n"
  show "m AND a = m \<and> n AND a = n"
  proof (intro conjI bit_eqI)
    fix k
    show "bit (m AND a) k = bit m k" "bit (n AND a) k = bit n k"
      using arg_cong[OF *, of "\<lambda>w. bit w k"] by (auto simp: bit_simps)
  qed
next
  assume "m AND a = m \<and> n AND a = n"
  then show "(m OR n) AND a = m OR n" by (simp add: bit.conj_disj_distrib2)
qed

section \<open>Properties\<close>

text \<open>
  C17: a set of operations on a key is authorized exactly when the first access rule whose pattern
  matches the key grants every one of them (later rules and rules that do not match have no say),
  and asking for two sets at once is asking for both.
\<close>

theorem authorization_first_match:
  "(is_authorized u m (Some key) \<longleftrightarrow>
      m \<noteq> 0 \<and>
      (\<exists>i r. i < length (permissions u) \<and> permissions u ! i = r \<and>
         glob_match key (acl_pattern r) \<and> m AND acl_mode r = m \<and>
         (\<forall>j<i. \<not> glob_match key (acl_pattern (permissions u ! j))))) \<and>
   (m \<noteq> 0 \<longrightarrow> n \<noteq> 0 \<longrightarrow>
      (is_authorized u (m OR n) (Some key) \<longleftrightarrow>
         is_authorized u m (Some key) \<and> is_authorized u n (Some key)))"
proof (intro conjI impI)
  show "is_authorized u m (Some key) \<longleftrightarrow>
      m \<noteq> 0 \<and>
      (\<exists>i r. i < length (permissions u) \<and> permissions u ! i = r \<and>
         glob_match key (acl_pattern r) \<and> m AND acl_mode r = m \<and>
         (\<forall>j<i. \<not> glob_match key (acl_pattern (permissions u ! j))))"
    unfolding is_authorized_rule deciding_rule_def find_Some_iff by blast
  assume "m \<noteq> 0" "n \<noteq> 0"
  then show "is_authorized u (m OR n) (Some key) \<longleftrightarrow>
      is_authorized u m (Some key) \<and> is_authorized u n (Some key)"
    unfolding is_authorized_rule by (auto simp: mask_or_subset or_eq_0_iff)
qed

theorem authorization_first_match_witness:
  "let u = \<lparr>user_name = ''ann'', user_password = '''',
            permissions = [\<lparr>acl_mode = 1, acl_pattern = ''a/*''\<rparr>, \<lparr>acl_mode = 15, acl_pattern = ''**''\<rparr>],
            can_force = False, can_monitor = False\<rparr>
   in is_authorized u 12 (Some ''b'') \<and> \<not> is_authorized u 5 (Some ''a/x'')"
proof -
  define u where "u = \<lparr>user_name = ''ann'', user_password = '''',
            permissions = [\<lparr>acl_mode = 1, acl_pattern = ''a/*''\<rparr>, \<lparr>acl_mode = 15, acl_pattern = ''**''\<rparr>],
            can_force = False, can_monitor = False\<rparr>"
  have m: "\<not> glob_match ''b'' ''a/*''" "glob_match ''b'' ''**''" "glob_match ''a/x'' ''a/*''"
    by code_simp+
  have "is_authorized u 4 (Some ''b'')" "is_authorized u 8 (Some ''b'')"
      "\<not> is_authorized u 4 (Some ''a/x'')"
    using m by (simp_all add: is_authorized_def u_def)
  then show ?thesis
    using conjunct2[OF authorization_first_match[of u 4 "''b''" 8]]
      conjunct2[OF authorization_first_match[of u 4 "''a/x''" 1]]
    by (simp add: u_def Let_def)
qed

end
