(* ===== verification/Nplex_Schema.thy ===== *)
theory Nplex_Schema
  imports Nplex_Base
begin

text \<open>
  The messages of the client-server protocol, \<open>src/schema.hpp\<close>: one record per table, its fields in
  the order of the table, a field that is a pointer in the accessors (\<open>GetPointer\<close>) an option that
  is \<^term>\<open>None\<close> when the offset is absent.  The elements of a vector of tables or strings are
  options too, because the code tests them.  \<open>verify_\<close> functions are the \<open>Verify\<close> methods: what of
  them concerns presence of required fields; the bounds checks of offsets inside the buffer belong
  to the FlatBuffers library and are not modelled.
\<close>

section \<open>Enumerations\<close>

text \<open>A scoped \<open>enum : int8_t\<close> holds any byte; the last constructor is a value without a name.\<close>

datatype exit_code =
    EC_CONNECTED | EC_CLOSED_BY_SERVER | EC_CLOSED_BY_USER | EC_COMM_ERROR | EC_CON_LOST
  | EC_EXCD_LIMITS | EC_unnamed u8

datatype login_code =
    LC_AUTHORIZED | LC_INVALID_CREDENTIALS | LC_TOO_MANY_CONNECTIONS | LC_UNSUPPORTED_SCHEMA
  | LC_unnamed u8

datatype submit_code =
    SC_ACCEPTED | SC_TRY_LATER | SC_NO_MODIFICATIONS | SC_REJECTED_PERMISSION
  | SC_REJECTED_OLD_REVISION | SC_REJECTED_INTEGRITY | SC_REJECTED_ENSURE
  | SC_ERROR_INVALID_REVISION | SC_ERROR_DUPLICATE_KEY | SC_ERROR_INVALID_KEY
  | SC_INVALID_MESSAGE | SC_unnamed u8

section \<open>Database content\<close>

record key_value =
  kv_key :: "string option"
  kv_value :: "string option"

record update_msg =
  upd_rev :: "64 word"
  upd_user :: "string option"
  upd_timestamp :: "64 word"
  upd_tx_type :: u32
  upd_upserts :: "key_value option list option"
  upd_deletes :: "string option list option"

record snapshot_msg =
  snp_rev :: "64 word"
  snp_updates :: "update_msg option list option"

record acl_msg =
  aclm_pattern :: "string option"
  aclm_mode :: u8

record session_msg =
  ses_user :: "string option"
  ses_address :: "string option"
  ses_code :: exit_code
  ses_since :: "64 word"
  ses_until :: "64 word"

section \<open>Requests, responses and pushes\<close>

record login_request =
  lreq_cid :: "64 word"
  lreq_schema :: u32
  lreq_user :: "string option"
  lreq_password :: "string option"

record login_response =
  lres_cid :: "64 word"
  lres_code :: login_code
  lres_rev0 :: "64 word"
  lres_crev :: "64 word"
  lres_can_force :: bool
  lres_can_monitor :: bool
  lres_keepalive :: u32
  lres_permissions :: "acl_msg option list option"

record ping_request =
  preq_cid :: "64 word"
  preq_payload :: "string option"

record ping_response =
  pres_cid :: "64 word"
  pres_crev :: "64 word"
  pres_payload :: "string option"

record snapshot_request =
  sreq_cid :: "64 word"
  sreq_rev :: "64 word"

record snapshot_response =
  sres_cid :: "64 word"
  sres_crev :: "64 word"
  sres_rev0 :: "64 word"
  sres_accepted :: bool
  sres_snapshot :: "snapshot_msg option"

record updates_request =
  ureq_cid :: "64 word"
  ureq_rev :: "64 word"

record updates_response =
  ures_cid :: "64 word"
  ures_crev :: "64 word"
  ures_rev0 :: "64 word"
  ures_accepted :: bool

record updates_push =
  upush_cid :: "64 word"
  upush_crev :: "64 word"
  upush_updates :: "update_msg option list option"

record submit_request =
  sbreq_cid :: "64 word"
  sbreq_crev :: "64 word"
  sbreq_tx_type :: u32
  sbreq_upserts :: "key_value option list option"
  sbreq_deletes :: "string option list option"
  sbreq_ensures :: "string option list option"
  sbreq_force :: bool

record submit_response =
  sbres_cid :: "64 word"
  sbres_crev :: "64 word"
  sbres_code :: submit_code
  sbres_erev :: "64 word"

record sessions_request =
  ssreq_cid :: "64 word"
  ssreq_stream :: bool

record sessions_response =
  ssres_cid :: "64 word"
  ssres_crev :: "64 word"
  ssres_sessions :: "session_msg option list option"

record sessions_push =
  spush_cid :: "64 word"
  spush_crev :: "64 word"
  spush_session :: "session_msg option"

record keepalive_push =
  kpush_crev :: "64 word"

text \<open>
  \<open>Message\<close>: the union \<open>MsgContent\<close> with its table, \<open>NONE\<close> or a type byte the schema does not name
  included.
\<close>

datatype msg_content =
    MC_NONE
  | PING_REQUEST ping_request
  | PING_RESPONSE ping_response
  | LOGIN_REQUEST login_request
  | LOGIN_RESPONSE login_response
  | SNAPSHOT_REQUEST snapshot_request
  | SNAPSHOT_RESPONSE snapshot_response
  | SUBMIT_REQUEST submit_request
  | SUBMIT_RESPONSE submit_response
  | UPDATES_REQUEST updates_request
  | UPDATES_RESPONSE updates_response
  | UPDATES_PUSH updates_push
  | SESSIONS_REQUEST sessions_request
  | SESSIONS_RESPONSE sessions_response
  | SESSIONS_PUSH sessions_push
  | KEEPALIVE_PUSH keepalive_push
  | MC_unnamed u8

record message =
  msg_content :: "msg_content option"

section \<open>Verification of required fields\<close>

definition all_present :: "('a \<Rightarrow> bool) \<Rightarrow> 'a option list option \<Rightarrow> bool" where
  "all_present P v =
     (case v of None \<Rightarrow> True
      | Some xs \<Rightarrow> list_all (\<lambda>x. case x of None \<Rightarrow> False | Some y \<Rightarrow> P y) xs)"

definition verify_key_value :: "key_value \<Rightarrow> bool" where
  "verify_key_value m \<longleftrightarrow> kv_key m \<noteq> None \<and> kv_value m \<noteq> None"

definition verify_update :: "update_msg \<Rightarrow> bool" where
  "verify_update m \<longleftrightarrow>
     upd_user m \<noteq> None \<and> all_present verify_key_value (upd_upserts m) \<and>
     all_present (\<lambda>_. True) (upd_deletes m)"

definition verify_snapshot :: "snapshot_msg \<Rightarrow> bool" where
  "verify_snapshot m \<longleftrightarrow> all_present verify_update (snp_updates m)"

definition verify_acl :: "acl_msg \<Rightarrow> bool" where
  "verify_acl m \<longleftrightarrow> aclm_pattern m \<noteq> None"

definition verify_session :: "session_msg \<Rightarrow> bool" where
  "verify_session m \<longleftrightarrow> ses_user m \<noteq> None \<and> ses_address m \<noteq> None"

definition verify_login_request :: "login_request \<Rightarrow> bool" where
  "verify_login_request m \<longleftrightarrow> lreq_user m \<noteq> None \<and> lreq_password m \<noteq> None"

definition verify_login_response :: "login_response \<Rightarrow> bool" where
  "verify_login_response m \<longleftrightarrow> all_present verify_acl (lres_permissions m)"

definition verify_snapshot_response :: "snapshot_response \<Rightarrow> bool" where
  "verify_snapshot_response m \<longleftrightarrow>
     (case sres_snapshot m of None \<Rightarrow> True | Some s \<Rightarrow> verify_snapshot s)"

definition verify_updates_push :: "updates_push \<Rightarrow> bool" where
  "verify_updates_push m \<longleftrightarrow> all_present verify_update (upush_updates m)"

definition verify_submit_request :: "submit_request \<Rightarrow> bool" where
  "verify_submit_request m \<longleftrightarrow>
     all_present verify_key_value (sbreq_upserts m) \<and> all_present (\<lambda>_. True) (sbreq_deletes m) \<and>
     all_present (\<lambda>_. True) (sbreq_ensures m)"

definition verify_sessions_response :: "sessions_response \<Rightarrow> bool" where
  "verify_sessions_response m \<longleftrightarrow> all_present verify_session (ssres_sessions m)"

definition verify_sessions_push :: "sessions_push \<Rightarrow> bool" where
  "verify_sessions_push m \<longleftrightarrow>
     (case spush_session m of None \<Rightarrow> False | Some s \<Rightarrow> verify_session s)"

text \<open>\<open>VerifyMsgContent\<close> dispatches on the union type and accepts the types it does not know.\<close>

definition verify_msg_content :: "msg_content \<Rightarrow> bool" where
  "verify_msg_content c =
     (case c of
        LOGIN_REQUEST m \<Rightarrow> verify_login_request m
      | LOGIN_RESPONSE m \<Rightarrow> verify_login_response m
      | SNAPSHOT_RESPONSE m \<Rightarrow> verify_snapshot_response m
      | SUBMIT_REQUEST m \<Rightarrow> verify_submit_request m
      | UPDATES_PUSH m \<Rightarrow> verify_updates_push m
      | SESSIONS_RESPONSE m \<Rightarrow> verify_sessions_response m
      | SESSIONS_PUSH m \<Rightarrow> verify_sessions_push m
      | _ \<Rightarrow> True)"

definition verify_message :: "message \<Rightarrow> bool" where
  "verify_message m =
     (case msg_content m of None \<Rightarrow> True | Some c \<Rightarrow> verify_msg_content c)"

lemmas verify_defs =
  verify_key_value_def verify_update_def verify_snapshot_def verify_acl_def verify_session_def
  verify_login_request_def verify_login_response_def verify_snapshot_response_def
  verify_updates_push_def verify_submit_request_def verify_sessions_response_def
  verify_sessions_push_def verify_msg_content_def verify_message_def

lemma all_present_None [simp]: "all_present P None"
  by (simp add: all_present_def)

lemma all_present_Some:
  "all_present P (Some xs) \<longleftrightarrow> (\<forall>x \<in> set xs. \<exists>y. x = Some y \<and> P y)"
  by (auto simp: all_present_def list_all_iff split: option.splits)

end
