(* ===== verification/Nplex_Store.thy ===== *)
theory Nplex_Store
  imports Nplex_Ordmap Nplex_Keys Nplex_Schema
begin

text \<open>
  The in-memory database, \<open>src/store.cpp\<close> and \<open>src/store.hpp\<close>, with the values and changes of
  \<open>include/nplex-cpp/types.hpp\<close>.  A \<open>meta_ptr\<close> is an address into a heap of metadata, because
  \<open>store_t\<close> counts its references in place while values held elsewhere share it.  The mutexes are
  not modelled: the code holds \<open>m_mutex\<close> over each operation, so operations do not interleave.
\<close>

section \<open>Values, metadata and changes\<close>

type_synonym addr = nat

record meta =
  meta_rev :: rev_t
  meta_user :: string
  meta_timestamp :: millis_t
  meta_tx_type :: u32
  meta_nrefs :: u32

text \<open>\<open>value_t\<close>: the data and the metadata pointer, null until the value is committed.\<close>

record val =
  v_data :: string
  v_meta :: "addr option"

datatype change_action = CREATE | UPDATE | DELETE

record change =
  ch_action :: change_action
  ch_key :: string
  ch_new :: "val option"
  ch_old :: "val option"

text \<open>The accessors of \<open>value_t\<close>, over the heap that holds its metadata.\<close>

definition value_rev :: "meta list \<Rightarrow> val \<Rightarrow> rev_t" where
  "value_rev h v = (case v_meta v of None \<Rightarrow> 0 | Some a \<Rightarrow> meta_rev (h ! a))"

definition value_user :: "meta list \<Rightarrow> val \<Rightarrow> string" where
  "value_user h v = (case v_meta v of None \<Rightarrow> '''' | Some a \<Rightarrow> meta_user (h ! a))"

definition value_timestamp :: "meta list \<Rightarrow> val \<Rightarrow> millis_t" where
  "value_timestamp h v = (case v_meta v of None \<Rightarrow> 0 | Some a \<Rightarrow> meta_timestamp (h ! a))"

definition value_tx_type :: "meta list \<Rightarrow> val \<Rightarrow> u32" where
  "value_tx_type h v = (case v_meta v of None \<Rightarrow> 0 | Some a \<Rightarrow> meta_tx_type (h ! a))"

definition as_bool :: "val \<Rightarrow> bool" where
  "as_bool v \<longleftrightarrow> v_data v = ''true'' \<or> v_data v = ''1''"

section \<open>The store\<close>

record store =
  m_rev :: rev_t
  m_data :: "(string, val) omap"
  m_metas :: "(rev_t, addr) omap"
  m_users :: "(string, u32) omap"
  heap :: "meta list"

definition empty_store :: store where
  "empty_store = \<lparr>m_rev = 0, m_data = [], m_metas = [], m_users = [], heap = []\<rparr>"

definition set_nrefs :: "addr \<Rightarrow> u32 \<Rightarrow> store \<Rightarrow> store" where
  "set_nrefs a n s = s\<lparr>heap := (heap s)[a := (heap s ! a)\<lparr>meta_nrefs := n\<rparr>]\<rparr>"

abbreviation nrefs :: "store \<Rightarrow> addr \<Rightarrow> u32" where
  "nrefs s a \<equiv> meta_nrefs (heap s ! a)"

text \<open>
  \<open>create_meta\<close>.  \<open>updmsg->user()\<close> is dereferenced without a test: a null one, which
  \<^const>\<open>verify_update\<close> excludes, has no value in the model.
\<close>

definition create_meta :: "update_msg \<Rightarrow> store \<Rightarrow> addr \<times> store" where
  "create_meta upd s =
     (let name = c_str (the (upd_user upd));
          users = (case map_of (m_users s) name of
                     None \<Rightarrow> om_emplace name 1 (m_users s)
                   | Some n \<Rightarrow> om_put name (n + 1) (m_users s));
          meta = \<lparr>meta_rev = upd_rev upd, meta_user = name, meta_timestamp = upd_timestamp upd,
                  meta_tx_type = upd_tx_type upd, meta_nrefs = 0\<rparr>
      in (length (heap s), s\<lparr>m_users := users, heap := heap s @ [meta]\<rparr>))"

definition release_user :: "string \<Rightarrow> (string, u32) omap \<Rightarrow> (string, u32) omap" where
  "release_user name users =
     (case map_of users name of
        None \<Rightarrow> users
      | Some n \<Rightarrow> if n > 1 then om_put name (n - 1) users else om_erase name users)"

definition release_meta :: "addr \<Rightarrow> store \<Rightarrow> store" where
  "release_meta a s =
     (let s1 = (if nrefs s a > 0 then set_nrefs a (nrefs s a - 1) s else s)
      in if nrefs s1 a = 0 then
           s1\<lparr>m_users := release_user (meta_user (heap s1 ! a)) (m_users s1),
              m_metas := om_erase (meta_rev (heap s1 ! a)) (m_metas s1)\<rparr>
         else s1)"

definition upsert_entry :: "string \<Rightarrow> val \<Rightarrow> (store, change) op" where
  "upsert_entry key v s =
     (if \<not> is_valid_key_ptr (Some key) then (Inl Ex_invalid_key, s)
      else
        let (c, s1) =
          (case map_of (m_data s) key of
             Some old \<Rightarrow>
               (\<lparr>ch_action = UPDATE, ch_key = key, ch_new = Some v, ch_old = Some old\<rparr>,
                let s' = release_meta (the (v_meta old)) s in s'\<lparr>m_data := om_put key v (m_data s')\<rparr>)
           | None \<Rightarrow>
               (\<lparr>ch_action = CREATE, ch_key = key, ch_new = Some v, ch_old = None\<rparr>,
                s\<lparr>m_data := om_put key v (m_data s)\<rparr>))
        in (Inr c, set_nrefs (the (v_meta v)) (nrefs s1 (the (v_meta v)) + 1) s1))"

definition delete_entry :: "string \<Rightarrow> (store, change) op" where
  "delete_entry key s =
     (if \<not> is_valid_key_ptr (Some key) then (Inl Ex_invalid_key, s)
      else
        case map_of (m_data s) key of
          None \<Rightarrow> (Inr \<lparr>ch_action = DELETE, ch_key = '''', ch_new = None, ch_old = None\<rparr>, s)
        | Some old \<Rightarrow>
            (Inr \<lparr>ch_action = DELETE, ch_key = key, ch_new = None, ch_old = Some old\<rparr>,
             let s' = release_meta (the (v_meta old)) s in s'\<lparr>m_data := om_erase key (m_data s')\<rparr>))"

text \<open>The bodies of the two loops of \<open>update_internal\<close>.\<close>

definition upsert_step :: "addr \<Rightarrow> key_value option \<Rightarrow> (store, change) op" where
  "upsert_step a kv =
     (case kv of
        None \<Rightarrow> raise_op Ex_malformed_update
      | Some m \<Rightarrow>
          (case kv_key m of
             None \<Rightarrow> raise_op Ex_malformed_update
           | Some k \<Rightarrow>
               (case kv_value m of
                  None \<Rightarrow> raise_op Ex_malformed_update
                | Some d \<Rightarrow> upsert_entry (c_str k) \<lparr>v_data = d, v_meta = Some a\<rparr>)))"

definition delete_step :: "string option \<Rightarrow> (store, change) op" where
  "delete_step key =
     (case key of
        None \<Rightarrow> raise_op Ex_malformed_update
      | Some k \<Rightarrow> delete_entry (c_str k))"

definition vector :: "'a list option \<Rightarrow> 'a list" where
  "vector v = (case v of None \<Rightarrow> [] | Some xs \<Rightarrow> xs)"

text \<open>
  \<open>update_internal\<close>.  The changes whose key is not empty are kept in order; on a throw the state
  keeps what was written before it.
\<close>

definition apply_update :: "addr \<Rightarrow> update_msg \<Rightarrow> (store, change list \<times> addr option) op" where
  "apply_update a upd =
     bind_op (each_op (upsert_step a) (vector (upd_upserts upd))) (\<lambda>cs1.
     bind_op (each_op delete_step (vector (upd_deletes upd))) (\<lambda>cs2 s.
       (Inr (filter (\<lambda>c. ch_key c \<noteq> '''') (cs1 @ cs2), Some a),
        if nrefs s a \<noteq> 0 then s\<lparr>m_metas := om_put (upd_rev upd) a (m_metas s)\<rparr> else s)))"

definition update_internal :: "update_msg option \<Rightarrow> (store, change list \<times> addr option) op" where
  "update_internal updmsg s =
     (case updmsg of
        None \<Rightarrow> (Inr ([], None), s)
      | Some upd \<Rightarrow>
          if upd_rev upd \<le> m_rev s then (Inl Ex_old_update, s)
          else let (a, s1) = create_meta upd s in apply_update a upd (s1\<lparr>m_rev := upd_rev upd\<rparr>))"

definition update :: "update_msg option \<Rightarrow> (store, change list \<times> addr option) op" where
  "update updmsg = update_internal updmsg"

definition load_step :: "rev_t \<Rightarrow> update_msg option \<Rightarrow> (store, change list \<times> addr option) op" where
  "load_step srev updmsg =
     (case updmsg of
        None \<Rightarrow> raise_op Ex_bad_snapshot
      | Some upd \<Rightarrow> if upd_rev upd > srev then raise_op Ex_bad_snapshot else update_internal updmsg)"

definition load :: "snapshot_msg option \<Rightarrow> (store, unit) op" where
  "load snapshot s =
     (let s0 = s\<lparr>m_rev := 0, m_data := [], m_metas := [], m_users := []\<rparr>
      in case snapshot of
           None \<Rightarrow> (Inr (), s0)
         | Some m \<Rightarrow>
             bind_op (each_op (load_step (snp_rev m)) (vector (snp_updates m)))
               (\<lambda>_. modify_op (\<lambda>t. t\<lparr>m_rev := snp_rev m\<rparr>)) s0)"

definition rev_of :: "store \<Rightarrow> rev_t" where
  "rev_of s = m_rev s"

end
