(* ===== verification/Nplex_Store_Spec.thy ===== *)
theory Nplex_Store_Spec
  imports Nplex_Store
begin

text \<open>
  What the store promises: the invariant that ties its three maps and the reference counts
  together, the abstract database each update refines, and the change list that tells the
  transactions exactly what an update did.
\<close>

section \<open>The invariant\<close>

definition refs :: "store \<Rightarrow> addr \<Rightarrow> nat" where
  "refs s a = om_count (\<lambda>v. v_meta v = Some a) (m_data s)"

text \<open>
  \<open>store_inv cur s\<close>: while the update with metadata \<open>cur\<close> is applied.  Counts are exact for every
  metadata some value refers to, and \<open>m_metas\<close> maps the revisions of just those (\<open>cur\<close>, which is
  entered last, apart).
\<close>

definition store_inv :: "addr option \<Rightarrow> store \<Rightarrow> bool" where
  "store_inv cur s \<longleftrightarrow>
     om_wf (m_data s) \<and> om_wf (m_metas s) \<and> om_wf (m_users s) \<and>
     (\<forall>k v. map_of (m_data s) k = Some v \<longrightarrow>
        is_valid_key k \<and> (\<exists>a. v_meta v = Some a \<and> a < length (heap s))) \<and>
     (\<forall>a. cur = Some a \<or> 0 < refs s a \<longrightarrow> unat (nrefs s a) = refs s a) \<and>
     (\<forall>r a. map_of (m_metas s) r = Some a \<longleftrightarrow>
        cur \<noteq> Some a \<and> 0 < refs s a \<and> meta_rev (heap s ! a) = r) \<and>
     (\<forall>a. 0 < refs s a \<and> cur \<noteq> Some a \<longrightarrow>
        meta_rev (heap s ! a) \<le> m_rev s \<and> (cur \<noteq> None \<longrightarrow> meta_rev (heap s ! a) \<noteq> m_rev s)) \<and>
     (\<forall>a. cur = Some a \<longrightarrow> a < length (heap s) \<and> meta_rev (heap s ! a) = m_rev s)"

definition store_wf :: "store \<Rightarrow> bool" where
  "store_wf s \<longleftrightarrow> store_inv None s"

text \<open>What of the metadata a client can see.\<close>

definition public_meta :: "meta \<Rightarrow> meta" where
  "public_meta m = m\<lparr>meta_nrefs := 0\<rparr>"

lemma public_meta_fields [simp]:
  "meta_rev (public_meta m) = meta_rev m" "meta_user (public_meta m) = meta_user m"
  "meta_timestamp (public_meta m) = meta_timestamp m"
  "meta_tx_type (public_meta m) = meta_tx_type m"
  by (simp_all add: public_meta_def)

lemma public_meta_eqD:
  "public_meta m = public_meta n \<Longrightarrow>
     meta_rev m = meta_rev n \<and> meta_user m = meta_user n \<and> meta_timestamp m = meta_timestamp n \<and>
     meta_tx_type m = meta_tx_type n"
  by (metis public_meta_fields)

abbreviation public_heap :: "store \<Rightarrow> meta list" where
  "public_heap s \<equiv> map public_meta (heap s)"

subsection \<open>Field by field\<close>

lemma set_nrefs_fields [simp]:
  "m_rev (set_nrefs a n s) = m_rev s" "m_data (set_nrefs a n s) = m_data s"
  "m_metas (set_nrefs a n s) = m_metas s" "m_users (set_nrefs a n s) = m_users s"
  "length (heap (set_nrefs a n s)) = length (heap s)"
  by (simp_all add: set_nrefs_def)

lemma set_nrefs_heap:
  "a < length (heap s) \<Longrightarrow> nrefs (set_nrefs a n s) b = (if b = a then n else nrefs s b)"
  by (simp add: set_nrefs_def nth_list_update)

lemma set_nrefs_rev [simp]: "meta_rev (heap (set_nrefs a n s) ! b) = meta_rev (heap s ! b)"
  unfolding set_nrefs_def
  by (cases "a < length (heap s)") (simp_all add: nth_list_update list_update_beyond)

lemma set_nrefs_public [simp]: "public_heap (set_nrefs a n s) = public_heap s"
  by (simp add: set_nrefs_def map_update public_meta_def)
    (metis list_update_beyond list_update_id length_map linorder_not_less nth_map public_meta_def)

lemma refs_cong: "m_data s = m_data t \<Longrightarrow> refs s = refs t"
  by (simp add: refs_def fun_eq_iff)

lemma refs_set_nrefs [simp]: "refs (set_nrefs a n s) = refs s"
  by (rule refs_cong) simp

lemma refs_pos: "om_wf (m_data s) \<Longrightarrow>
    0 < refs s a \<longleftrightarrow> (\<exists>k v. map_of (m_data s) k = Some v \<and> v_meta v = Some a)"
  unfolding refs_def om_count_pos by (simp add: map_of_om_mem)

lemma om_wf_release_user: "om_wf us \<Longrightarrow> om_wf (release_user n us)"
  by (auto simp: release_user_def om_wf_put om_wf_erase split: option.splits)

lemma release_meta_fields [simp]:
  "m_rev (release_meta a s) = m_rev s" "m_data (release_meta a s) = m_data s"
  "length (heap (release_meta a s)) = length (heap s)"
  "meta_rev (heap (release_meta a s) ! b) = meta_rev (heap s ! b)"
  "public_heap (release_meta a s) = public_heap s"
  by (simp_all add: release_meta_def Let_def)

lemma refs_release_meta [simp]: "refs (release_meta a s) = refs s"
  by (rule refs_cong) simp

lemma om_wf_release_meta:
  "om_wf (m_metas s) \<Longrightarrow> om_wf (m_metas (release_meta a s))"
  "om_wf (m_users s) \<Longrightarrow> om_wf (m_users (release_meta a s))"
  by (simp_all add: release_meta_def Let_def om_wf_erase om_wf_release_user)

text \<open>On a counted reference \<open>release_meta\<close> gives it back, and drops the revision with the last one.\<close>

lemma release_meta_counted:
  assumes "a < length (heap s)" "unat (nrefs s a) = Suc j"
  shows "nrefs (release_meta a s) b = (if b = a then nrefs s a - 1 else nrefs s b)"
    "unat (nrefs s a - 1) = j"
    "m_metas (release_meta a s) =
       (if j = 0 then om_erase (meta_rev (heap s ! a)) (m_metas s) else m_metas s)"
proof -
  have pos: "nrefs s a > 0" using assms(2) by (metis Zero_neq_Suc unat_0 word_gt_0)
  show dec: "unat (nrefs s a - 1) = j"
    using assms(2) pos by (metis One_nat_def diff_Suc_1 unat_minus_one word_gt_0)
  then have "nrefs s a - 1 = 0 \<longleftrightarrow> j = 0" by (metis unat_eq_zero)
  then show "nrefs (release_meta a s) b = (if b = a then nrefs s a - 1 else nrefs s b)"
    "m_metas (release_meta a s) =
       (if j = 0 then om_erase (meta_rev (heap s ! a)) (m_metas s) else m_metas s)"
    using pos assms(1) by (auto simp: release_meta_def Let_def set_nrefs_heap)
qed

section \<open>Removing and adding one entry\<close>

definition drop_entry :: "string \<Rightarrow> val \<Rightarrow> store \<Rightarrow> store" where
  "drop_entry k old s =
     (let s' = release_meta (the (v_meta old)) s in s'\<lparr>m_data := om_erase k (m_data s')\<rparr>)"

definition add_entry :: "string \<Rightarrow> val \<Rightarrow> addr \<Rightarrow> store \<Rightarrow> store" where
  "add_entry k v a s =
     (let s' = s\<lparr>m_data := om_put k v (m_data s)\<rparr> in set_nrefs a (nrefs s' a + 1) s')"

lemma drop_entry_fields [simp]:
  "m_rev (drop_entry k old s) = m_rev s"
  "m_data (drop_entry k old s) = om_erase k (m_data s)"
  "length (heap (drop_entry k old s)) = length (heap s)"
  "meta_rev (heap (drop_entry k old s) ! b) = meta_rev (heap s ! b)"
  "public_heap (drop_entry k old s) = public_heap s"
  by (simp_all add: drop_entry_def Let_def)

lemma add_entry_fields [simp]:
  "m_rev (add_entry k v a s) = m_rev s"
  "m_data (add_entry k v a s) = om_put k v (m_data s)"
  "m_metas (add_entry k v a s) = m_metas s"
  "m_users (add_entry k v a s) = m_users s"
  "length (heap (add_entry k v a s)) = length (heap s)"
  "meta_rev (heap (add_entry k v a s) ! b) = meta_rev (heap s ! b)"
  "public_heap (add_entry k v a s) = public_heap s"
  by (simp_all add: add_entry_def Let_def)

lemma refs_drop_entry:
  "map_of (m_data s) k = Some old \<Longrightarrow>
     refs (drop_entry k old s) a = refs s a - of_bool (v_meta old = Some a)"
  using om_count_erase[of "m_data s" k old "\<lambda>v. v_meta v = Some a"] by (simp add: refs_def)

lemma refs_add_entry:
  "map_of (m_data s) k = None \<Longrightarrow>
     refs (add_entry k v a s) b = refs s b + of_bool (v_meta v = Some b)"
  by (simp add: refs_def om_count_put_new)

lemma drop_entry_inv:
  assumes inv: "store_inv cur s" and k: "map_of (m_data s) k = Some old"
  shows "store_inv cur (drop_entry k old s)"
proof -
  let ?t = "drop_entry k old s"
  note I = inv[unfolded store_inv_def]
  from I k obtain a where a: "v_meta old = Some a" "a < length (heap s)" by blast
  have "0 < refs s a" using I k a(1) by (auto simp: refs_pos)
  then obtain j where j: "refs s a = Suc j" "unat (nrefs s a) = Suc j"
    using I by (cases "refs s a") auto
  note rel = release_meta_counted[OF a(2) j(2)]
  have refs: "refs ?t b = (if b = a then j else refs s b)" for b
    using refs_drop_entry[OF k, of b] a(1) j(1) by auto
  have nrefs: "unat (nrefs ?t b) = (if b = a then j else unat (nrefs s b))" for b
    using rel(1)[of b] rel(2) a(1) by (simp add: drop_entry_def Let_def)
  have metas: "m_metas ?t =
      (if j = 0 then om_erase (meta_rev (heap s ! a)) (m_metas s) else m_metas s)"
    using rel(3) a(1) by (simp add: drop_entry_def Let_def)
  have look: "map_of (m_metas ?t) r =
      (if j = 0 \<and> r = meta_rev (heap s ! a) then None else map_of (m_metas s) r)" for r
    using I by (simp add: metas map_of_om_erase)
  have other: "meta_rev (heap s ! b) \<noteq> meta_rev (heap s ! a)"
    if "b \<noteq> a" "cur \<noteq> Some b" "0 < refs s b" for b
  proof (cases "cur = Some a")
    case True
    with I that show ?thesis by (metis option.distinct(1))
  next
    case False
    with I that \<open>0 < refs s a\<close> show ?thesis by (metis option.inject)
  qed
  have "map_of (m_metas ?t) r = Some b \<longleftrightarrow>
      cur \<noteq> Some b \<and> 0 < refs ?t b \<and> meta_rev (heap s ! b) = r" for r b
  proof -
    have mem: "map_of (m_metas s) r = Some b \<longleftrightarrow>
        cur \<noteq> Some b \<and> 0 < refs s b \<and> meta_rev (heap s ! b) = r"
      using I by blast
    show ?thesis
      unfolding look using mem other[of b] refs[of b] j(1) by (auto split: if_splits)
  qed
  moreover have "om_wf (m_data ?t)" "om_wf (m_metas ?t)" "om_wf (m_users ?t)"
    using I by (simp_all add: om_wf_erase metas drop_entry_def Let_def om_wf_release_meta)
  moreover have "is_valid_key x \<and> (\<exists>b. v_meta v = Some b \<and> b < length (heap s))"
    if "map_of (m_data ?t) x = Some v" for x v
    using that I by (auto simp: map_of_om_erase split: if_splits)
  ultimately show ?thesis
    using I refs nrefs \<open>0 < refs s a\<close> unfolding store_inv_def by (auto split: if_splits)
qed

lemma add_entry_inv:
  assumes inv: "store_inv (Some c) s" and k: "map_of (m_data s) k = None"
    and v: "v_meta v = Some c" and key: "is_valid_key k" and room: "Suc (refs s c) < 2 ^ 32"
  shows "store_inv (Some c) (add_entry k v c s)"
proof -
  let ?t = "add_entry k v c s"
  note I = inv[unfolded store_inv_def]
  have refs: "refs ?t b = (if b = c then Suc (refs s c) else refs s b)" for b
    using refs_add_entry[OF k, of v c b] v by auto
  have "unat (nrefs s c + 1) = Suc (refs s c)"
    using I room by (simp add: unat_word_ariths)
  then have nrefs: "unat (nrefs ?t b) = (if b = c then Suc (refs s c) else unat (nrefs s b))" for b
    using I by (simp add: add_entry_def Let_def set_nrefs_heap)
  have "is_valid_key x \<and> (\<exists>b. v_meta w = Some b \<and> b < length (heap s))"
    if "map_of (m_data ?t) x = Some w" for x w
    using that I v key by (auto simp: map_of_om_put split: if_splits)
  then show ?thesis
    using I refs nrefs unfolding store_inv_def by (auto simp: om_wf_put split: if_splits)
qed

section \<open>The operations, by way of entries\<close>

lemma upsert_entry_eq:
  assumes "store_inv (Some a) s" "is_valid_key_ptr (Some k)" "v_meta v = Some a"
  shows "upsert_entry k v s =
     (case map_of (m_data s) k of
        Some old \<Rightarrow>
          (Inr \<lparr>ch_action = UPDATE, ch_key = k, ch_new = Some v, ch_old = Some old\<rparr>,
           add_entry k v a (drop_entry k old s))
      | None \<Rightarrow>
          (Inr \<lparr>ch_action = CREATE, ch_key = k, ch_new = Some v, ch_old = None\<rparr>,
           add_entry k v a s))"
proof -
  have "om_wf (m_data s)" using assms(1) by (simp add: store_inv_def)
  then show ?thesis
    using assms by (auto simp: upsert_entry_def add_entry_def drop_entry_def Let_def
        om_put_after_erase split: option.splits)
qed

lemma delete_entry_eq:
  assumes "is_valid_key_ptr (Some k)"
  shows "delete_entry k s =
     (case map_of (m_data s) k of
        None \<Rightarrow> (Inr \<lparr>ch_action = DELETE, ch_key = '''', ch_new = None, ch_old = None\<rparr>, s)
      | Some old \<Rightarrow>
          (Inr \<lparr>ch_action = DELETE, ch_key = k, ch_new = None, ch_old = Some old\<rparr>,
           drop_entry k old s))"
  using assms by (auto simp: delete_entry_def drop_entry_def Let_def split: option.splits)

text \<open>A change list leads from one content to the next, each change with the value it replaced.\<close>

definition change_fits :: "(string \<rightharpoonup> val) \<Rightarrow> change \<Rightarrow> bool" where
  "change_fits M c \<longleftrightarrow>
     ch_key c \<noteq> '''' \<and> ch_old c = M (ch_key c) \<and>
     (case ch_action c of
        CREATE \<Rightarrow> ch_old c = None \<and> ch_new c \<noteq> None
      | UPDATE \<Rightarrow> ch_old c \<noteq> None \<and> ch_new c \<noteq> None
      | DELETE \<Rightarrow> ch_old c \<noteq> None \<and> ch_new c = None)"

fun change_chain :: "(string \<rightharpoonup> val) \<Rightarrow> change list \<Rightarrow> (string \<rightharpoonup> val) \<Rightarrow> bool" where
  "change_chain M [] N \<longleftrightarrow> M = N"
| "change_chain M (c # cs) N \<longleftrightarrow> change_fits M c \<and> change_chain (M(ch_key c := ch_new c)) cs N"

lemma change_chain_append:
  "change_chain M (cs @ ds) N \<longleftrightarrow> (\<exists>L. change_chain M cs L \<and> change_chain L ds N)"
  by (induction cs arbitrary: M) auto

lemma change_chain_untouched: "change_chain M cs N \<Longrightarrow> k \<notin> ch_key ` set cs \<Longrightarrow> N k = M k"
  by (induction cs arbitrary: M) auto

abbreviation data_of :: "store \<Rightarrow> string \<rightharpoonup> val" where
  "data_of s \<equiv> map_of (m_data s)"

lemma store_inv_wf: "store_inv cur s \<Longrightarrow> om_wf (m_data s)"
  by (simp add: store_inv_def)

lemma upsert_step_run:
  assumes inv: "store_inv (Some a) s" and room: "Suc (refs s a) < 2 ^ 32"
    and kv: "kv = Some m" "kv_key m = Some k" "kv_value m = Some d" "is_valid_key_ptr (Some k)"
  obtains c t where "upsert_step a kv s = (Inr c, t)" "store_inv (Some a) t"
    "refs t a \<le> Suc (refs s a)" "change_fits (data_of s) c" "ch_key c = c_str k"
    "ch_new c = Some \<lparr>v_data = d, v_meta = Some a\<rparr>"
    "data_of t = (data_of s)(c_str k \<mapsto> \<lparr>v_data = d, v_meta = Some a\<rparr>)"
    "public_heap t = public_heap s" "m_rev t = m_rev s"
proof -
  let ?v = "\<lparr>v_data = d, v_meta = Some a\<rparr>" and ?k = "c_str k"
  have c: "c_str ?k = ?k" by (intro c_str_id c_str_no_nul)
  with kv(4) have key: "is_valid_key ?k" "is_valid_key_ptr (Some ?k)"
    by (simp_all add: is_valid_key_ptr_def)
  then have ne: "?k \<noteq> ''''" by (simp add: is_valid_key_def)
  note wf = store_inv_wf[OF inv]
  show thesis
  proof (cases "map_of (m_data s) ?k")
    case None
    let ?t = "add_entry ?k ?v a s"
    have "upsert_step a kv s = (Inr \<lparr>ch_action = CREATE, ch_key = ?k, ch_new = Some ?v, ch_old = None\<rparr>, ?t)"
      using kv None upsert_entry_eq[OF inv key(2), of ?v] by (simp add: upsert_step_def)
    moreover have "store_inv (Some a) ?t" using None key(1) room by (intro add_entry_inv[OF inv]) auto
    ultimately show thesis
      using None ne wf
      by (intro that[where t = ?t]) (auto simp: refs_add_entry change_fits_def map_of_om_put)
  next
    case (Some old)
    let ?s1 = "drop_entry ?k old s" let ?t = "add_entry ?k ?v a ?s1"
    have inv1: "store_inv (Some a) ?s1" using inv Some by (rule drop_entry_inv)
    have none: "map_of (m_data ?s1) ?k = None" using wf by (simp add: map_of_om_erase)
    have le: "refs ?s1 a \<le> refs s a" using Some by (simp add: refs_drop_entry)
    have "upsert_step a kv s =
        (Inr \<lparr>ch_action = UPDATE, ch_key = ?k, ch_new = Some ?v, ch_old = Some old\<rparr>, ?t)"
      using kv Some upsert_entry_eq[OF inv key(2), of ?v] by (simp add: upsert_step_def)
    moreover have "store_inv (Some a) ?t"
      using none key(1) room le by (intro add_entry_inv[OF inv1]) auto
    ultimately show thesis
      using Some ne wf le none
      by (intro that[where t = ?t])
        (auto simp: refs_add_entry change_fits_def map_of_om_put map_of_om_erase om_wf_erase)
  qed
qed

lemma delete_step_run:
  assumes inv: "store_inv (Some a) s" and key: "ko = Some k" "is_valid_key_ptr (Some k)"
  obtains c t where "delete_step ko s = (Inr c, t)" "store_inv (Some a) t" "refs t a \<le> refs s a"
    "ch_key c \<noteq> '''' \<Longrightarrow> change_fits (data_of s) c" "ch_key c = '''' \<Longrightarrow> data_of t = data_of s"
    "ch_key c \<noteq> '''' \<Longrightarrow> ch_key c = c_str k" "ch_new c = None"
    "data_of t = (data_of s)(c_str k := None)"
    "public_heap t = public_heap s" "m_rev t = m_rev s"
proof -
  let ?k = "c_str k"
  have c: "c_str ?k = ?k" by (intro c_str_id c_str_no_nul)
  with key have valid: "is_valid_key ?k" "is_valid_key_ptr (Some ?k)"
    by (simp_all add: is_valid_key_ptr_def)
  then have ne: "?k \<noteq> ''''" by (simp add: is_valid_key_def)
  note wf = store_inv_wf[OF inv]
  show thesis
  proof (cases "map_of (m_data s) ?k")
    case None
    then show thesis
      using inv key(1) delete_entry_eq[OF valid(2), of s]
      by (intro that) (auto simp: delete_step_def)
  next
    case (Some old)
    with inv have "store_inv (Some a) (drop_entry ?k old s)" by (rule drop_entry_inv)
    with Some show thesis
      using key(1) delete_entry_eq[OF valid(2), of s] ne wf
      by (intro that[where t = "drop_entry ?k old s"])
        (auto simp: delete_step_def refs_drop_entry change_fits_def map_of_om_erase)
  qed
qed

section \<open>The abstract database\<close>

type_synonym db = "string \<rightharpoonup> string"

definition contents :: "store \<Rightarrow> db" where
  "contents s = (\<lambda>k. map_option v_data (data_of s k))"

definition good_upsert :: "key_value option \<Rightarrow> bool" where
  "good_upsert kv \<longleftrightarrow>
     (case kv of None \<Rightarrow> False
      | Some m \<Rightarrow> kv_value m \<noteq> None \<and> is_valid_key_ptr (kv_key m))"

definition good_delete :: "string option \<Rightarrow> bool" where
  "good_delete k \<longleftrightarrow> is_valid_key_ptr k"

definition db_put :: "key_value option \<Rightarrow> db \<Rightarrow> db" where
  "db_put kv M = M(c_str (the (kv_key (the kv))) \<mapsto> the (kv_value (the kv)))"

definition db_del :: "string option \<Rightarrow> db \<Rightarrow> db" where
  "db_del k M = M(c_str (the k) := None)"

text \<open>What an update does to the database: all its upserts, then all its deletes.\<close>

definition db_apply :: "update_msg \<Rightarrow> db \<Rightarrow> db" where
  "db_apply upd M =
     fold db_del (vector (upd_deletes upd)) (fold db_put (vector (upd_upserts upd)) M)"

definition admissible :: "rev_t \<Rightarrow> update_msg \<Rightarrow> bool" where
  "admissible r upd \<longleftrightarrow>
     r < upd_rev upd \<and> list_all good_upsert (vector (upd_upserts upd)) \<and>
     list_all good_delete (vector (upd_deletes upd))"

lemma good_upsertE:
  assumes "good_upsert kv"
  obtains m k d where "kv = Some m" "kv_key m = Some k" "kv_value m = Some d"
    "is_valid_key_ptr (Some k)"
  using assms by (auto simp: good_upsert_def is_valid_key_ptr_def split: option.splits)

lemma good_deleteE:
  assumes "good_delete ko"
  obtains k where "ko = Some k" "is_valid_key_ptr (Some k)"
  using assms by (auto simp: good_delete_def is_valid_key_ptr_def split: option.splits)

lemma c_str_idem [simp]: "c_str (c_str s) = c_str s"
  by (intro c_str_id c_str_no_nul)

lemma valid_c_str [simp]: "is_valid_key_ptr (Some (c_str k)) = is_valid_key_ptr (Some k)"
  by (simp add: is_valid_key_ptr_def)

lemma upsert_step_good: "upsert_step a kv s = (Inr c, t) \<Longrightarrow> good_upsert kv"
  by (auto simp: upsert_step_def good_upsert_def upsert_entry_def split: option.splits if_splits)

lemma delete_step_good: "delete_step k s = (Inr c, t) \<Longrightarrow> good_delete k"
  by (auto simp: delete_step_def good_delete_def delete_entry_def split: option.splits if_splits)

lemma each_op_all:
  "each_op f xs s = (Inr as, t) \<Longrightarrow> (\<And>x u a v. f x u = (Inr a, v) \<Longrightarrow> P x) \<Longrightarrow> list_all P xs"
  by (induction xs arbitrary: s as) (auto split: prod.splits sum.splits)

section \<open>The loops of an update\<close>

lemma upserts_run:
  assumes "store_inv (Some a) s" "refs s a + length kvs < 2 ^ 32" "list_all good_upsert kvs"
  obtains cs t where "each_op (upsert_step a) kvs s = (Inr cs, t)" "store_inv (Some a) t"
    "refs t a \<le> refs s a + length kvs" "change_chain (data_of s) cs (data_of t)"
    "\<forall>c \<in> set cs. ch_key c \<noteq> '''' \<and> (\<exists>v. ch_new c = Some v \<and> v_meta v = Some a)"
    "contents t = fold db_put kvs (contents s)"
    "public_heap t = public_heap s" "m_rev t = m_rev s"
proof -
  have "\<exists>cs t. each_op (upsert_step a) kvs s = (Inr cs, t) \<and> store_inv (Some a) t \<and>
    refs t a \<le> refs s a + length kvs \<and> change_chain (data_of s) cs (data_of t) \<and>
    (\<forall>c \<in> set cs. ch_key c \<noteq> '''' \<and> (\<exists>v. ch_new c = Some v \<and> v_meta v = Some a)) \<and>
    contents t = fold db_put kvs (contents s) \<and> public_heap t = public_heap s \<and> m_rev t = m_rev s"
    using assms
  proof (induction kvs arbitrary: s)
    case Nil
    then show ?case by simp
  next
    case (Cons kv kvs)
    from Cons.prems(3) obtain m k d where kv: "kv = Some m" "kv_key m = Some k"
        "kv_value m = Some d" "is_valid_key_ptr (Some k)"
      by (auto elim: good_upsertE)
    have room: "Suc (refs s a) < 2 ^ 32" using Cons.prems(2) by simp
    obtain c u where u: "upsert_step a kv s = (Inr c, u)" "store_inv (Some a) u"
        "refs u a \<le> Suc (refs s a)" "change_fits (data_of s) c" "ch_key c = c_str k"
        "ch_new c = Some \<lparr>v_data = d, v_meta = Some a\<rparr>"
        "data_of u = (data_of s)(c_str k \<mapsto> \<lparr>v_data = d, v_meta = Some a\<rparr>)"
        "public_heap u = public_heap s" "m_rev u = m_rev s"
      by (rule upsert_step_run[OF Cons.prems(1) room kv]) blast
    have "refs u a + length kvs < 2 ^ 32" using u(3) Cons.prems(2) by simp
    then obtain cs t where t: "each_op (upsert_step a) kvs u = (Inr cs, t)" "store_inv (Some a) t"
        "refs t a \<le> refs u a + length kvs" "change_chain (data_of u) cs (data_of t)"
        "\<forall>c \<in> set cs. ch_key c \<noteq> '''' \<and> (\<exists>v. ch_new c = Some v \<and> v_meta v = Some a)"
        "contents t = fold db_put kvs (contents u)" "public_heap t = public_heap u"
        "m_rev t = m_rev u"
      using Cons.IH[OF u(2)] Cons.prems(3) by auto
    have "contents u = db_put kv (contents s)"
      by (auto simp: contents_def u(7) db_put_def kv fun_eq_iff)
    moreover have "change_chain (data_of s) (c # cs) (data_of t)"
      using t(4) u(4-7) by simp
    moreover have "ch_key c \<noteq> ''''" using u(4) by (simp add: change_fits_def)
    ultimately show ?case using t u by (intro exI[of _ "c # cs"] exI[of _ t]) simp
  qed
  with that show thesis by blast
qed

lemma deletes_run:
  assumes "store_inv (Some a) s" "list_all good_delete ks"
  obtains cs t where "each_op delete_step ks s = (Inr cs, t)" "store_inv (Some a) t"
    "change_chain (data_of s) (filter (\<lambda>c. ch_key c \<noteq> '''') cs) (data_of t)"
    "\<forall>c \<in> set cs. ch_new c = None" "contents t = fold db_del ks (contents s)"
    "public_heap t = public_heap s" "m_rev t = m_rev s"
proof -
  have "\<exists>cs t. each_op delete_step ks s = (Inr cs, t) \<and> store_inv (Some a) t \<and>
    change_chain (data_of s) (filter (\<lambda>c. ch_key c \<noteq> '''') cs) (data_of t) \<and>
    (\<forall>c \<in> set cs. ch_new c = None) \<and> contents t = fold db_del ks (contents s) \<and>
    public_heap t = public_heap s \<and> m_rev t = m_rev s"
    using assms
  proof (induction ks arbitrary: s)
    case Nil
    then show ?case by simp
  next
    case (Cons ko ks)
    from Cons.prems(2) obtain k where k: "ko = Some k" "is_valid_key_ptr (Some k)"
      by (auto elim: good_deleteE)
    obtain c u where u: "delete_step ko s = (Inr c, u)" "store_inv (Some a) u"
        "ch_key c \<noteq> '''' \<Longrightarrow> change_fits (data_of s) c"
        "ch_key c = '''' \<Longrightarrow> data_of u = data_of s" "ch_key c \<noteq> '''' \<Longrightarrow> ch_key c = c_str k"
        "ch_new c = None" "data_of u = (data_of s)(c_str k := None)"
        "public_heap u = public_heap s" "m_rev u = m_rev s"
      by (rule delete_step_run[OF Cons.prems(1) k]) blast
    obtain cs t where t: "each_op delete_step ks u = (Inr cs, t)" "store_inv (Some a) t"
        "change_chain (data_of u) (filter (\<lambda>c. ch_key c \<noteq> '''') cs) (data_of t)"
        "\<forall>c \<in> set cs. ch_new c = None" "contents t = fold db_del ks (contents u)"
        "public_heap t = public_heap u" "m_rev t = m_rev u"
      using Cons.IH[OF u(2)] Cons.prems(2) by auto
    have "contents u = db_del ko (contents s)"
      by (auto simp: contents_def u(7) db_del_def k fun_eq_iff)
    moreover have "change_chain (data_of s) (filter (\<lambda>c. ch_key c \<noteq> '''') (c # cs)) (data_of t)"
      using t(3) u(3-7) by (cases "ch_key c = ''''") simp_all
    ultimately show ?case using t u by (intro exI[of _ "c # cs"] exI[of _ t]) simp
  qed
  with that show thesis by blast
qed

section \<open>Beginning and ending an update\<close>

definition fresh_meta :: "update_msg \<Rightarrow> meta" where
  "fresh_meta upd =
     \<lparr>meta_rev = upd_rev upd, meta_user = c_str (the (upd_user upd)),
      meta_timestamp = upd_timestamp upd, meta_tx_type = upd_tx_type upd, meta_nrefs = 0\<rparr>"

lemma public_fresh [simp]: "public_meta (fresh_meta upd) = fresh_meta upd"
  by (simp add: public_meta_def fresh_meta_def)

definition begin_update :: "update_msg \<Rightarrow> store \<Rightarrow> store" where
  "begin_update upd s = (snd (create_meta upd s))\<lparr>m_rev := upd_rev upd\<rparr>"

lemma update_run:
  "m_rev s < upd_rev upd \<Longrightarrow>
     update (Some upd) s = apply_update (length (heap s)) upd (begin_update upd s)"
  by (auto simp: update_def update_internal_def begin_update_def create_meta_def Let_def)

lemma begin_update_fields [simp]:
  "m_rev (begin_update upd s) = upd_rev upd" "m_data (begin_update upd s) = m_data s"
  "m_metas (begin_update upd s) = m_metas s" "heap (begin_update upd s) = heap s @ [fresh_meta upd]"
  by (simp_all add: begin_update_def create_meta_def Let_def fresh_meta_def)

lemma begin_update_inv:
  assumes "store_wf s" "m_rev s < upd_rev upd"
  shows "store_inv (Some (length (heap s))) (begin_update upd s)"
    "refs (begin_update upd s) (length (heap s)) = 0"
proof -
  let ?a = "length (heap s)" let ?t = "begin_update upd s"
  note I = assms(1)[unfolded store_wf_def store_inv_def]
  have refs: "refs ?t = refs s" by (rule refs_cong) simp
  have live: "b < ?a" if "0 < refs s b" for b
    using that I by (metis option.inject refs_pos)
  then show zero: "refs ?t ?a = 0" unfolding refs by blast
  have old: "heap ?t ! b = heap s ! b" if "0 < refs s b" for b
    using live[OF that] by (simp add: nth_append)
  have older: "meta_rev (heap s ! b) < upd_rev upd" if "0 < refs s b" for b
    using I that assms(2) by (metis order.strict_trans1 option.distinct(1))
  have "om_wf (m_users ?t)"
    using I by (simp add: begin_update_def create_meta_def Let_def om_wf_put om_wf_emplace
        split: option.splits)
  moreover have "heap ?t ! ?a = fresh_meta upd" by simp
  moreover have "(map_of (m_metas s) r = Some b) =
      (?a \<noteq> b \<and> 0 < refs s b \<and> meta_rev (heap ?t ! b) = r)" for r b
  proof -
    have "(map_of (m_metas s) r = Some b) = (0 < refs s b \<and> meta_rev (heap s ! b) = r)"
      using I by blast
    then show ?thesis using old[of b] live[of b] by (cases "0 < refs s b") auto
  qed
  moreover have "is_valid_key k \<and> (\<exists>a. v_meta v = Some a \<and> a < Suc (length (heap s)))"
    if "map_of (m_data s) k = Some v" for k v
    using I that by (metis less_SucI)
  moreover have "unat (nrefs ?t b) = refs s b" if "Some ?a = Some b \<or> 0 < refs s b" for b
  proof (cases "b = ?a")
    case True
    with zero refs show ?thesis by (simp add: fresh_meta_def)
  next
    case False
    with that have "0 < refs s b" by simp
    with I old show ?thesis by metis
  qed
  moreover have "meta_rev (heap ?t ! b) \<le> m_rev ?t \<and> meta_rev (heap ?t ! b) \<noteq> m_rev ?t"
    if "0 < refs s b" for b
    using older[OF that] old[OF that] by (simp add: less_imp_neq)
  ultimately show "store_inv (Some ?a) ?t"
    using I unfolding store_inv_def refs by (simp add: fresh_meta_def)
qed

definition end_update :: "rev_t \<Rightarrow> addr \<Rightarrow> store \<Rightarrow> store" where
  "end_update r a s =
     (if nrefs s a \<noteq> 0 then s\<lparr>m_metas := om_put r a (m_metas s)\<rparr> else s)"

lemma end_update_fields [simp]:
  "m_rev (end_update r a s) = m_rev s" "m_data (end_update r a s) = m_data s"
  "heap (end_update r a s) = heap s"
  by (simp_all add: end_update_def)

lemma end_update_wf:
  assumes "store_inv (Some a) s"
  shows "store_wf (end_update (m_rev s) a s)"
proof -
  let ?t = "end_update (m_rev s) a s"
  note I = assms[unfolded store_inv_def]
  have refs: "refs ?t = refs s" by (rule refs_cong) simp
  have counted: "nrefs s a \<noteq> 0 \<longleftrightarrow> 0 < refs s a" using I by (metis gr_zeroI unat_0 unat_eq_zero neq0_conv)
  have look: "map_of (m_metas ?t) r =
      (if 0 < refs s a \<and> r = m_rev s then Some a else map_of (m_metas s) r)" for r
    using I counted by (auto simp: end_update_def map_of_om_put)
  have "(map_of (m_metas ?t) r = Some b) = (0 < refs s b \<and> meta_rev (heap s ! b) = r)" for r b
  proof (cases "b = a")
    case True
    have "map_of (m_metas s) r \<noteq> Some a" using I by blast
    with True look I show ?thesis by auto
  next
    case False
    with look[of r] I show ?thesis by (auto split: if_splits)
  qed
  moreover have "om_wf (m_data ?t)" "om_wf (m_metas ?t)" "om_wf (m_users ?t)"
    using I by (auto simp: end_update_def om_wf_put)
  moreover have "meta_rev (heap s ! b) \<le> m_rev s" if "0 < refs s b" for b
    using I that by (cases "b = a") auto
  ultimately show ?thesis
    using I unfolding store_wf_def store_inv_def refs by auto
qed

text \<open>A whole update on a well-formed store.\<close>

lemma update_admissible:
  assumes wf: "store_wf s" and adm: "admissible (m_rev s) upd"
    and size: "length (vector (upd_upserts upd)) < 2 ^ 32"
  obtains cs t where "update (Some upd) s = (Inr (cs, Some (length (heap s))), t)"
    "store_wf t" "m_rev t = upd_rev upd" "contents t = db_apply upd (contents s)"
    "change_chain (data_of s) cs (data_of t)"
    "\<forall>c \<in> set cs. \<forall>v. ch_new c = Some v \<longrightarrow> v_meta v = Some (length (heap s))"
    "public_heap t = public_heap s @ [fresh_meta upd]"
proof -
  let ?a = "length (heap s)" and ?s0 = "begin_update upd s"
  have newer: "m_rev s < upd_rev upd" and ups: "list_all good_upsert (vector (upd_upserts upd))"
    and dels: "list_all good_delete (vector (upd_deletes upd))"
    using adm by (auto simp: admissible_def)
  note start = begin_update_inv[OF wf newer]
  obtain cs1 s1 where 1: "each_op (upsert_step ?a) (vector (upd_upserts upd)) ?s0 = (Inr cs1, s1)"
      "store_inv (Some ?a) s1" "change_chain (data_of ?s0) cs1 (data_of s1)"
      "\<forall>c \<in> set cs1. ch_key c \<noteq> '''' \<and> (\<exists>v. ch_new c = Some v \<and> v_meta v = Some ?a)"
      "contents s1 = fold db_put (vector (upd_upserts upd)) (contents ?s0)"
      "public_heap s1 = public_heap ?s0" "m_rev s1 = m_rev ?s0"
    using upserts_run[OF start(1) _ ups] start(2) size by (metis add_0)
  obtain cs2 s2 where 2: "each_op delete_step (vector (upd_deletes upd)) s1 = (Inr cs2, s2)"
      "store_inv (Some ?a) s2" "change_chain (data_of s1) (filter (\<lambda>c. ch_key c \<noteq> '''') cs2) (data_of s2)"
      "\<forall>c \<in> set cs2. ch_new c = None"
      "contents s2 = fold db_del (vector (upd_deletes upd)) (contents s1)"
      "public_heap s2 = public_heap s1" "m_rev s2 = m_rev s1"
    by (rule deletes_run[OF 1(2) dels]) blast
  let ?cs = "filter (\<lambda>c. ch_key c \<noteq> '''') (cs1 @ cs2)" and ?t = "end_update (upd_rev upd) ?a s2"
  have all1: "filter (\<lambda>c. ch_key c \<noteq> '''') cs1 = cs1" using 1(4) by (simp add: filter_id_conv)
  have "update (Some upd) s = (Inr (?cs, Some ?a), ?t)"
    unfolding update_run[OF newer] apply_update_def bind_op_Inr[of "each_op _ _", OF 1(1)]
      bind_op_Inr[of "each_op _ _", OF 2(1)] end_update_def ..
  moreover have "store_wf ?t" using end_update_wf[OF 2(2)] 2(7) 1(7) by simp
  moreover have "contents ?t = db_apply upd (contents s)"
    using 1(5) 2(5) by (simp add: contents_def db_apply_def)
  moreover have "change_chain (data_of s) ?cs (data_of ?t)"
    using 1(3) 2(3) all1 by (auto simp: change_chain_append)
  moreover have "\<forall>c \<in> set ?cs. \<forall>v. ch_new c = Some v \<longrightarrow> v_meta v = Some ?a"
    using 1(4) 2(4) by auto
  moreover have "public_heap ?t = public_heap s @ [fresh_meta upd]"
    using 1(6) 2(6) by simp
  moreover have "m_rev ?t = upd_rev upd" using 1(7) 2(7) by simp
  ultimately show thesis using that by blast
qed

lemma update_Inr_admissible:
  assumes "update (Some upd) s = (Inr r, t)"
  shows "admissible (m_rev s) upd"
proof -
  from assms have newer: "m_rev s < upd_rev upd"
    by (auto simp: update_def update_internal_def split: if_splits)
  from assms obtain cs1 s1 cs2 s2 where
      "each_op (upsert_step (length (heap s))) (vector (upd_upserts upd)) (begin_update upd s) = (Inr cs1, s1)"
      "each_op delete_step (vector (upd_deletes upd)) s1 = (Inr cs2, s2)"
    unfolding update_run[OF newer] apply_update_def by (elim bind_op_InrE) blast
  then have "list_all good_upsert (vector (upd_upserts upd))"
    "list_all good_delete (vector (upd_deletes upd))"
    by (blast intro: each_op_all upsert_step_good delete_step_good)+
  with newer show ?thesis by (simp add: admissible_def)
qed

section \<open>Loading a snapshot\<close>

text \<open>A vector of a FlatBuffers table has a 32-bit length.\<close>

definition small_update :: "update_msg \<Rightarrow> bool" where
  "small_update upd \<longleftrightarrow> length (vector (upd_upserts upd)) < 2 ^ 32"

fun snapshot_ok :: "rev_t \<Rightarrow> rev_t \<Rightarrow> update_msg option list \<Rightarrow> bool" where
  "snapshot_ok srev r [] \<longleftrightarrow> True"
| "snapshot_ok srev r (u # us) \<longleftrightarrow>
     (case u of
        None \<Rightarrow> False
      | Some upd \<Rightarrow>
          upd_rev upd \<le> srev \<and> admissible r upd \<and> snapshot_ok srev (upd_rev upd) us)"

definition small_snapshot :: "snapshot_msg \<Rightarrow> bool" where
  "small_snapshot m \<longleftrightarrow>
     list_all (\<lambda>u. case u of None \<Rightarrow> True | Some upd \<Rightarrow> small_update upd) (vector (snp_updates m))"

lemma load_step_run:
  assumes "store_wf s" "small_update upd" "upd_rev upd \<le> srev" "admissible (m_rev s) upd"
  obtains r t where "load_step srev (Some upd) s = (Inr r, t)" "store_wf t"
    "m_rev t = upd_rev upd" "contents t = db_apply upd (contents s)"
proof -
  from assms(2) have size: "length (vector (upd_upserts upd)) < 2 ^ 32"
    by (simp add: small_update_def)
  obtain cs t where "update (Some upd) s = (Inr (cs, Some (length (heap s))), t)" "store_wf t"
      "m_rev t = upd_rev upd" "contents t = db_apply upd (contents s)"
    by (rule update_admissible[OF assms(1,4) size]) blast
  then show thesis using assms(3) by (intro that) (auto simp: load_step_def update_def)
qed

lemma load_step_ok:
  "load_step srev u s = (Inr r, t) \<Longrightarrow>
     \<exists>upd. u = Some upd \<and> upd_rev upd \<le> srev \<and> admissible (m_rev s) upd"
  by (auto simp: load_step_def update_def[symmetric] split: option.splits if_splits
      dest: update_Inr_admissible)

lemma loads_run:
  assumes "store_wf s" "snapshot_ok srev (m_rev s) us"
    "list_all (\<lambda>u. case u of None \<Rightarrow> True | Some upd \<Rightarrow> small_update upd) us" "m_rev s \<le> srev"
  shows "\<exists>rs t. each_op (load_step srev) us s = (Inr rs, t) \<and> store_wf t \<and> m_rev t \<le> srev \<and>
           contents t = fold (\<lambda>u. db_apply (the u)) us (contents s)"
  using assms
proof (induction us arbitrary: s)
  case Nil
  then show ?case by simp
next
  case (Cons u us)
  then obtain upd where u: "u = Some upd" "upd_rev upd \<le> srev" "admissible (m_rev s) upd"
      "snapshot_ok srev (upd_rev upd) us" "small_update upd"
    by (auto split: option.splits)
  obtain r s' where s': "load_step srev (Some upd) s = (Inr r, s')" "store_wf s'"
      "m_rev s' = upd_rev upd" "contents s' = db_apply upd (contents s)"
    by (rule load_step_run[OF Cons.prems(1) u(5,2,3)]) blast
  obtain rs t where "each_op (load_step srev) us s' = (Inr rs, t)" "store_wf t" "m_rev t \<le> srev"
      "contents t = fold (\<lambda>u. db_apply (the u)) us (contents s')"
    using Cons.IH[OF s'(2)] s'(3) u(2,4) Cons.prems(3) by auto
  with s' u(1) show ?case by auto
qed

lemma loads_ok:
  assumes "each_op (load_step srev) us s = (Inr rs, t)" "store_wf s"
    "list_all (\<lambda>u. case u of None \<Rightarrow> True | Some upd \<Rightarrow> small_update upd) us"
  shows "snapshot_ok srev (m_rev s) us"
  using assms
proof (induction us arbitrary: s rs)
  case Nil
  then show ?case by simp
next
  case (Cons u us)
  from Cons.prems(1) obtain r s' rs' where step: "load_step srev u s = (Inr r, s')"
      "each_op (load_step srev) us s' = (Inr rs', t)"
    by (auto split: prod.splits sum.splits)
  from load_step_ok[OF step(1)] obtain upd where u: "u = Some upd" "upd_rev upd \<le> srev"
      "admissible (m_rev s) upd"
    by blast
  have "small_update upd" using Cons.prems(3) u(1) by simp
  from load_step_run[OF Cons.prems(2) this u(2,3)] step(1) u(1)
  have "store_wf s'" "m_rev s' = upd_rev upd" by auto
  with Cons.IH[OF step(2)] Cons.prems(3) u show ?case by simp
qed

definition cleared :: "store \<Rightarrow> store" where
  "cleared s = s\<lparr>m_rev := 0, m_data := [], m_metas := [], m_users := []\<rparr>"

lemma refs_no_data: "m_data s = [] \<Longrightarrow> refs s a = 0"
  by (simp add: refs_def om_count_def)

lemma cleared_wf: "store_wf (cleared s)"
  using refs_no_data[of "cleared s"] by (simp add: store_wf_def store_inv_def cleared_def)

lemma contents_cleared: "contents (cleared s) = Map.empty"
  by (simp add: contents_def cleared_def fun_eq_iff)

lemma store_wf_later:
  assumes "store_wf s" "m_rev s \<le> r"
  shows "store_wf (s\<lparr>m_rev := r\<rparr>)"
proof -
  have "refs (s\<lparr>m_rev := r\<rparr>) = refs s" by (rule refs_cong) simp
  moreover have "meta_rev (heap s ! a) \<le> r" if "0 < refs s a" for a
  proof -
    have "meta_rev (heap s ! a) \<le> m_rev s"
      using assms(1) that by (simp add: store_wf_def store_inv_def)
    then show ?thesis using assms(2) by (rule order_trans)
  qed
  ultimately show ?thesis using assms(1) by (simp add: store_wf_def store_inv_def)
qed

section \<open>What never changes\<close>

lemma keeps_release [inv_intros]: "keeps (\<lambda>s. prefix h (public_heap s)) (upsert_step a kv)"
  by (auto simp: keeps_def upsert_step_def upsert_entry_def Let_def split: option.splits)

lemma keeps_delete_step [inv_intros]: "keeps (\<lambda>s. prefix h (public_heap s)) (delete_step k)"
  by (auto simp: keeps_def delete_step_def delete_entry_def Let_def split: option.splits)

lemma keeps_apply_update: "keeps (\<lambda>s. prefix h (public_heap s)) (apply_update a upd)"
  unfolding apply_update_def
  by (intro inv_intros keepsI) (auto split: if_splits)

lemma update_public_heap: "prefix (public_heap s) (public_heap (snd (update u s)))"
proof (cases u)
  case None
  then show ?thesis by (simp add: update_def update_internal_def)
next
  case (Some upd)
  show ?thesis
  proof (cases "m_rev s < upd_rev upd")
    case True
    have "prefix (public_heap s) (public_heap (begin_update upd s))" by simp
    then have "prefix (public_heap s)
        (public_heap (snd (apply_update (length (heap s)) upd (begin_update upd s))))"
      using keeps_apply_update unfolding keeps_def by blast
    with Some True show ?thesis by (simp add: update_run)
  next
    case False
    then have "upd_rev upd \<le> m_rev s" by simp
    with Some show ?thesis by (simp add: update_def update_internal_def)
  qed
qed

lemma public_accessors:
  assumes "prefix (map public_meta h) (map public_meta h')" "a < length h" "v_meta v = Some a"
  shows "value_rev h' v = value_rev h v \<and> value_user h' v = value_user h v \<and>
         value_timestamp h' v = value_timestamp h v \<and> value_tx_type h' v = value_tx_type h v"
proof -
  from assms(1) obtain us vs where h': "h' = us @ vs" "map public_meta h = map public_meta us"
    by (auto simp: prefix_def map_eq_append_conv)
  then have "length us = length h" by (metis length_map)
  with h' assms(2) have "public_meta (h' ! a) = public_meta (h ! a)"
    by (metis nth_append nth_map)
  from public_meta_eqD[OF this] assms(3) show ?thesis
    by (simp add: value_rev_def value_user_def value_timestamp_def value_tx_type_def)
qed

section \<open>Reachable stores\<close>

inductive store_reach :: "store \<Rightarrow> bool" where
  store_start: "store_reach empty_store"
| store_update:
    "store_reach s \<Longrightarrow> small_update upd \<Longrightarrow> update (Some upd) s = (Inr r, t) \<Longrightarrow> store_reach t"
| store_load:
    "store_reach s \<Longrightarrow> case snap of None \<Rightarrow> True | Some m \<Rightarrow> small_snapshot m \<Longrightarrow>
       load snap s = (Inr (), t) \<Longrightarrow> store_reach t"

lemma empty_store_wf: "store_wf empty_store"
  using cleared_wf[of empty_store] by (simp add: cleared_def empty_store_def)

lemma load_Some:
  "load (Some m) s =
     bind_op (each_op (load_step (snp_rev m)) (vector (snp_updates m)))
       (\<lambda>_. modify_op (\<lambda>t. t\<lparr>m_rev := snp_rev m\<rparr>)) (cleared s)"
  by (simp add: load_def cleared_def Let_def)

lemma load_Some_Inr:
  "(\<exists>t. load (Some m) s = (Inr (), t)) \<longleftrightarrow>
     (\<exists>rs t. each_op (load_step (snp_rev m)) (vector (snp_updates m)) (cleared s) = (Inr rs, t))"
  unfolding load_Some bind_op_def by (auto split: prod.splits sum.splits)

lemma load_run:
  assumes "small_snapshot m" "snapshot_ok (snp_rev m) 0 (vector (snp_updates m))"
  obtains t where "load (Some m) s = (Inr (), t)" "store_wf t" "m_rev t = snp_rev m"
    "contents t = fold (\<lambda>u. db_apply (the u)) (vector (snp_updates m)) Map.empty"
proof -
  have "m_rev (cleared s) = 0" by (simp add: cleared_def)
  with assms loads_run[OF cleared_wf, of "snp_rev m" s "vector (snp_updates m)"]
  obtain rs t where "each_op (load_step (snp_rev m)) (vector (snp_updates m)) (cleared s) = (Inr rs, t)"
      "store_wf t" "m_rev t \<le> snp_rev m"
      "contents t = fold (\<lambda>u. db_apply (the u)) (vector (snp_updates m)) Map.empty"
    by (auto simp: small_snapshot_def contents_cleared)
  then show thesis
    by (intro that[of "t\<lparr>m_rev := snp_rev m\<rparr>"])
      (auto simp: load_Some bind_op_def store_wf_later contents_def)
qed

lemma load_ok:
  assumes "small_snapshot m" "load (Some m) s = (Inr (), t)"
  shows "snapshot_ok (snp_rev m) 0 (vector (snp_updates m))"
proof -
  from assms(2) load_Some_Inr[of m s] obtain rs u where
      "each_op (load_step (snp_rev m)) (vector (snp_updates m)) (cleared s) = (Inr rs, u)"
    by blast
  from loads_ok[OF this cleared_wf] assms(1) show ?thesis
    by (simp add: small_snapshot_def cleared_def)
qed

lemma update_success:
  assumes "store_wf s" "small_update upd" "update (Some upd) s = (Inr (cs, ma), t)"
  shows "store_wf t" "m_rev t = upd_rev upd" "contents t = db_apply upd (contents s)"
    "change_chain (data_of s) cs (data_of t)"
    "\<forall>c \<in> set cs. \<forall>v. ch_new c = Some v \<longrightarrow> v_meta v = Some (length (heap s))"
    "public_heap t = public_heap s @ [fresh_meta upd]" "ma = Some (length (heap s))"
proof -
  note adm = update_Inr_admissible[OF assms(3)]
  have size: "length (vector (upd_upserts upd)) < 2 ^ 32"
    using assms(2) by (simp add: small_update_def)
  obtain cs' t' where "update (Some upd) s = (Inr (cs', Some (length (heap s))), t')"
    "store_wf t'" "m_rev t' = upd_rev upd" "contents t' = db_apply upd (contents s)"
    "change_chain (data_of s) cs' (data_of t')"
    "\<forall>c \<in> set cs'. \<forall>v. ch_new c = Some v \<longrightarrow> v_meta v = Some (length (heap s))"
    "public_heap t' = public_heap s @ [fresh_meta upd]"
    by (rule update_admissible[OF assms(1) adm size]) blast
  with assms(3) show "store_wf t" "m_rev t = upd_rev upd" "contents t = db_apply upd (contents s)"
    "change_chain (data_of s) cs (data_of t)"
    "\<forall>c \<in> set cs. \<forall>v. ch_new c = Some v \<longrightarrow> v_meta v = Some (length (heap s))"
    "public_heap t = public_heap s @ [fresh_meta upd]" "ma = Some (length (heap s))"
    by simp_all
qed

lemma store_reach_wf: "store_reach s \<Longrightarrow> store_wf s"
proof (induction rule: store_reach.induct)
  case store_start
  show ?case by (rule empty_store_wf)
next
  case (store_update s upd r t)
  then show ?case by (cases r) (auto dest: update_success(1))
next
  case (store_load s snap t)
  show ?case
  proof (cases snap)
    case None
    with store_load have "t = cleared s" by (auto simp: load_def cleared_def Let_def)
    then show ?thesis by (simp add: cleared_wf)
  next
    case (Some m)
    with store_load have "snapshot_ok (snp_rev m) 0 (vector (snp_updates m))" "small_snapshot m"
      by (auto intro: load_ok)
    with store_load Some show ?thesis by (auto elim: load_run[of m s])
  qed
qed

lemma refs_card:
  assumes "om_wf (m_data s)"
  shows "refs s a = card {k. \<exists>v. data_of s k = Some v \<and> v_meta v = Some a}"
proof -
  let ?P = "\<lambda>kv. v_meta (snd kv) = Some a"
  have dist: "distinct (map fst (filter ?P (m_data s)))"
    using om_wf_distinct[OF assms] by (rule distinct_map_filter)
  have "set (map fst (filter ?P (m_data s))) = {k. \<exists>v. data_of s k = Some v \<and> v_meta v = Some a}"
    using assms by (force simp: map_of_om_mem)
  then show ?thesis
    using distinct_card[OF dist] by (simp add: refs_def om_count_def)
qed

lemma store_wf_data: "store_wf s \<Longrightarrow> om_wf (m_data s)"
  by (simp add: store_wf_def store_inv_def)

lemma store_wf_values:
  "store_wf s \<Longrightarrow> data_of s k = Some v \<Longrightarrow>
     is_valid_key k \<and> (\<exists>a. v_meta v = Some a \<and> a < length (heap s))"
  by (simp add: store_wf_def store_inv_def)

lemma store_wf_counts: "store_wf s \<Longrightarrow> 0 < refs s a \<Longrightarrow> unat (nrefs s a) = refs s a"
  by (simp add: store_wf_def store_inv_def)

lemma store_wf_metas:
  "store_wf s \<Longrightarrow>
     map_of (m_metas s) r = Some a \<longleftrightarrow> 0 < refs s a \<and> meta_rev (heap s ! a) = r"
  by (simp add: store_wf_def store_inv_def)

lemma store_wf_revs: "store_wf s \<Longrightarrow> 0 < refs s a \<Longrightarrow> meta_rev (heap s ! a) \<le> m_rev s"
  by (simp add: store_wf_def store_inv_def)

section \<open>Properties\<close>

text \<open>An update used by the witnesses below: two upserts by ann at revision 7.\<close>

definition sample_update :: update_msg where
  "sample_update =
     \<lparr>upd_rev = 7, upd_user = Some ''ann'', upd_timestamp = 1000, upd_tx_type = 3,
      upd_upserts = Some [Some \<lparr>kv_key = Some ''a'', kv_value = Some ''1''\<rparr>,
                          Some \<lparr>kv_key = Some ''b'', kv_value = Some ''2''\<rparr>],
      upd_deletes = Some [Some ''a'']\<rparr>"

lemma sample_admissible: "admissible 0 sample_update"
  unfolding sample_update_def admissible_def by code_simp

lemma sample_small: "small_update sample_update"
  by (simp add: small_update_def sample_update_def vector_def)

lemma sample_run:
  obtains cs t where "update (Some sample_update) empty_store = (Inr (cs, Some 0), t)"
    "m_rev t = 7" "contents t ''b'' = Some ''2''" "public_heap t = [fresh_meta sample_update]"
proof -
  have adm: "admissible (m_rev empty_store) sample_update"
    using sample_admissible by (simp add: empty_store_def)
  have size: "length (vector (upd_upserts sample_update)) < 2 ^ 32"
    using sample_small by (simp add: small_update_def)
  show thesis
  proof (rule update_admissible[OF empty_store_wf adm size])
    fix cs t
    assume t: "update (Some sample_update) empty_store = (Inr (cs, Some (length (heap empty_store))), t)"
      "m_rev t = upd_rev sample_update" "contents t = db_apply sample_update (contents empty_store)"
      "public_heap t = public_heap empty_store @ [fresh_meta sample_update]"
    have "contents t ''b'' = Some ''2''"
      by (simp add: t(3) db_apply_def db_put_def db_del_def sample_update_def vector_def c_str_def)
    then show thesis
      using t by (intro that[of cs t]) (simp_all add: empty_store_def sample_update_def)
  qed
qed

text \<open>
  C1: on a well-formed store an update is accepted exactly when it is newer than the store and all
  its keys and values are present and valid; then the store moves to its revision, its content is
  what applying all upserts and then all deletes to the abstract database gives, and it is
  well-formed again.
\<close>

theorem update_refines:
  assumes "store_wf s" "small_update upd"
  shows "((\<exists>r t. update (Some upd) s = (Inr r, t)) \<longleftrightarrow> admissible (m_rev s) upd) \<and>
         (\<forall>r t. update (Some upd) s = (Inr r, t) \<longrightarrow>
            store_wf t \<and> m_rev t = upd_rev upd \<and> contents t = db_apply upd (contents s))"
proof (intro conjI allI impI)
  have size: "length (vector (upd_upserts upd)) < 2 ^ 32"
    using assms(2) by (simp add: small_update_def)
  show "(\<exists>r t. update (Some upd) s = (Inr r, t)) \<longleftrightarrow> admissible (m_rev s) upd"
    using update_admissible[OF assms(1) _ size] by (metis update_Inr_admissible)
  fix r t
  assume "update (Some upd) s = (Inr r, t)"
  then show "store_wf t" "m_rev t = upd_rev upd" "contents t = db_apply upd (contents s)"
    using update_success(1-3)[OF assms, of "fst r" "snd r" t] by simp_all
qed

theorem update_refines_witness:
  "\<exists>r t. update (Some sample_update) empty_store = (Inr r, t) \<and> m_rev t = 7 \<and>
     contents t ''b'' = Some ''2'' \<and> contents t ''a'' = None"
proof -
  note U = update_refines[OF empty_store_wf sample_small]
  have "m_rev empty_store = 0" by (simp add: empty_store_def)
  with U sample_admissible obtain r t where t: "update (Some sample_update) empty_store = (Inr r, t)"
    by auto
  with U have "m_rev t = 7" "contents t = db_apply sample_update (contents empty_store)"
    by (auto simp: sample_update_def)
  with t show ?thesis
    by (auto simp: db_apply_def db_put_def db_del_def sample_update_def vector_def c_str_def)
qed

text \<open>
  C2: the changes an update reports lead from the content before it to the content after it: each
  carries the value its key had just before it and the right action, a key in no change keeps its
  value, and every new value bears the revision, user, timestamp and type of the update.
\<close>

theorem update_changes_exact:
  assumes "store_wf s" "small_update upd" "update (Some upd) s = (Inr (cs, ma), t)"
  shows "change_chain (data_of s) cs (data_of t) \<and>
         (\<forall>k. k \<notin> ch_key ` set cs \<longrightarrow> data_of t k = data_of s k) \<and>
         (\<forall>c v. c \<in> set cs \<and> ch_new c = Some v \<longrightarrow>
            value_rev (heap t) v = upd_rev upd \<and>
            value_user (heap t) v = c_str (the (upd_user upd)) \<and>
            value_timestamp (heap t) v = upd_timestamp upd \<and>
            value_tx_type (heap t) v = upd_tx_type upd)"
proof (intro conjI allI impI)
  note U = update_success[OF assms]
  show "change_chain (data_of s) cs (data_of t)" by (rule U(4))
  show "data_of t k = data_of s k" if "k \<notin> ch_key ` set cs" for k
    using change_chain_untouched[OF U(4) that] .
  let ?a = "length (heap s)"
  have "length (heap t) = Suc ?a" using arg_cong[OF U(6), of length] by simp
  then have "public_meta (heap t ! ?a) = fresh_meta upd"
    using arg_cong[OF U(6), of "\<lambda>xs. xs ! ?a"] by (simp add: nth_append)
  then have "public_meta (heap t ! ?a) = public_meta (fresh_meta upd)" by simp
  from public_meta_eqD[OF this] have meta: "meta_rev (heap t ! ?a) = upd_rev upd"
    "meta_user (heap t ! ?a) = c_str (the (upd_user upd))"
    "meta_timestamp (heap t ! ?a) = upd_timestamp upd"
    "meta_tx_type (heap t ! ?a) = upd_tx_type upd"
    by (simp_all add: fresh_meta_def)
  fix c v
  assume "c \<in> set cs \<and> ch_new c = Some v"
  with U(5) have "v_meta v = Some ?a" by blast
  with meta show "value_rev (heap t) v = upd_rev upd"
    "value_user (heap t) v = c_str (the (upd_user upd))"
    "value_timestamp (heap t) v = upd_timestamp upd" "value_tx_type (heap t) v = upd_tx_type upd"
    by (simp_all add: value_rev_def value_user_def value_timestamp_def value_tx_type_def)
qed

theorem update_changes_exact_witness:
  "\<exists>cs ma t. update (Some sample_update) empty_store = (Inr (cs, ma), t) \<and>
     change_chain Map.empty cs (data_of t)"
proof -
  obtain cs ma t where t: "update (Some sample_update) empty_store = (Inr (cs, ma), t)"
    by (rule sample_run) blast
  have "data_of empty_store = Map.empty" by (simp add: empty_store_def)
  with update_changes_exact[OF empty_store_wf sample_small t] t show ?thesis by auto
qed

text \<open>
  C8: in every store reached from the empty one by accepted updates and loads, the reference count
  of a metadata that some value uses is the number of keys whose value uses it, and \<open>m_metas\<close> holds
  under each revision exactly the metadata of that revision that is in use.
\<close>

theorem reference_counts_exact:
  assumes "store_reach s"
  shows "(\<forall>k v. data_of s k = Some v \<longrightarrow>
            (\<exists>a. v_meta v = Some a \<and> a < length (heap s) \<and>
               unat (nrefs s a) = card {k. \<exists>v. data_of s k = Some v \<and> v_meta v = Some a} \<and>
               map_of (m_metas s) (meta_rev (heap s ! a)) = Some a)) \<and>
         (\<forall>r a. map_of (m_metas s) r = Some a \<longrightarrow>
            meta_rev (heap s ! a) = r \<and> r \<le> m_rev s \<and>
            (\<exists>k v. data_of s k = Some v \<and> v_meta v = Some a))"
proof (intro conjI allI impI)
  note wf = store_reach_wf[OF assms]
  fix k v
  assume v: "data_of s k = Some v"
  with store_wf_values[OF wf] obtain a where a: "v_meta v = Some a" "a < length (heap s)" by blast
  with v have live: "0 < refs s a" using refs_pos[OF store_wf_data[OF wf]] by blast
  show "\<exists>a. v_meta v = Some a \<and> a < length (heap s) \<and>
      unat (nrefs s a) = card {k. \<exists>v. data_of s k = Some v \<and> v_meta v = Some a} \<and>
      map_of (m_metas s) (meta_rev (heap s ! a)) = Some a"
    using a store_wf_counts[OF wf live] store_wf_metas[OF wf, of "meta_rev (heap s ! a)" a] live
    by (simp add: refs_card[OF store_wf_data[OF wf]])
next
  note wf = store_reach_wf[OF assms]
  fix r a
  assume "map_of (m_metas s) r = Some a"
  then have r: "0 < refs s a" "meta_rev (heap s ! a) = r" by (simp_all add: store_wf_metas[OF wf])
  then show "\<exists>k v. data_of s k = Some v \<and> v_meta v = Some a"
    by (simp add: refs_pos[OF store_wf_data[OF wf]])
  show "meta_rev (heap s ! a) = r" by (rule r(2))
  show "r \<le> m_rev s" using store_wf_revs[OF wf r(1)] r(2) by simp
qed

theorem reference_counts_exact_witness:
  "\<exists>s a. store_reach s \<and> map_of (m_metas s) 7 = Some a \<and> unat (nrefs s a) =
     card {k. \<exists>v. data_of s k = Some v \<and> v_meta v = Some a}"
proof -
  obtain cs t where t: "update (Some sample_update) empty_store = (Inr (cs, Some 0), t)"
      "contents t ''b'' = Some ''2''" "public_heap t = [fresh_meta sample_update]"
    by (rule sample_run)
  have reach: "store_reach t"
    using store_reach.intros(2)[OF store_start sample_small t(1)] .
  from t(2) obtain v where v: "data_of t ''b'' = Some v" by (auto simp: contents_def)
  with reference_counts_exact[OF reach] obtain a where a: "v_meta v = Some a" "a < length (heap t)"
      "unat (nrefs t a) = card {k. \<exists>v. data_of t k = Some v \<and> v_meta v = Some a}"
      "map_of (m_metas t) (meta_rev (heap t ! a)) = Some a"
    by blast
  have "length (heap t) = 1" using arg_cong[OF t(3), of length] by simp
  with a(2) have "a = 0" by simp
  have "public_meta (heap t ! 0) = public_meta (fresh_meta sample_update)"
    using arg_cong[OF t(3), of "\<lambda>xs. xs ! 0"] \<open>length (heap t) = 1\<close> by simp
  from public_meta_eqD[OF this] have "meta_rev (heap t ! 0) = 7"
    by (simp add: fresh_meta_def sample_update_def)
  with a(3,4) \<open>a = 0\<close> reach show ?thesis
    by (intro exI[of _ t] exI[of _ 0]) simp
qed

text \<open>
  C9: loading a snapshot replaces whatever the store held: it succeeds exactly when the updates of
  the snapshot are present, valid, in strictly increasing order of revision and none newer than the
  snapshot, and then the content is that of the updates applied in order to the empty database, at
  the snapshot's revision, in a well-formed store; without a snapshot the store is emptied.
\<close>

theorem load_refines:
  assumes "small_snapshot m"
  shows "((\<exists>t. load (Some m) s = (Inr (), t)) \<longleftrightarrow> snapshot_ok (snp_rev m) 0 (vector (snp_updates m))) \<and>
         (\<forall>t. load (Some m) s = (Inr (), t) \<longrightarrow>
            store_wf t \<and> m_rev t = snp_rev m \<and>
            contents t = fold (\<lambda>u. db_apply (the u)) (vector (snp_updates m)) Map.empty) \<and>
         (\<exists>t. load None s = (Inr (), t) \<and> store_wf t \<and> m_rev t = 0 \<and> contents t = Map.empty)"
proof (intro conjI allI impI)
  show "(\<exists>t. load (Some m) s = (Inr (), t)) \<longleftrightarrow> snapshot_ok (snp_rev m) 0 (vector (snp_updates m))"
    by (blast intro: load_ok[OF assms] elim: load_run[OF assms, of s])
  show "\<exists>t. load None s = (Inr (), t) \<and> store_wf t \<and> m_rev t = 0 \<and> contents t = Map.empty"
    by (intro exI[of _ "cleared s"])
      (simp add: cleared_wf contents_cleared, simp add: load_def cleared_def Let_def)
  fix t
  assume t: "load (Some m) s = (Inr (), t)"
  obtain t' where "load (Some m) s = (Inr (), t')" "store_wf t'" "m_rev t' = snp_rev m"
    "contents t' = fold (\<lambda>u. db_apply (the u)) (vector (snp_updates m)) Map.empty"
    by (rule load_run[OF assms load_ok[OF assms t], of s])
  with t show "store_wf t" "m_rev t = snp_rev m"
    "contents t = fold (\<lambda>u. db_apply (the u)) (vector (snp_updates m)) Map.empty"
    by simp_all
qed

theorem load_refines_witness:
  "\<exists>t. load (Some \<lparr>snp_rev = 9, snp_updates = Some [Some sample_update]\<rparr>) empty_store = (Inr (), t) \<and>
     m_rev t = 9 \<and> contents t ''b'' = Some ''2''"
proof -
  let ?m = "\<lparr>snp_rev = 9, snp_updates = Some [Some sample_update]\<rparr>"
  have small: "small_snapshot ?m"
    by (simp add: small_snapshot_def vector_def sample_small)
  have "snapshot_ok (snp_rev ?m) 0 (vector (snp_updates ?m))"
    using sample_admissible by (simp add: vector_def) (simp add: sample_update_def)
  with load_refines[OF small, of empty_store] obtain t where
      "load (Some ?m) empty_store = (Inr (), t)" "m_rev t = 9"
      "contents t = db_apply sample_update Map.empty"
    by (auto simp: vector_def)
  then show ?thesis
    by (auto simp: db_apply_def db_put_def db_del_def sample_update_def vector_def c_str_def)
qed

text \<open>
  C32: an update, accepted or refused, never changes what a client sees of a value it already
  holds: revision, user, timestamp and type stay what they were.
\<close>

theorem values_immutable:
  assumes "a < length (heap s)" "v_meta v = Some a"
  shows "value_rev (heap (snd (update u s))) v = value_rev (heap s) v \<and>
         value_user (heap (snd (update u s))) v = value_user (heap s) v \<and>
         value_timestamp (heap (snd (update u s))) v = value_timestamp (heap s) v \<and>
         value_tx_type (heap (snd (update u s))) v = value_tx_type (heap s) v"
  using public_accessors[OF update_public_heap assms] .

theorem values_immutable_witness:
  "let s = begin_update sample_update empty_store; v = \<lparr>v_data = ''x'', v_meta = Some 0\<rparr>
   in value_rev (heap (snd (update (Some (sample_update\<lparr>upd_rev := 8\<rparr>)) s))) v = 7"
  using values_immutable[of 0 "begin_update sample_update empty_store"
      "\<lparr>v_data = ''x'', v_meta = Some 0\<rparr>" "Some (sample_update\<lparr>upd_rev := 8\<rparr>)"]
  by (simp add: Let_def value_rev_def empty_store_def fresh_meta_def sample_update_def)

text \<open>
  \<open>m_users\<close> is meant to count the live metadata of each user, but an accepted update that writes
  nothing still adds one to its user's count while no metadata is entered, so nothing ever takes it
  back: such updates leave the user behind for good.
\<close>

theorem empty_update_leaks_user:
  assumes "upd_upserts upd = None" "upd_deletes upd = None" "m_rev s < upd_rev upd"
    "om_wf (m_users s)" "m_users s = om_put u n us" "om_wf us" "upd_user upd = Some u" "c_str u = u"
  shows "\<exists>t. update (Some upd) s = (Inr ([], Some (length (heap s))), t) \<and>
           m_data t = m_data s \<and> m_metas t = m_metas s \<and> map_of (m_users t) u = Some (n + 1)"
proof -
  have "map_of (m_users s) u = Some n" using assms(5,6) by (simp add: map_of_om_put)
  then have "map_of (m_users (begin_update upd s)) u = Some (n + 1)"
    using assms(4,7,8) by (simp add: begin_update_def create_meta_def Let_def map_of_om_put)
  moreover have "nrefs (begin_update upd s) (length (heap s)) = 0" by (simp add: fresh_meta_def)
  ultimately show ?thesis
    using assms(1,2,3) by (simp add: update_run apply_update_def bind_op_def vector_def)
qed

theorem empty_update_leaks_user_witness:
  "\<exists>t. update (Some \<lparr>upd_rev = 2, upd_user = Some ''ann'', upd_timestamp = 0, upd_tx_type = 0,
                     upd_upserts = None, upd_deletes = None\<rparr>)
         (empty_store\<lparr>m_users := om_put ''ann'' 1 []\<rparr>) = (Inr ([], Some 0), t) \<and>
     m_metas t = [] \<and> map_of (m_users t) ''ann'' = Some 2"
  using empty_update_leaks_user[of "\<lparr>upd_rev = 2, upd_user = Some ''ann'', upd_timestamp = 0,
      upd_tx_type = 0, upd_upserts = None, upd_deletes = None\<rparr>"
      "empty_store\<lparr>m_users := om_put ''ann'' 1 []\<rparr>" "''ann''" 1 "[]"]
  by (auto simp: empty_store_def om_wf_Cons c_str_def)

end
