(* ===== verification/Nplex_Transaction.thy ===== *)
theory Nplex_Transaction
  imports Nplex_Store Nplex_Access
begin

text \<open>
  Transactions, \<open>src/transaction_impl.cpp\<close>, \<open>src/transaction_impl.hpp\<close> and
  \<open>include/nplex-cpp/transaction.hpp\<close>.  A transaction reads the store it was created on, which each
  operation takes as an argument and none changes.  The mutexes are held over whole operations and
  are not modelled, nor are logging and the sequence number used in log lines.  A future is named
  by the index of its promise.
\<close>

section \<open>State\<close>

datatype isolation = READ_COMMITTED | REPEATABLE_READ | SERIALIZABLE

datatype tx_state_e =
    OPEN | SUBMITTED | ACCEPTED | REJECTED | COMMITTED | DISCARDED | ABORTED

datatype submit_e =
    SE_NO_MODIFICATIONS | SE_COMMITTED | SE_TRY_LATER | SE_REJECTED_PERMISSION
  | SE_REJECTED_OLD_REVISION | SE_REJECTED_INTEGRITY | SE_REJECTED_ENSURE | SE_REJECTED_OTHER

datatype item_action = A_READ | A_SNAPSHOT | A_UPSERT | A_DELETE

type_synonym entry = "item_action \<times> val option"

text \<open>\<open>std::promise<submit_e>\<close>: what it holds, and whether its future was taken.\<close>

record promise =
  p_result :: "(exn + submit_e) option"
  p_retrieved :: bool

definition new_promise :: promise where
  "new_promise = \<lparr>p_result = None, p_retrieved = False\<rparr>"

record tx =
  tx_isolation :: isolation
  tx_read_only :: bool
  tx_dirty :: bool
  tx_state :: tx_state_e
  tx_type :: u32
  tx_rev_creation :: rev_t
  tx_items :: "(string, entry) omap"
  tx_ensures :: "(string, unit) omap"
  tx_user :: "user option"
  tx_promise :: promise
  tx_past :: "promise list"   \<comment> \<open>promises replaced after \<open>TRY_LATER\<close>; their futures live on\<close>

section \<open>Creation and state changes\<close>

definition new_tx :: "isolation \<Rightarrow> bool \<Rightarrow> user option \<Rightarrow> store \<Rightarrow> tx" where
  "new_tx level ro u s =
     \<lparr>tx_isolation = level, tx_read_only = ro, tx_dirty = False, tx_state = OPEN, tx_type = 0,
      tx_rev_creation = rev_of s, tx_items = [], tx_ensures = [], tx_user = u,
      tx_promise = new_promise, tx_past = []\<rparr>"

text \<open>The constructor that gets store and user from the client, absent when the client is gone.\<close>

definition new_tx_client ::
    "(store option \<times> user option) option \<Rightarrow> isolation \<Rightarrow> bool \<Rightarrow> exn + tx" where
  "new_tx_client client level ro =
     (case client of
        None \<Rightarrow> Inl Ex_logic_error
      | Some (None, u) \<Rightarrow> Inl Ex_logic_error
      | Some (Some s, None) \<Rightarrow> Inl Ex_logic_error
      | Some (Some s, Some u) \<Rightarrow> Inr (new_tx level ro (Some u) s))"

definition new_tx_store :: "store \<Rightarrow> isolation \<Rightarrow> bool \<Rightarrow> tx" where
  "new_tx_store s level ro = new_tx level ro None s"

definition closed_state :: "tx_state_e \<Rightarrow> bool" where
  "closed_state st \<longleftrightarrow> st = REJECTED \<or> st = COMMITTED \<or> st = DISCARDED \<or> st = ABORTED"

definition set_state :: "tx_state_e \<Rightarrow> tx \<Rightarrow> tx" where
  "set_state st t =
     (if closed_state (tx_state t) \<or> st = tx_state t then t else t\<lparr>tx_state := st\<rparr>)"

definition set_type :: "u32 \<Rightarrow> tx \<Rightarrow> tx" where
  "set_type n t = t\<lparr>tx_type := n\<rparr>"

text \<open>\<open>m_promise.set_value\<close>, \<open>set_exception\<close> and \<open>get_future\<close>.\<close>

definition satisfy :: "exn + submit_e \<Rightarrow> (tx, unit) op" where
  "satisfy r t =
     (case p_result (tx_promise t) of
        Some _ \<Rightarrow> (Inl Ex_promise_satisfied, t)
      | None \<Rightarrow> (Inr (), t\<lparr>tx_promise := (tx_promise t)\<lparr>p_result := Some r\<rparr>\<rparr>))"

definition get_future :: "(tx, nat) op" where
  "get_future t =
     (if p_retrieved (tx_promise t) then (Inl Ex_future_retrieved, t)
      else (Inr (length (tx_past t)), t\<lparr>tx_promise := (tx_promise t)\<lparr>p_retrieved := True\<rparr>\<rparr>))"

text \<open>\<open>discard\<close> catches whatever the promise throws.\<close>

definition discard :: "tx \<Rightarrow> tx" where
  "discard t = snd (satisfy (Inl Ex_discarded) (set_state DISCARDED t))"

definition tx_rev :: "store \<Rightarrow> tx \<Rightarrow> rev_t" where
  "tx_rev s t =
     (case tx_isolation t of
        REPEATABLE_READ \<Rightarrow> rev_of s
      | READ_COMMITTED \<Rightarrow> rev_of s
      | SERIALIZABLE \<Rightarrow> tx_rev_creation t)"

section \<open>Single keys\<close>

definition ensure :: "string option \<Rightarrow> (tx, bool) op" where
  "ensure pattern t =
     (case pattern of
        None \<Rightarrow> (Inr False, t)
      | Some p \<Rightarrow>
          if tx_state t \<noteq> OPEN then (Inl Ex_not_open, t)
          else (Inr True, t\<lparr>tx_ensures := om_emplace (c_str p) () (tx_ensures t)\<rparr>))"

definition put_item :: "string \<Rightarrow> entry \<Rightarrow> tx \<Rightarrow> tx" where
  "put_item k e t = t\<lparr>tx_items := om_put k e (tx_items t)\<rparr>"

definition emplace_item :: "string \<Rightarrow> entry \<Rightarrow> tx \<Rightarrow> tx" where
  "emplace_item k e t = t\<lparr>tx_items := om_emplace k e (tx_items t)\<rparr>"

text \<open>A pinned pre-image is read: it becomes a read item and the transaction is dirty.\<close>

definition read_snapshot :: "string \<Rightarrow> entry \<Rightarrow> tx \<Rightarrow> tx" where
  "read_snapshot k e t =
     (if fst e = A_SNAPSHOT then (put_item k (A_READ, snd e) t)\<lparr>tx_dirty := True\<rparr> else t)"

definition ensure_if :: "bool \<Rightarrow> string \<Rightarrow> tx \<Rightarrow> tx" where
  "ensure_if b k t = (if b then snd (ensure (Some k) t) else t)"

definition read_item :: "string \<Rightarrow> bool \<Rightarrow> entry \<Rightarrow> (tx, val option) op" where
  "read_item k ens e t =
     (if fst e = A_DELETE then (Inr None, t)
      else
        case snd e of
          None \<Rightarrow> (Inr None, t)
        | Some v \<Rightarrow> (Inr (Some v), ensure_if ens k (read_snapshot k e t)))"

definition read_store :: "store \<Rightarrow> string \<Rightarrow> bool \<Rightarrow> (tx, val option) op" where
  "read_store s k ens t =
     (case map_of (m_data s) k of
        None \<Rightarrow>
          (Inr None,
           if tx_isolation t \<noteq> READ_COMMITTED then emplace_item k (A_READ, None) t else t)
      | Some v \<Rightarrow>
          (Inr (Some v),
           ensure_if ens k
             (if tx_isolation t \<noteq> READ_COMMITTED then emplace_item k (A_READ, Some v) t else t)))"

definition read :: "store \<Rightarrow> string option \<Rightarrow> bool \<Rightarrow> (tx, val option) op" where
  "read s key ens t =
     (if \<not> is_valid_key_ptr key then (Inl Ex_invalid_key, t)
      else if tx_state t \<noteq> OPEN then (Inl Ex_not_open, t)
      else
        let k = c_str (the key)
        in case map_of (tx_items t) k of
             Some e \<Rightarrow> read_item k ens e t
           | None \<Rightarrow> read_store s k ens t)"

definition denied :: "tx \<Rightarrow> u8 \<Rightarrow> string \<Rightarrow> bool" where
  "denied t m k =
     (case tx_user t of None \<Rightarrow> False | Some u \<Rightarrow> \<not> is_authorized u m (Some k))"

definition same_data :: "val option \<Rightarrow> string \<Rightarrow> bool" where
  "same_data v d = (case v of None \<Rightarrow> False | Some w \<Rightarrow> v_data w = d)"

definition upsert_item :: "string \<Rightarrow> string \<Rightarrow> bool \<Rightarrow> entry \<Rightarrow> (tx, bool) op" where
  "upsert_item k d force e t =
     (if denied t CRUD_UPDATE k then (Inl Ex_not_authorized, t)
      else
        let t1 = (if fst e = A_SNAPSHOT then t\<lparr>tx_dirty := True\<rparr> else t)
        in if \<not> force \<and> fst e \<noteq> A_DELETE \<and> same_data (snd e) d then (Inr False, t1)
           else (Inr True, put_item k (A_UPSERT, Some \<lparr>v_data = d, v_meta = None\<rparr>) t1))"

definition upsert_store :: "store \<Rightarrow> string \<Rightarrow> string \<Rightarrow> bool \<Rightarrow> (tx, bool) op" where
  "upsert_store s k d force t =
     (let new = (A_UPSERT, Some \<lparr>v_data = d, v_meta = None\<rparr>)
      in case map_of (m_data s) k of
           None \<Rightarrow>
             if denied t CRUD_CREATE k then (Inl Ex_not_authorized, t)
             else (Inr True, emplace_item k new t)
         | Some v \<Rightarrow>
             if denied t CRUD_UPDATE k then (Inl Ex_not_authorized, t)
             else if \<not> force \<and> v_data v = d then
               (Inr False,
                if tx_isolation t = REPEATABLE_READ then emplace_item k (A_READ, Some v) t else t)
             else (Inr True, emplace_item k new t))"

definition upsert_internal ::
    "store \<Rightarrow> string option \<Rightarrow> string \<Rightarrow> bool \<Rightarrow> (tx, bool) op" where
  "upsert_internal s key d force t =
     (if \<not> is_valid_key_ptr key \<or> d = [] then (Inl Ex_invalid_argument, t)
      else if tx_read_only t then (Inl Ex_read_only, t)
      else if tx_state t \<noteq> OPEN then (Inl Ex_not_open, t)
      else
        let k = c_str (the key)
        in case map_of (tx_items t) k of
             Some e \<Rightarrow> upsert_item k d force e t
           | None \<Rightarrow> upsert_store s k d force t)"

definition upsert :: "store \<Rightarrow> string option \<Rightarrow> string \<Rightarrow> (tx, unit) op" where
  "upsert s key d = bind_op (upsert_internal s key d True) (\<lambda>_. return_op ())"

definition upsert_if_changed :: "store \<Rightarrow> string option \<Rightarrow> string \<Rightarrow> (tx, bool) op" where
  "upsert_if_changed s key d = upsert_internal s key d False"

definition remove_item :: "string \<Rightarrow> entry \<Rightarrow> (tx, bool) op" where
  "remove_item k e t =
     (if (fst e = A_READ \<or> fst e = A_SNAPSHOT) \<and> snd e = None then (Inr False, t)
      else if fst e = A_DELETE then (Inr False, t)
      else (Inr True, put_item k (A_DELETE, None) t))"

definition remove_key :: "store \<Rightarrow> string \<Rightarrow> (tx, bool) op" where
  "remove_key s key t =
     (if \<not> is_valid_key key then (Inl Ex_invalid_argument, t)
      else if tx_read_only t then (Inl Ex_read_only, t)
      else if tx_state t \<noteq> OPEN then (Inl Ex_not_open, t)
      else if denied t CRUD_DELETE key then (Inl Ex_not_authorized, t)
      else
        case map_of (tx_items t) key of
          Some e \<Rightarrow> remove_item key e t
        | None \<Rightarrow>
            (case map_of (m_data s) key of
               None \<Rightarrow> (Inr False, t)
             | Some v \<Rightarrow> (Inr True, emplace_item key (A_DELETE, None) t)))"

section \<open>Patterns\<close>

text \<open>
  \<open>for_each_internal\<close> walks the items and the store side by side in key order.  \<open>seek\<close> is the inner
  loop that moves an iterator to the next key that matches: the entries it steps over, and the
  entries from where it stops; past the literal prefix of the pattern it jumps to the end.
\<close>

fun seek :: "string \<Rightarrow> string \<Rightarrow> (string, 'v) omap \<Rightarrow> (string, 'v) omap \<times> (string, 'v) omap" where
  "seek pfx pat [] = ([], [])"
| "seek pfx pat ((k, v) # m) =
     (if \<not> prefix pfx k then ((k, v) # m, [])
      else if glob_match k pat then ([], (k, v) # m)
      else let (skipped, rest) = seek pfx pat m in ((k, v) # skipped, rest))"

lemma seek_length: "length (snd (seek pfx pat m)) \<le> length m"
proof (induction pfx pat m rule: seek.induct)
  case (1 pfx pat)
  then show ?case by simp
next
  case (2 pfx pat k v m)
  then show ?case by (auto split: prod.splits)
qed

lemma seek_rest:
  "(a, r) = seek pfx pat m \<Longrightarrow> length r \<le> length m"
  "seek pfx pat m = (a, r) \<Longrightarrow> length r \<le> length m"
  "r = snd (seek pfx pat m) \<Longrightarrow> length r \<le> length m"
  "snd (seek pfx pat m) = r \<Longrightarrow> length r \<le> length m"
  using seek_length[of pfx pat m] by (metis snd_conv)+

definition visible :: "string \<Rightarrow> entry \<Rightarrow> (string \<times> val) list" where
  "visible k e =
     (if fst e \<noteq> A_DELETE then (case snd e of None \<Rightarrow> [] | Some v \<Rightarrow> [(k, v)]) else [])"

definition visit_entry :: "entry \<Rightarrow> entry" where
  "visit_entry e = (if fst e = A_SNAPSHOT then (A_READ, snd e) else e)"

text \<open>What the walk yields: the pairs reported, the items as it leaves them, the pairs to pin, dirt.\<close>

type_synonym walk =
  "(string \<times> val) list \<times> (string, entry) omap \<times> (string \<times> val) list \<times> bool"

definition walk_item :: "(string, entry) omap \<Rightarrow> string \<Rightarrow> entry \<Rightarrow> walk \<Rightarrow> walk" where
  "walk_item skipped k e w =
     (case w of (ret, its, pins, d) \<Rightarrow>
        (visible k e @ ret, skipped @ (k, visit_entry e) # its, pins, fst e = A_SNAPSHOT \<or> d))"

definition walk_store :: "(string, entry) omap \<Rightarrow> bool \<Rightarrow> string \<Rightarrow> val \<Rightarrow> walk \<Rightarrow> walk" where
  "walk_store skipped pin k v w =
     (case w of (ret, its, pins, d) \<Rightarrow>
        ((k, v) # ret, skipped @ its, (if pin then (k, v) # pins else pins), d))"

function merge_loop ::
    "string \<Rightarrow> string \<Rightarrow> bool \<Rightarrow> (string, entry) omap \<Rightarrow> (string, val) omap \<Rightarrow> walk" where
  "merge_loop pfx pat pin its sts =
     (let (skipped, its') = seek pfx pat its; sts' = snd (seek pfx pat sts)
      in case its' of
           [] \<Rightarrow>
             (case sts' of
                [] \<Rightarrow> ([], skipped, [], False)
              | (k2, v) # s \<Rightarrow> walk_store skipped pin k2 v (merge_loop pfx pat pin [] s))
         | (k1, e) # r \<Rightarrow>
             (case sts' of
                [] \<Rightarrow> walk_item skipped k1 e (merge_loop pfx pat pin r [])
              | (k2, v) # s \<Rightarrow>
                  if k1 < k2 then walk_item skipped k1 e (merge_loop pfx pat pin r ((k2, v) # s))
                  else if k2 < k1 then
                    walk_store skipped pin k2 v (merge_loop pfx pat pin ((k1, e) # r) s)
                  else walk_item skipped k1 e (merge_loop pfx pat pin r s)))"
  by pat_completeness auto
termination
proof (relation "measure (\<lambda>(_, _, _, its, sts). length its + length sts)", goal_cases)
  case 1
  show ?case by simp
qed (auto dest!: seek_rest intro: add_less_le_mono[OF _ seek_length])

declare merge_loop.simps [simp del]

text \<open>\<open>strcspn(pattern, "*?")\<close>.\<close>

definition pattern_prefix :: "string \<Rightarrow> string" where
  "pattern_prefix pat = takeWhile (\<lambda>c. c \<noteq> CHR ''*'' \<and> c \<noteq> CHR ''?'') pat"

definition for_each_internal :: "store \<Rightarrow> string option \<Rightarrow> tx \<Rightarrow> (string \<times> val) list \<times> tx" where
  "for_each_internal s pattern t =
     (let pat = (case pattern of None \<Rightarrow> ''**''
                 | Some p \<Rightarrow> if c_str p = [] then ''**'' else c_str p);
          pfx = pattern_prefix pat;
          its = (if pfx = [] then tx_items t else om_lower_bound pfx (tx_items t));
          before = take (length (tx_items t) - length its) (tx_items t);
          sts = (if pfx = [] then m_data s else om_lower_bound pfx (m_data s));
          (ret, its', pins, d) = merge_loop pfx pat (tx_isolation t \<noteq> READ_COMMITTED) its sts;
          t1 = t\<lparr>tx_items := before @ its', tx_dirty := (tx_dirty t \<or> d)\<rparr>
      in (ret, fold (\<lambda>(k, v). emplace_item k (A_READ, Some v)) pins t1))"

type_synonym callback = "string \<Rightarrow> val \<Rightarrow> (tx, bool) op"

fun for_each_loop :: "callback \<Rightarrow> (string \<times> val) list \<Rightarrow> nat \<Rightarrow> (tx, nat) op" where
  "for_each_loop cb [] n t = (Inr n, t)"
| "for_each_loop cb ((k, v) # kvs) n t =
     (case cb k v t of
        (Inl e, t') \<Rightarrow> (Inl e, t')
      | (Inr b, t') \<Rightarrow> if b then for_each_loop cb kvs (n + 1) t' else (Inr (n + 1), t'))"

definition for_each :: "store \<Rightarrow> string option \<Rightarrow> callback option \<Rightarrow> (tx, nat) op" where
  "for_each s pattern cb t =
     (case cb of
        None \<Rightarrow> (Inr 0, t)
      | Some f \<Rightarrow>
          (case pattern of
             None \<Rightarrow> (Inr 0, t)
           | Some p \<Rightarrow>
               if c_str p = [] then (Inr 0, t)
               else if tx_state t \<noteq> OPEN then (Inl Ex_not_open, t)
               else let (kvs, t') = for_each_internal s pattern t in for_each_loop f kvs 0 t'))"

definition remove_callback :: "store \<Rightarrow> callback" where
  "remove_callback s k v = bind_op (remove_key s k) (\<lambda>_. return_op True)"

definition remove_pattern :: "store \<Rightarrow> string option \<Rightarrow> (tx, nat) op" where
  "remove_pattern s pattern t =
     (if tx_read_only t then (Inl Ex_read_only, t)
      else if tx_state t \<noteq> OPEN then (Inl Ex_not_open, t)
      else for_each s pattern (Some (remove_callback s)) t)"

section \<open>Commits of others\<close>

fun update_default :: "change list \<Rightarrow> tx \<Rightarrow> tx" where
  "update_default [] t = t"
| "update_default (c # cs) t =
     (if tx_dirty t then t
      else
        case map_of (tx_items t) (ch_key c) of
          None \<Rightarrow> update_default cs t
        | Some _ \<Rightarrow> t\<lparr>tx_dirty := True\<rparr>)"

definition pre_image :: "change \<Rightarrow> entry" where
  "pre_image c =
     (case ch_action c of
        CREATE \<Rightarrow> (A_SNAPSHOT, None)
      | UPDATE \<Rightarrow> (A_SNAPSHOT, ch_old c)
      | DELETE \<Rightarrow> (A_SNAPSHOT, ch_old c))"

fun update_serializable :: "change list \<Rightarrow> tx \<Rightarrow> tx" where
  "update_serializable [] t = t"
| "update_serializable (c # cs) t =
     (case map_of (tx_items t) (ch_key c) of
        None \<Rightarrow> update_serializable cs (emplace_item (ch_key c) (pre_image c) t)
      | Some _ \<Rightarrow> update_serializable cs (t\<lparr>tx_dirty := True\<rparr>))"

text \<open>The check of the ensures: any change whose key matches any of them.\<close>

definition ensure_hit :: "change list \<Rightarrow> tx \<Rightarrow> bool" where
  "ensure_hit cs t = list_ex (\<lambda>c. list_ex (\<lambda>(p, _). glob_match (ch_key c) p) (tx_ensures t)) cs"

definition tx_update :: "change list \<Rightarrow> tx \<Rightarrow> tx" where
  "tx_update cs t =
     (if tx_state t \<noteq> OPEN then t
      else
        let t1 = (case tx_isolation t of
                    SERIALIZABLE \<Rightarrow> update_serializable cs t
                  | READ_COMMITTED \<Rightarrow> update_default cs t
                  | REPEATABLE_READ \<Rightarrow> update_default cs t)
        in if tx_dirty t1 \<or> tx_ensures t1 = [] then t1
           else if ensure_hit cs t1 then t1\<lparr>tx_dirty := True\<rparr> else t1)"

section \<open>Submission\<close>

definition is_modification :: "entry \<Rightarrow> bool" where
  "is_modification e \<longleftrightarrow> fst e \<noteq> A_READ \<and> fst e \<noteq> A_SNAPSHOT"

definition finish :: "submit_e \<Rightarrow> tx_state_e \<Rightarrow> (tx, nat) op" where
  "finish r st =
     bind_op (satisfy (Inr r)) (\<lambda>_. bind_op (modify_op (set_state st)) (\<lambda>_. get_future))"

text \<open>
  \<open>submit\<close>.  \<open>push\<close> is what \<open>m_client.lock()\<close> and then \<open>push_command\<close> do: \<^term>\<open>None\<close> when the client
  is gone, otherwise the exception \<open>push_command\<close> throws, if any.
\<close>

definition submit :: "(exn option) option \<Rightarrow> bool \<Rightarrow> (tx, nat) op" where
  "submit push force t =
     (if tx_state t \<noteq> OPEN then (Inl Ex_not_open, t)
      else if tx_read_only t then finish SE_NO_MODIFICATIONS DISCARDED t
      else if \<not> force \<and> \<not> list_ex (\<lambda>(_, e). is_modification e) (tx_items t) then
        finish SE_NO_MODIFICATIONS DISCARDED t
      else if \<not> force \<and> tx_dirty t then finish SE_REJECTED_INTEGRITY REJECTED t
      else
        case push of
          None \<Rightarrow> (Inl Ex_no_client, t)
        | Some thrown \<Rightarrow>
            if force \<and> (case tx_user t of None \<Rightarrow> False | Some u \<Rightarrow> \<not> can_force u) then
              finish SE_REJECTED_PERMISSION REJECTED t
            else
              let t1 = set_state SUBMITTED t
              in case thrown of
                   Some e \<Rightarrow> (Inl e, t1)
                 | None \<Rightarrow> get_future t1)"

text \<open>The two overloads of \<open>set_submit_result\<close>, and \<open>confirm_commit\<close>.\<close>

definition set_submit_error :: "exn \<Rightarrow> (tx, unit) op" where
  "set_submit_error e t =
     (if tx_state t \<noteq> SUBMITTED then (Inr (), t)
      else satisfy (Inl e) (set_state ABORTED t))"

definition set_submit_code :: "submit_code \<Rightarrow> (tx, unit) op" where
  "set_submit_code code t =
     (if tx_state t \<noteq> SUBMITTED then (Inr (), t)
      else
        case code of
          SC_ACCEPTED \<Rightarrow> (Inr (), set_state ACCEPTED t)
        | SC_TRY_LATER \<Rightarrow>
            bind_op (satisfy (Inr SE_TRY_LATER))
              (\<lambda>_. modify_op (\<lambda>u. u\<lparr>tx_past := tx_past u @ [tx_promise u], tx_promise := new_promise\<rparr>))
              (set_state OPEN t)
        | SC_NO_MODIFICATIONS \<Rightarrow> satisfy (Inr SE_NO_MODIFICATIONS) (set_state DISCARDED t)
        | SC_REJECTED_PERMISSION \<Rightarrow> satisfy (Inr SE_REJECTED_PERMISSION) (set_state REJECTED t)
        | SC_REJECTED_OLD_REVISION \<Rightarrow> satisfy (Inr SE_REJECTED_OLD_REVISION) (set_state REJECTED t)
        | SC_REJECTED_INTEGRITY \<Rightarrow> satisfy (Inr SE_REJECTED_INTEGRITY) (set_state REJECTED t)
        | SC_REJECTED_ENSURE \<Rightarrow> satisfy (Inr SE_REJECTED_ENSURE) (set_state REJECTED t)
        | _ \<Rightarrow> satisfy (Inr SE_REJECTED_OTHER) (set_state REJECTED t))"

definition confirm_commit :: "(tx, unit) op" where
  "confirm_commit t =
     (if tx_state t \<noteq> ACCEPTED then (Inr (), t)
      else satisfy (Inr SE_COMMITTED) (set_state COMMITTED t))"

end
