(* ===== verification/Nplex_Walk.thy ===== *)
theory Nplex_Walk
  imports Nplex_Transaction
begin

text \<open>
  The walk of \<open>for_each_internal\<close> over items and store: what it reports, what it pins, and what it
  does to the items, for every pattern.
\<close>

section \<open>Seeking\<close>

definition hit :: "string \<Rightarrow> string \<Rightarrow> string \<Rightarrow> bool" where
  "hit pfx pat k \<longleftrightarrow> prefix pfx k \<and> glob_match k pat"

lemma seek_spec:
  assumes "om_wf m" "\<forall>k \<in> fst ` set m. pfx \<le> k" "seek pfx pat m = (a, r)"
  shows "m = a @ r" "\<forall>k \<in> fst ` set a. \<not> hit pfx pat k" "r \<noteq> [] \<Longrightarrow> hit pfx pat (fst (hd r))"
proof -
  have "m = a @ r \<and> (\<forall>k \<in> fst ` set a. \<not> hit pfx pat k) \<and> (r \<noteq> [] \<longrightarrow> hit pfx pat (fst (hd r)))"
    using assms
  proof (induction pfx pat m arbitrary: a r rule: seek.induct)
    case (1 pfx pat)
    then show ?case by simp
  next
    case (2 pfx pat k v m)
    consider "\<not> prefix pfx k" | "prefix pfx k" "glob_match k pat" | "prefix pfx k" "\<not> glob_match k pat"
      by blast
    then show ?case
    proof cases
      case 1
      have "\<not> prefix pfx x" if "x \<in> fst ` set m" for x
      proof
        assume "prefix pfx x"
        moreover have "pfx \<le> k" using "2.prems"(2) by simp
        moreover have "k \<le> x" using "2.prems"(1) that by (auto simp: om_wf_Cons less_imp_le)
        ultimately show False using 1 prefix_contiguous by blast
      qed
      then have none: "\<forall>x \<in> fst ` set m. \<not> prefix pfx x" by blast
      from 1 "2.prems"(3) have ar: "a = (k, v) # m" "r = []" by simp_all
      then have "\<forall>x \<in> fst ` set a. \<not> prefix pfx x" using none 1 by simp
      then show ?thesis using ar by (simp add: hit_def)
    next
      case 2
      with "2.prems"(3) show ?thesis by (auto simp: hit_def)
    next
      case 3
      obtain a' r' where s: "seek pfx pat m = (a', r')" by fastforce
      with 3 "2.prems" have "a = (k, v) # a'" "r = r'" by auto
      moreover have "m = a' @ r' \<and> (\<forall>k \<in> fst ` set a'. \<not> hit pfx pat k) \<and>
          (r' \<noteq> [] \<longrightarrow> hit pfx pat (fst (hd r')))"
        using "2.IH"[OF _ _ _ _ s] 3 "2.prems" by (simp add: om_wf_Cons)
      ultimately show ?thesis using 3 by (auto simp: hit_def)
    qed
  qed
  then show "m = a @ r" "\<forall>k \<in> fst ` set a. \<not> hit pfx pat k" "r \<noteq> [] \<Longrightarrow> hit pfx pat (fst (hd r))"
    by blast+
qed

lemma om_wf_append:
  "om_wf (a @ b) \<longleftrightarrow> om_wf a \<and> om_wf b \<and> (\<forall>x \<in> fst ` set a. \<forall>y \<in> fst ` set b. x < y)"
  by (auto simp: om_wf_def sorted_wrt_append)

section \<open>The walk\<close>

text \<open>What a reader of the transaction sees of a key: its own item, or the store.\<close>

definition seen :: "entry option \<Rightarrow> val option \<Rightarrow> val option" where
  "seen e v = (case e of None \<Rightarrow> v | Some (a, w) \<Rightarrow> if a = A_DELETE then None else w)"

definition visit_all :: "(string \<Rightarrow> bool) \<Rightarrow> (string, entry) omap \<Rightarrow> (string, entry) omap" where
  "visit_all h its = map (\<lambda>(k, e). (k, if h k then visit_entry e else e)) its"

definition walk_ok ::
    "(string \<Rightarrow> bool) \<Rightarrow> bool \<Rightarrow> (string, entry) omap \<Rightarrow> (string, val) omap \<Rightarrow> walk \<Rightarrow> bool" where
  "walk_ok h pin its sts w \<longleftrightarrow>
     (case w of (ret, its', pins, d) \<Rightarrow>
        its' = visit_all h its \<and>
        (d \<longleftrightarrow> (\<exists>k e. (k, e) \<in> set its \<and> h k \<and> fst e = A_SNAPSHOT)) \<and>
        set pins = (if pin then {(k, v) \<in> set sts. h k \<and> k \<notin> fst ` set its} else {}) \<and>
        (\<forall>k v. (k, v) \<in> set ret \<longleftrightarrow> h k \<and> seen (map_of its k) (map_of sts k) = Some v) \<and>
        sorted_wrt (<) (map fst ret))"

lemma visit_all_Nil [simp]: "visit_all h [] = []"
  by (simp add: visit_all_def)

lemma visit_all_append [simp]: "visit_all h (a @ b) = visit_all h a @ visit_all h b"
  by (simp add: visit_all_def)

lemma visit_all_Cons [simp]:
  "visit_all h ((k, e) # b) = (k, if h k then visit_entry e else e) # visit_all h b"
  by (simp add: visit_all_def)

lemma visit_all_none: "\<forall>k \<in> fst ` set a. \<not> h k \<Longrightarrow> visit_all h a = a"
  unfolding visit_all_def by (rule map_idI) auto

lemma seen_Some [simp]: "seen (Some e) x = (if fst e = A_DELETE then None else snd e)"
  by (cases e) (simp add: seen_def)

lemma seen_None [simp]: "seen None x = x"
  by (simp add: seen_def)

lemma visible_cases:
  "snd e = None \<Longrightarrow> visible k e = []"
  "snd e = Some v \<Longrightarrow> visible k e = (if fst e = A_DELETE then [] else [(k, v)])"
  by (simp_all add: visible_def)

lemma visible_seen:
  "(k', v) \<in> set (visible k e) \<longleftrightarrow> k' = k \<and> fst e \<noteq> A_DELETE \<and> snd e = Some v"
proof (cases "snd e")
  case None
  then show ?thesis by (simp add: visible_cases)
next
  case (Some w)
  show ?thesis unfolding visible_cases(2)[OF Some] unfolding Some by (cases "fst e = A_DELETE") auto
qed

lemma walk_done:
  assumes "\<forall>k \<in> fst ` set a. \<not> h k" "\<forall>k \<in> fst ` set b. \<not> h k"
  shows "walk_ok h pin a b ([], a, [], False)"
proof -
  have "seen (map_of a k) (map_of b k) = None" if "h k" for k
  proof -
    have "map_of a k = None" "map_of b k = None"
      using that assms by (auto simp: map_of_eq_None_iff)
    then show ?thesis by (simp add: seen_def)
  qed
  moreover have "\<not> (\<exists>k e. (k, e) \<in> set a \<and> h k \<and> fst e = A_SNAPSHOT)"
    using assms(1) by force
  moreover have "{(k, v) \<in> set b. h k \<and> k \<notin> fst ` set a} = {}" using assms(2) by force
  ultimately show ?thesis
    using visit_all_none[OF assms(1)] by (auto simp: walk_ok_def)
qed

lemma walk_item_ok:
  assumes wf: "om_wf (a @ (k, e) # r)"
    and skip: "\<forall>x \<in> fst ` set a. \<not> h x" "\<forall>x \<in> fst ` set b. \<not> h x" and hk: "h k"
    and rest: "s = s' \<or> (\<exists>v. s = (k, v) # s')" "\<forall>x \<in> fst ` set s'. k < x"
    and w: "walk_ok h pin r s' w"
  shows "walk_ok h pin (a @ (k, e) # r) (b @ s) (walk_item a k e w)"
proof -
  obtain ret its pins d where w': "w = (ret, its, pins, d)" by (cases w)
  note W = w[unfolded walk_ok_def w' prod.case]
  have above: "k < x" if "x \<in> fst ` set r" for x
    using wf that by (auto simp: om_wf_append om_wf_Cons)
  have look_its: "map_of (a @ (k, e) # r) x = (if x = k then Some e else map_of r x)" if "h x" for x
    using that skip(1) by (auto simp: map_add_def map_of_eq_None_iff split: option.splits)
      (metis fst_conv image_eqI map_of_SomeD)+
  have look_sts: "map_of (b @ s) x = map_of s' x" if "h x" "x \<noteq> k" for x
    using that skip(2) rest(1) by (auto simp: map_add_def split: option.splits)
      (metis fst_conv image_eqI map_of_SomeD)+
  have ret_k: "k < x" if "(x, v) \<in> set ret" for x v
  proof -
    from W that have x: "h x" "seen (map_of r x) (map_of s' x) = Some v" by blast+
    then have "map_of r x \<noteq> None \<or> map_of s' x \<noteq> None" by (auto simp: seen_def split: option.splits)
    with above rest(2) x(1) show ?thesis by (force simp: map_of_eq_None_iff)
  qed
  have "(x, v) \<in> set (visible k e @ ret) \<longleftrightarrow>
      h x \<and> seen (map_of (a @ (k, e) # r) x) (map_of (b @ s) x) = Some v" for x v
  proof (cases "x = k")
    case True
    have "(k, v) \<notin> set ret" using ret_k by blast
    with True hk look_its[OF hk] show ?thesis by (simp add: visible_seen)
  next
    case False
    with W show ?thesis using look_its look_sts by (auto simp: visible_seen)
  qed
  moreover have "sorted_wrt (<) (map fst (visible k e @ ret))"
    using W ret_k by (auto simp: visible_def split: option.splits)
  moreover have "(\<exists>x f. (x, f) \<in> set (a @ (k, e) # r) \<and> h x \<and> fst f = A_SNAPSHOT) \<longleftrightarrow>
      fst e = A_SNAPSHOT \<or> d"
  proof -
    have "d \<longleftrightarrow> (\<exists>x f. (x, f) \<in> set r \<and> h x \<and> fst f = A_SNAPSHOT)" using W by blast
    moreover have "\<not> h x" if "(x, f) \<in> set a" for x f using skip(1) that by force
    ultimately show ?thesis using hk by (cases e) auto
  qed
  moreover have "{(x, v) \<in> set (b @ s). h x \<and> x \<notin> fst ` set (a @ (k, e) # r)} =
      {(x, v) \<in> set s'. h x \<and> x \<notin> fst ` set r}"
  proof (rule set_eqI)
    fix p :: "string \<times> val"
    obtain x u where p: "p = (x, u)" by fastforce
    have nk: "(k, u) \<notin> set s'" using rest(2) hk by force
    have nb: "(x, u) \<notin> set b" if "h x" using that skip(2) by force
    have na: "x \<in> fst ` set (a @ (k, e) # r) \<longleftrightarrow> x = k \<or> x \<in> fst ` set r" if "h x"
      using that skip(1) by auto
    show "p \<in> {(x, v) \<in> set (b @ s). h x \<and> x \<notin> fst ` set (a @ (k, e) # r)} \<longleftrightarrow>
        p \<in> {(x, v) \<in> set s'. h x \<and> x \<notin> fst ` set r}"
    proof (cases "h x")
      case True
      have mem: "(x, u) \<in> set (b @ s) \<longleftrightarrow> (x, u) \<in> set s"
        using nb[OF True] by auto
      have "(x, u) \<in> set s \<longleftrightarrow> (x, u) \<in> set s' \<or> (x = k \<and> (x, u) \<in> set s)"
        using rest(1) by auto
      then show ?thesis unfolding p mem_Collect_eq prod.case mem na[OF True] using nk True by blast
    next
      case False
      then show ?thesis by (simp add: p)
    qed
  qed
  ultimately show ?thesis
    using W hk visit_all_none[OF skip(1)] unfolding walk_ok_def walk_item_def w' by simp
qed

lemma walk_store_ok:
  assumes wf: "om_wf (a @ r)" "om_wf (b @ (k, v) # s)"
    and skip: "\<forall>x \<in> fst ` set a. \<not> h x" "\<forall>x \<in> fst ` set b. \<not> h x" and hk: "h k"
    and rest: "\<forall>x \<in> fst ` set r. k < x"
    and w: "walk_ok h pin r s w"
  shows "walk_ok h pin (a @ r) (b @ (k, v) # s) (walk_store a pin k v w)"
proof -
  obtain ret its pins d where w': "w = (ret, its, pins, d)" by (cases w)
  note W = w[unfolded walk_ok_def w' prod.case]
  have above: "k < x" if "x \<in> fst ` set s" for x
    using wf(2) that by (auto simp: om_wf_append om_wf_Cons)
  have look_its: "map_of (a @ r) x = map_of r x" if "h x" for x
    using that skip(1) by (auto simp: map_add_def split: option.splits)
      (metis fst_conv image_eqI map_of_SomeD)+
  have none: "map_of r k = None" using rest by (auto simp: map_of_eq_None_iff)
  have look_sts: "map_of (b @ (k, v) # s) x = (if x = k then Some v else map_of s x)" if "h x" for x
    using that skip(2) by (auto simp: map_add_def split: option.splits)
      (metis fst_conv image_eqI map_of_SomeD)+
  have ret_k: "k < x" if "(x, u) \<in> set ret" for x u
  proof -
    from W that have x: "h x" "seen (map_of r x) (map_of s x) = Some u" by blast+
    then have "map_of r x \<noteq> None \<or> map_of s x \<noteq> None" by (auto simp: seen_def split: option.splits)
    with above rest show ?thesis by (force simp: map_of_eq_None_iff)
  qed
  have "(x, u) \<in> set ((k, v) # ret) \<longleftrightarrow>
      h x \<and> seen (map_of (a @ r) x) (map_of (b @ (k, v) # s) x) = Some u" for x u
  proof (cases "x = k")
    case True
    have "(k, u) \<notin> set ret" using ret_k by blast
    moreover have "map_of (a @ r) k = None" using look_its[OF hk] none by simp
    moreover have "map_of (b @ (k, v) # s) k = Some v" using look_sts[OF hk] by simp
    ultimately show ?thesis using True hk by (simp del: map_of_append) auto
  next
    case False
    with W show ?thesis using look_its look_sts by auto
  qed
  moreover have "sorted_wrt (<) (map fst ((k, v) # ret))"
    using W ret_k by auto
  moreover have "(\<exists>x f. (x, f) \<in> set (a @ r) \<and> h x \<and> fst f = A_SNAPSHOT) \<longleftrightarrow> d"
  proof -
    have "d \<longleftrightarrow> (\<exists>x f. (x, f) \<in> set r \<and> h x \<and> fst f = A_SNAPSHOT)" using W by blast
    moreover have "\<not> h x" if "(x, f) \<in> set a" for x f using skip(1) that by force
    ultimately show ?thesis by auto
  qed
  moreover have "{(x, u) \<in> set (b @ (k, v) # s). h x \<and> x \<notin> fst ` set (a @ r)} =
      insert (k, v) {(x, u) \<in> set s. h x \<and> x \<notin> fst ` set r}"
  proof (rule set_eqI)
    fix p :: "string \<times> val"
    obtain x u where p: "p = (x, u)" by fastforce
    have nk: "k \<notin> fst ` set r" using rest by auto
    have nb: "(x, u) \<notin> set b" if "h x" using that skip(2) by force
    have na: "x \<in> fst ` set (a @ r) \<longleftrightarrow> x \<in> fst ` set r" if "h x"
      using that skip(1) by auto
    show "p \<in> {(x, u) \<in> set (b @ (k, v) # s). h x \<and> x \<notin> fst ` set (a @ r)} \<longleftrightarrow>
        p \<in> insert (k, v) {(x, u) \<in> set s. h x \<and> x \<notin> fst ` set r}"
    proof (cases "h x")
      case True
      have mem: "(x, u) \<in> set (b @ (k, v) # s) \<longleftrightarrow> (x, u) = (k, v) \<or> (x, u) \<in> set s"
        using nb[OF True] by auto
      show ?thesis unfolding p mem_Collect_eq prod.case insert_iff mem na[OF True] using nk True by auto
    next
      case False
      with hk show ?thesis by (auto simp: p)
    qed
  qed
  ultimately show ?thesis
    using W visit_all_none[OF skip(1)] unfolding walk_ok_def walk_store_def w' by auto
qed

lemma om_wf_above:
  "om_wf ((k, x) # m) \<Longrightarrow> j < k \<Longrightarrow> \<forall>i \<in> fst ` set ((k, x) # m). j < i"
  by (auto simp: om_wf_Cons intro: less_trans)

theorem merge_loop_ok:
  assumes "om_wf its" "om_wf sts" "\<forall>k \<in> fst ` set its. pfx \<le> k" "\<forall>k \<in> fst ` set sts. pfx \<le> k"
  shows "walk_ok (hit pfx pat) pin its sts (merge_loop pfx pat pin its sts)"
  using assms
proof (induction pfx pat pin its sts rule: merge_loop.induct)
  case (1 pfx pat pin its sts)
  let ?h = "hit pfx pat"
  obtain a its' where a: "seek pfx pat its = (a, its')" by fastforce
  obtain b sts' where b: "seek pfx pat sts = (b, sts')" by fastforce
  note A = seek_spec[OF "1.prems"(1,3) a] and B = seek_spec[OF "1.prems"(2,4) b]
  have wfs: "om_wf its'" "om_wf sts'" "om_wf (a @ its')" "om_wf (b @ sts')"
    using "1.prems"(1,2) A(1) B(1) by (auto simp: om_wf_append)
  have ge: "\<forall>k \<in> fst ` set its'. pfx \<le> k" "\<forall>k \<in> fst ` set sts'. pfx \<le> k"
    using "1.prems"(3,4) A(1) B(1) by auto

  note unfold = merge_loop.simps[of pfx pat pin its sts] a b
  show ?case
  proof (cases its')
    case Nil
    show ?thesis
    proof (cases sts')
      case Nil
      with \<open>its' = []\<close> have "merge_loop pfx pat pin its sts = ([], a, [], False)"
        by (simp add: unfold Let_def)
      with walk_done[OF A(2) B(2), of pin] A(1) B(1) Nil \<open>its' = []\<close> show ?thesis by simp
    next
      case (Cons p s)
      obtain k2 v where p: "p = (k2, v)" by fastforce
      have "walk_ok ?h pin [] s (merge_loop pfx pat pin [] s)"
      proof (rule "1.IH"(1)[of "(a, its')" a its' sts' p s k2 v])
        show "om_wf s" "\<forall>k \<in> fst ` set s. pfx \<le> k"
          using wfs(2) ge(2) Cons p by (auto simp: om_wf_Cons)
      qed (use a b \<open>its' = []\<close> Cons p in simp_all)
      with wfs A(2) B(2,3) \<open>its' = []\<close> Cons p
      have "walk_ok ?h pin (a @ []) (b @ (k2, v) # s)
          (walk_store a pin k2 v (merge_loop pfx pat pin [] s))"
        by (intro walk_store_ok) auto
      moreover have "merge_loop pfx pat pin its sts =
          walk_store a pin k2 v (merge_loop pfx pat pin [] s)"
        using \<open>its' = []\<close> Cons p by (simp add: unfold Let_def)
      ultimately show ?thesis using A(1) B(1) \<open>its' = []\<close> Cons p by simp
    qed
  next
    case (Cons q r)
    obtain k1 e where q: "q = (k1, e)" by (rule prod.exhaust)
    have hk1: "?h k1" using A(3) Cons q by simp
    have wfr: "om_wf r" "\<forall>k \<in> fst ` set r. pfx \<le> k"
      using wfs(1) ge(1) Cons q by (auto simp: om_wf_Cons)
    show ?thesis
    proof (cases sts')
      case Nil
      have "walk_ok ?h pin r [] (merge_loop pfx pat pin r [])"
      proof (rule "1.IH"(2)[of "(a, its')" a its' sts' q r k1 e])
        show "om_wf r" "\<forall>k \<in> fst ` set r. pfx \<le> k" by (rule wfr)+
      qed (use a b Cons q Nil in simp_all)
      with wfs A(2) B(2) hk1 Cons q Nil
      have "walk_ok ?h pin (a @ (k1, e) # r) (b @ [])
          (walk_item a k1 e (merge_loop pfx pat pin r []))"
        by (intro walk_item_ok[where s' = "[]"]) simp_all
      moreover have "merge_loop pfx pat pin its sts = walk_item a k1 e (merge_loop pfx pat pin r [])"
        using Cons q Nil by (simp add: unfold Let_def)
      ultimately show ?thesis using A(1) B(1) Cons q Nil by simp
    next
      fix p s
      assume sts': "sts' = p # s"
      obtain k2 v where p: "p = (k2, v)" by (rule prod.exhaust)
      have hk2: "?h k2" using B(3) sts' p by simp
      have wfs2: "om_wf s" "\<forall>k \<in> fst ` set s. pfx \<le> k" "\<forall>k \<in> fst ` set s. k2 < k"
        using wfs(2) ge(2) sts' p by (auto simp: om_wf_Cons)
      have wf1: "om_wf ((k1, e) # r)" "om_wf (a @ (k1, e) # r)" using wfs(1,3) Cons q by simp_all
      have wf2: "om_wf ((k2, v) # s)" "om_wf (b @ (k2, v) # s)" using wfs(2,4) sts' p by simp_all
      have ge1: "\<forall>k \<in> fst ` set ((k1, e) # r). pfx \<le> k" using ge(1) Cons q by simp
      have ge2: "\<forall>k \<in> fst ` set ((k2, v) # s). pfx \<le> k" using ge(2) sts' p by simp
      have here: "its = a @ (k1, e) # r" "sts = b @ (k2, v) # s" using A(1) B(1) Cons q sts' p by simp_all
      consider "k1 < k2" | "k2 < k1" | "k1 = k2" by (rule linorder_cases)
      then show ?thesis
      proof cases
        case 1
        have w: "walk_ok ?h pin r ((k2, v) # s) (merge_loop pfx pat pin r ((k2, v) # s))"
          by (rule "1.IH"(3)[of "(a, its')" a its' sts' q r k1 e p s k2 v])
            (use a b Cons q sts' p 1 wfr wf2(1) ge2 in simp_all)
        have "\<forall>i \<in> fst ` set ((k2, v) # s). k1 < i" using wf2(1) 1 by (rule om_wf_above)
        then have "walk_ok ?h pin (a @ (k1, e) # r) (b @ (k2, v) # s)
            (walk_item a k1 e (merge_loop pfx pat pin r ((k2, v) # s)))"
          using wf1(2) A(2) B(2) hk1 w by (intro walk_item_ok[where s' = "(k2, v) # s"]) simp_all
        moreover have "merge_loop pfx pat pin its sts =
            walk_item a k1 e (merge_loop pfx pat pin r ((k2, v) # s))"
          using Cons q sts' p 1 by (simp add: unfold Let_def)
        ultimately show ?thesis unfolding here by simp
      next
        case 2
        have w: "walk_ok ?h pin ((k1, e) # r) s (merge_loop pfx pat pin ((k1, e) # r) s)"
          by (rule "1.IH"(4)[of "(a, its')" a its' sts' q r k1 e p s k2 v])
            (use a b Cons q sts' p 2 less_not_sym[OF 2] wf1(1) wfs2 ge1 in simp_all)
        have "\<forall>i \<in> fst ` set ((k1, e) # r). k2 < i" using wf1(1) 2 by (rule om_wf_above)
        then have "walk_ok ?h pin (a @ (k1, e) # r) (b @ (k2, v) # s)
            (walk_store a pin k2 v (merge_loop pfx pat pin ((k1, e) # r) s))"
          using wf1(2) wf2(2) A(2) B(2) hk2 w by (intro walk_store_ok) simp_all
        moreover have "merge_loop pfx pat pin its sts =
            walk_store a pin k2 v (merge_loop pfx pat pin ((k1, e) # r) s)"
          using Cons q sts' p 2 less_not_sym[OF 2] by (simp add: unfold Let_def)
        ultimately show ?thesis unfolding here by simp
      next
        case 3
        have w: "walk_ok ?h pin r s (merge_loop pfx pat pin r s)"
          by (rule "1.IH"(5)[of "(a, its')" a its' sts' q r k1 e p s k2 v])
            (use a b Cons q sts' p 3 wfr wfs2 in simp_all)
        have "walk_ok ?h pin (a @ (k1, e) # r) (b @ (k2, v) # s)
            (walk_item a k1 e (merge_loop pfx pat pin r s))"
          using wf1(2) A(2) B(2) hk1 w wfs2(3) 3 by (intro walk_item_ok[where s' = s]) simp_all
        moreover have "merge_loop pfx pat pin its sts =
            walk_item a k1 e (merge_loop pfx pat pin r s)"
          using Cons q sts' p 3 by (simp add: unfold Let_def)
        ultimately show ?thesis unfolding here by simp
      qed
    qed
  qed
qed

section \<open>The whole of \<open>for_each_internal\<close>\<close>

definition effective_pattern :: "string option \<Rightarrow> string" where
  "effective_pattern p =
     (case p of None \<Rightarrow> ''**'' | Some q \<Rightarrow> if c_str q = [] then ''**'' else c_str q)"

definition pattern_hit :: "string option \<Rightarrow> string \<Rightarrow> bool" where
  "pattern_hit p k = hit (pattern_prefix (effective_pattern p)) (effective_pattern p) k"

text \<open>The item of a key after the walk.\<close>

definition walked_item :: "bool \<Rightarrow> bool \<Rightarrow> entry option \<Rightarrow> val option \<Rightarrow> entry option" where
  "walked_item pin h e v =
     (case e of
        Some f \<Rightarrow> Some (if h then visit_entry f else f)
      | None \<Rightarrow> if pin \<and> h \<and> v \<noteq> None then Some (A_READ, v) else None)"

lemma split_lower_bound:
  "take (length m - length (om_lower_bound p m)) m = takeWhile (\<lambda>(a, _). a < p) m"
proof -
  have "length m - length (om_lower_bound p m) = length (takeWhile (\<lambda>(a, _). a < p) m)"
    unfolding om_lower_bound_def
    by (metis add_diff_cancel_right' length_append takeWhile_dropWhile_id)
  then show ?thesis by (simp add: takeWhile_eq_take[symmetric])
qed

lemma om_split: "takeWhile (\<lambda>(a, _). a < p) m @ om_lower_bound p m = m"
  by (simp add: om_lower_bound_def)

lemma takeWhile_below: "k \<in> fst ` set (takeWhile (\<lambda>(a, _). a < p) m) \<Longrightarrow> k < (p :: string)"
  by (auto dest: set_takeWhileD)

lemma lower_bound_ge:
  assumes "om_wf m" "k \<in> fst ` set (om_lower_bound p m)"
  shows "p \<le> k"
proof (cases "om_lower_bound p m")
  case Nil
  with assms show ?thesis by simp
next
  case (Cons x xs)
  then have "\<not> fst x < p" by (auto simp: om_lower_bound_def dropWhile_eq_Cons_conv)
  moreover have "om_wf (x # xs)" using assms(1) Cons by (metis om_lower_bound_def om_wf_dropWhile)
  then have "\<forall>y \<in> fst ` set xs. fst x < y" by (cases x) (simp add: om_wf_Cons)
  ultimately show ?thesis using assms(2) Cons by (auto simp: not_less intro: order_trans less_imp_le)
qed

lemma hit_ge: "hit p q k \<Longrightarrow> p \<le> k"
  by (auto simp: hit_def intro: prefix_imp_le)

lemma fold_emplace_fields:
  "tx_isolation (fold (\<lambda>(k, v). emplace_item k (A_READ, Some v)) ps t) = tx_isolation t"
  "fold (\<lambda>(k, v). emplace_item k (A_READ, Some v)) ps t =
     t\<lparr>tx_items := fold (\<lambda>(k, v). om_emplace k (A_READ, Some v)) ps (tx_items t)\<rparr>"
  by (induction ps arbitrary: t) (auto simp: emplace_item_def)

lemma fold_emplace_items:
  assumes "om_wf m" "\<forall>(k, v) \<in> set ps. g k = Some v"
  shows "om_wf (fold (\<lambda>(k, v). om_emplace k (A_READ, Some v)) ps m) \<and>
    map_of (fold (\<lambda>(k, v). om_emplace k (A_READ, Some v)) ps m) x =
      (case map_of m x of
         Some e \<Rightarrow> Some e
       | None \<Rightarrow> if x \<in> fst ` set ps then Some (A_READ, g x) else None)"
  using assms
proof (induction ps arbitrary: m)
  case Nil
  then show ?case by (simp split: option.splits)
next
  case (Cons p ps)
  obtain k v where p: "p = (k, v)" by fastforce
  have wf: "om_wf (om_emplace k (A_READ, Some v) m)" using Cons.prems(1) by (rule om_wf_emplace)
  have g: "g k = Some v" using Cons.prems(2) p by auto
  from Cons.IH[OF wf] Cons.prems(2) show ?case
    using g by (auto simp: p map_of_om_emplace[OF Cons.prems(1)] split: option.splits)
qed

lemma map_of_visit_all:
  "map_of (visit_all h m) k = map_option (\<lambda>e. if h k then visit_entry e else e) (map_of m k)"
  by (induction m) (auto simp: visit_all_def)

lemma om_wf_visit_all: "om_wf (visit_all h m) \<longleftrightarrow> om_wf m"
proof -
  have "map fst (visit_all h m) = map fst m" by (induction m) (auto simp: visit_all_def)
  then show ?thesis by (simp add: om_wf_def)
qed

theorem for_each_internal_spec:
  assumes "om_wf (tx_items t)" "om_wf (m_data s)" "for_each_internal s p t = (ret, t')"
  shows "sorted_wrt (<) (map fst ret)"
    "(k, v) \<in> set ret \<longleftrightarrow>
       pattern_hit p k \<and> seen (map_of (tx_items t) k) (map_of (m_data s) k) = Some v"
    "om_wf (tx_items t')"
    "map_of (tx_items t') k =
       walked_item (tx_isolation t \<noteq> READ_COMMITTED) (pattern_hit p k)
         (map_of (tx_items t) k) (map_of (m_data s) k)"
    "tx_dirty t' \<longleftrightarrow> tx_dirty t \<or>
       (\<exists>k e. map_of (tx_items t) k = Some e \<and> pattern_hit p k \<and> fst e = A_SNAPSHOT)"
    "t' = t\<lparr>tx_items := tx_items t', tx_dirty := tx_dirty t'\<rparr>"
proof -
  define pat where "pat = effective_pattern p"
  define pfx where "pfx = pattern_prefix pat"
  define h where "h = hit pfx pat"
  define pin where "pin = (tx_isolation t \<noteq> READ_COMMITTED)"
  define its where "its = om_lower_bound pfx (tx_items t)"
  define sts where "sts = om_lower_bound pfx (m_data s)"
  define before where "before = takeWhile (\<lambda>(a, _). a < pfx) (tx_items t)"
  have all: "om_lower_bound [] m = m" for m :: "(string, 'a) omap"
    by (cases m) (auto simp: om_lower_bound_def)
  obtain rt its' pins d where w: "merge_loop pfx pat pin its sts = (rt, its', pins, d)"
    by (cases "merge_loop pfx pat pin its sts")
  let ?t1 = "t\<lparr>tx_items := before @ its', tx_dirty := (tx_dirty t \<or> d)\<rparr>"
  let ?items = "fold (\<lambda>(k, v). om_emplace k (A_READ, Some v)) pins (before @ its')"
  have "for_each_internal s p t =
      (rt, fold (\<lambda>(k, v). emplace_item k (A_READ, Some v)) pins ?t1)"
    using w all[of "tx_items t"] all[of "m_data s"] split_lower_bound[of "tx_items t" pfx]
    unfolding for_each_internal_def Let_def effective_pattern_def[symmetric] pat_def[symmetric]
      pfx_def[symmetric] pin_def[symmetric]
    by (cases "pfx = []") (simp_all add: its_def sts_def before_def)
  then have t': "ret = rt" "t' = ?t1\<lparr>tx_items := ?items\<rparr>"
    using assms(3) by (simp_all add: fold_emplace_fields)
  have split: "tx_items t = before @ its" "om_wf before" "om_wf its" "om_wf sts"
    using om_split[of pfx "tx_items t"] assms(1,2) om_wf_append[of before its]
    by (auto simp: before_def its_def sts_def om_lower_bound_def intro: om_wf_dropWhile)
  have nohit: "\<not> h x" if "x \<in> fst ` set before" for x
    using takeWhile_below that hit_ge unfolding before_def h_def by (metis leD)
  have look_its: "map_of its x = map_of (tx_items t) x" if "h x" for x
  proof -
    have "map_of before x = None" using nohit that by (metis map_of_eq_None_iff)
    then show ?thesis by (simp add: split(1) map_add_def)
  qed
  have look_sts: "map_of sts x = map_of (m_data s) x" if "h x" for x
  proof -
    have "map_of (takeWhile (\<lambda>(a, _). a < pfx) (m_data s)) x = None"
      using takeWhile_below that hit_ge unfolding h_def by (metis leD map_of_eq_None_iff)
    moreover have "map_of (takeWhile (\<lambda>(a, _). a < pfx) (m_data s) @ sts) x = map_of (m_data s) x"
      unfolding sts_def om_split ..
    ultimately show ?thesis by (simp add: map_add_def)
  qed
  have "\<forall>k \<in> fst ` set its. pfx \<le> k" "\<forall>k \<in> fst ` set sts. pfx \<le> k"
    using lower_bound_ge assms(1,2) unfolding its_def sts_def by blast+
  from merge_loop_ok[OF split(3,4) this, of pat pin]
  have W: "its' = visit_all h its"
      "d \<longleftrightarrow> (\<exists>k e. (k, e) \<in> set its \<and> h k \<and> fst e = A_SNAPSHOT)"
      "set pins = (if pin then {(k, v) \<in> set sts. h k \<and> k \<notin> fst ` set its} else {})"
      "\<And>k v. (k, v) \<in> set rt \<longleftrightarrow> h k \<and> seen (map_of its k) (map_of sts k) = Some v"
      "sorted_wrt (<) (map fst rt)"
    by (simp_all add: walk_ok_def w h_def)
  have ph: "pattern_hit p x = h x" for x by (simp add: pattern_hit_def h_def pfx_def pat_def)
  show "sorted_wrt (<) (map fst ret)" using W(5) t'(1) by simp
  show "(k, v) \<in> set ret \<longleftrightarrow>
      pattern_hit p k \<and> seen (map_of (tx_items t) k) (map_of (m_data s) k) = Some v"
    using W(4)[of k v] look_its[of k] look_sts[of k] t'(1) ph by auto
  have vis: "before @ its' = visit_all h (tx_items t)"
    using visit_all_none[of before h] nohit by (simp add: split(1) W(1))
  have wf1: "om_wf (before @ its')" unfolding vis om_wf_visit_all by (rule assms(1))
  have "\<forall>(x, u) \<in> set pins. map_of sts x = Some u"
    using W(3) split(4) by (auto simp: map_of_om_mem split: if_splits)
  note E = fold_emplace_items[OF wf1 this]
  show "om_wf (tx_items t')" using E t'(2) by simp
  have keys: "x \<in> fst ` set pins \<longleftrightarrow> pin \<and> h x \<and> map_of sts x \<noteq> None" if "map_of (tx_items t) x = None" for x
  proof -
    have "h x \<Longrightarrow> x \<notin> fst ` set its" using look_its that by (metis map_of_eq_None_iff)
    then show ?thesis unfolding W(3) by (force simp: map_of_eq_None_iff)
  qed
  have "map_of (tx_items t') k =
      (case map_of (visit_all h (tx_items t)) k of
         Some e \<Rightarrow> Some e
       | None \<Rightarrow> if k \<in> fst ` set pins then Some (A_READ, map_of sts k) else None)"
    using E[of k] t'(2) vis by simp
  then show "map_of (tx_items t') k =
       walked_item (tx_isolation t \<noteq> READ_COMMITTED) (pattern_hit p k)
         (map_of (tx_items t) k) (map_of (m_data s) k)"
    using keys[of k] look_sts[of k]
    by (auto simp: map_of_visit_all walked_item_def ph pin_def split: option.splits)
  have "(k, e) \<in> set its \<and> h k \<longleftrightarrow> map_of (tx_items t) k = Some e \<and> h k" for k e
    using look_its[of k] map_of_om_mem[OF split(3), of k e] by auto
  then have "(\<exists>k e. (k, e) \<in> set its \<and> h k \<and> fst e = A_SNAPSHOT) \<longleftrightarrow>
      (\<exists>k e. map_of (tx_items t) k = Some e \<and> h k \<and> fst e = A_SNAPSHOT)"
    by blast
  then show "tx_dirty t' \<longleftrightarrow> tx_dirty t \<or>
       (\<exists>k e. map_of (tx_items t) k = Some e \<and> pattern_hit p k \<and> fst e = A_SNAPSHOT)"
    using t'(2) W(2) ph by simp
  show "t' = t\<lparr>tx_items := tx_items t', tx_dirty := tx_dirty t'\<rparr>" using t'(2) by simp
qed

end
