(* ===== verification/Nplex_Transaction_Spec.thy ===== *)
theory Nplex_Transaction_Spec
  imports Nplex_Walk Nplex_Store_Spec
begin

text \<open>
  What a transaction promises to its user: well-formed items, a fixed view under
  \<open>SERIALIZABLE\<close>, repeated reads, and a dirty flag that is raised whenever something the items rely
  on has changed.  Every operation is shown to be a sequence of a few primitive effects on the
  items, and each invariant is then checked on those effects once.
\<close>

section \<open>Primitive effects\<close>

text \<open>\<open>touch s W t t'\<close>: one effect of a user operation on store \<open>s\<close> that writes keys of \<open>W\<close> only.\<close>

inductive touch :: "store \<Rightarrow> string set \<Rightarrow> tx \<Rightarrow> tx \<Rightarrow> bool" for s W where
  touch_ensure: "touch s W t (t\<lparr>tx_ensures := om_emplace p () (tx_ensures t)\<rparr>)"
| touch_dirty: "touch s W t (t\<lparr>tx_dirty := True\<rparr>)"
| touch_pin:
    "tx_isolation t \<noteq> READ_COMMITTED \<Longrightarrow> map_of (tx_items t) k = None \<Longrightarrow>
       map_of (m_data s) k = v \<Longrightarrow> touch s W t (emplace_item k (A_READ, v) t)"
| touch_unfreeze:
    "map_of (tx_items t) k = Some (A_SNAPSHOT, v) \<Longrightarrow>
       touch s W t ((put_item k (A_READ, v) t)\<lparr>tx_dirty := True\<rparr>)"
| touch_upsert:
    "k \<in> W \<Longrightarrow> \<not> tx_read_only t \<Longrightarrow> is_valid_key k \<Longrightarrow> d \<noteq> [] \<Longrightarrow>
       \<not> denied t CRUD_CREATE k \<or> \<not> denied t CRUD_UPDATE k \<Longrightarrow>
       touch s W t (put_item k (A_UPSERT, Some \<lparr>v_data = d, v_meta = None\<rparr>) t)"
| touch_remove:
    "k \<in> W \<Longrightarrow> \<not> tx_read_only t \<Longrightarrow> is_valid_key k \<Longrightarrow> \<not> denied t CRUD_DELETE k \<Longrightarrow>
       touch s W t (put_item k (A_DELETE, None) t)"

abbreviation touches :: "store \<Rightarrow> string set \<Rightarrow> tx \<Rightarrow> tx \<Rightarrow> bool" where
  "touches s W \<equiv> (touch s W)\<^sup>*\<^sup>*"

lemma touches_one: "touch s W t u \<Longrightarrow> touches s W t u"
  by (rule r_into_rtranclp)

lemma touches_two: "touch s W t u \<Longrightarrow> touches s W u v \<Longrightarrow> touches s W t v"
  by (rule converse_rtranclp_into_rtranclp)

lemma touch_mono: "touch s V t u \<Longrightarrow> V \<subseteq> W \<Longrightarrow> touch s W t u"
  by (induction rule: touch.induct) (auto intro: touch.intros)

lemma touches_mono: "touches s V t u \<Longrightarrow> V \<subseteq> W \<Longrightarrow> touches s W t u"
  by (induction rule: rtranclp_induct) (auto intro: touch_mono rtranclp.rtrancl_into_rtrancl)

lemma emplace_absent:
  "map_of (tx_items t) k = None \<Longrightarrow> emplace_item k e t = put_item k e t"
proof -
  have "om_emplace k e m = om_put k e m" if "map_of m k = None" for m :: "(string, entry) omap"
    using that by (induction k e m rule: om_emplace.induct) (auto split: if_splits)
  then show "map_of (tx_items t) k = None \<Longrightarrow> ?thesis" by (simp add: emplace_item_def put_item_def)
qed

subsection \<open>The operations are made of them\<close>

lemma ensure_touches: "ensure p t = (r, t') \<Longrightarrow> touches s W t t'"
  by (auto simp: ensure_def split: option.splits if_splits intro: touches_one touch_ensure)

lemma ensure_if_touches: "touches s W t (ensure_if b k t)"
  using ensure_touches[of "Some k" t "fst (ensure (Some k) t)"]
  by (simp add: ensure_if_def)

lemma read_snapshot_touches:
  "map_of (tx_items t) k = Some e \<Longrightarrow> touches s W t (read_snapshot k e t)"
  by (cases e) (auto simp: read_snapshot_def intro: touches_one touch_unfreeze)

lemma pin_touches:
  "tx_isolation t \<noteq> READ_COMMITTED \<Longrightarrow> map_of (tx_items t) k = None \<Longrightarrow>
     map_of (m_data s) k = v \<Longrightarrow> touches s W t (emplace_item k (A_READ, v) t)"
  by (intro touches_one touch_pin)

lemma read_item_touches:
  assumes "map_of (tx_items t) k = Some e" "read_item k ens e t = (r, t')"
  shows "touches s W t t'"
proof -
  have "t' = t \<or> t' = ensure_if ens k (read_snapshot k e t)"
    using assms(2) by (auto simp: read_item_def split: if_splits option.splits)
  moreover have "touches s W t (ensure_if ens k (read_snapshot k e t))"
    by (rule rtranclp_trans[OF read_snapshot_touches[OF assms(1)] ensure_if_touches])
  ultimately show ?thesis by auto
qed

lemma read_store_touches:
  assumes "map_of (tx_items t) k = None" "read_store s k ens t = (r, t')"
  shows "touches s W t t'"
proof -
  let ?u = "if tx_isolation t \<noteq> READ_COMMITTED then emplace_item k (A_READ, map_of (m_data s) k) t else t"
  have "touches s W t ?u" using pin_touches[OF _ assms(1)] by simp
  moreover have "t' = ?u \<or> t' = ensure_if ens k ?u"
    using assms(2) by (cases "map_of (m_data s) k") (auto simp: read_store_def)
  ultimately show ?thesis using rtranclp_trans[OF _ ensure_if_touches] by auto
qed

lemma read_touches:
  assumes "read s key ens t = (r, t')"
  shows "touches s W t t'"
proof (cases "\<not> is_valid_key_ptr key \<or> tx_state t \<noteq> OPEN")
  case True
  with assms show ?thesis by (auto simp: read_def split: if_split_asm)
next
  case False
  with assms show ?thesis
    by (cases "map_of (tx_items t) (c_str (the key))")
      (auto simp: read_def Let_def intro: read_item_touches read_store_touches)
qed

lemma valid_key_c_str: "is_valid_key_ptr key \<Longrightarrow> is_valid_key (c_str (the key))"
  by (auto simp: is_valid_key_ptr_def split: option.splits)

lemma upsert_item_touches:
  assumes "upsert_item k d force e t = (r, t')" "k \<in> W" "is_valid_key k" "d \<noteq> []" "\<not> tx_read_only t"
  shows "touches s W t t'"
proof -
  let ?t1 = "if fst e = A_SNAPSHOT then t\<lparr>tx_dirty := True\<rparr> else t"
  show ?thesis
  proof (cases "denied t CRUD_UPDATE k")
    case True
    with assms(1) show ?thesis by (simp add: upsert_item_def)
  next
    case False
    have one: "touches s W t ?t1" by (auto intro: touches_one touch_dirty)
    have "touch s W ?t1 (put_item k (A_UPSERT, Some \<lparr>v_data = d, v_meta = None\<rparr>) ?t1)"
      using assms(2-5) False by (intro touch_upsert) (auto simp: denied_def)
    with one have two: "touches s W t (put_item k (A_UPSERT, Some \<lparr>v_data = d, v_meta = None\<rparr>) ?t1)"
      by (rule rtranclp.rtrancl_into_rtrancl)
    have "t' = t \<or> t' = ?t1 \<or> t' = put_item k (A_UPSERT, Some \<lparr>v_data = d, v_meta = None\<rparr>) ?t1"
      using assms(1) by (simp add: upsert_item_def Let_def split: if_split_asm)
    with one two show ?thesis by blast
  qed
qed

lemma upsert_store_touches:
  assumes "upsert_store s k d force t = (r, t')" "map_of (tx_items t) k = None"
    and "k \<in> W" "is_valid_key k" "d \<noteq> []" "\<not> tx_read_only t"
  shows "touches s W t t'"
proof -
  let ?new = "(A_UPSERT, Some \<lparr>v_data = d, v_meta = None\<rparr>)"
  have "touches s W t (emplace_item k ?new t)"
    if "\<not> denied t CRUD_CREATE k \<or> \<not> denied t CRUD_UPDATE k"
    unfolding emplace_absent[OF assms(2)] using assms(3-6) that by (intro touches_one touch_upsert)
  moreover have "t' = t \<or>
      (t' = emplace_item k ?new t \<and> (\<not> denied t CRUD_CREATE k \<or> \<not> denied t CRUD_UPDATE k)) \<or>
      (tx_isolation t = REPEATABLE_READ \<and> t' = emplace_item k (A_READ, map_of (m_data s) k) t)"
    using assms(1) by (cases "map_of (m_data s) k") (auto simp: upsert_store_def Let_def split: if_split_asm)
  ultimately show ?thesis using pin_touches[OF _ assms(2)] by auto
qed

lemma upsert_internal_touches:
  assumes "upsert_internal s key d force t = (r, t')" "c_str (the key) \<in> W"
  shows "touches s W t t'"
proof (cases "\<not> is_valid_key_ptr key \<or> d = [] \<or> tx_read_only t \<or> tx_state t \<noteq> OPEN")
  case True
  with assms(1) show ?thesis by (auto simp: upsert_internal_def split: if_split_asm)
next
  case False
  with assms valid_key_c_str[of key] show ?thesis
    by (cases "map_of (tx_items t) (c_str (the key))")
      (auto simp: upsert_internal_def Let_def intro: upsert_item_touches upsert_store_touches)
qed

lemma remove_key_touches:
  assumes "remove_key s key t = (r, t')" "key \<in> W"
  shows "touches s W t t'"
proof (cases "\<not> is_valid_key key \<or> tx_read_only t \<or> denied t CRUD_DELETE key")
  case True
  with assms(1) show ?thesis by (auto simp: remove_key_def split: if_split_asm)
next
  case False
  then have del: "touches s W t (put_item key (A_DELETE, None) t)"
    using assms(2) by (intro touches_one touch_remove) auto
  show ?thesis
  proof (cases "map_of (tx_items t) key")
    case None
    then have "t' = t \<or> t' = emplace_item key (A_DELETE, None) t"
      using assms(1) by (auto simp: remove_key_def split: if_split_asm option.splits)
    with del None show ?thesis by (auto simp: emplace_absent)
  next
    case (Some e)
    then have "t' = t \<or> t' = put_item key (A_DELETE, None) t"
      using assms(1) by (auto simp: remove_key_def remove_item_def split: if_split_asm)
    with del show ?thesis by auto
  qed
qed


subsection \<open>The walks\<close>

lemma om_put_middle: "om_wf (a @ (k, e) # b) \<Longrightarrow> om_put k f (a @ (k, e) # b) = a @ (k, f) # b"
  by (induction a) (auto simp: om_wf_Cons om_wf_append)

lemma visit_touches:
  assumes "om_wf (a @ b)" "tx_items t = a @ b" "d \<longleftrightarrow> (\<exists>k e. (k, e) \<in> set b \<and> h k \<and> fst e = A_SNAPSHOT)"
  shows "touches s W t (t\<lparr>tx_items := a @ visit_all h b, tx_dirty := (tx_dirty t \<or> d)\<rparr>)"
  using assms
proof (induction b arbitrary: a t d)
  case Nil
  then show ?case by (cases t) simp
next
  case (Cons x b)
  obtain k e where x: "x = (k, e)" by (rule prod.exhaust)
  define e' where "e' = (if h k then visit_entry e else e)"
  define hot where "hot \<longleftrightarrow> h k \<and> fst e = A_SNAPSHOT"
  define rest where "rest \<longleftrightarrow> (\<exists>k e. (k, e) \<in> set b \<and> h k \<and> fst e = A_SNAPSHOT)"
  let ?u = "t\<lparr>tx_items := a @ (k, e') # b, tx_dirty := (tx_dirty t \<or> hot)\<rparr>"
  have "(\<exists>j f. (j, f) \<in> set (x # b) \<and> h j \<and> fst f = A_SNAPSHOT) \<longleftrightarrow> hot \<or> rest"
    unfolding x hot_def rest_def set_simps insert_iff prod.inject by blast
  then have d: "d \<longleftrightarrow> hot \<or> rest" using Cons.prems(3) by simp
  have wf: "om_wf (a @ (k, e) # b)" using Cons.prems(1) by (simp add: x)
  then have wf': "om_wf ((a @ [(k, e')]) @ b)" by (simp add: om_wf_append om_wf_Cons)
  have mem: "map_of (tx_items t) k = Some e"
    using Cons.prems(1,2) map_of_om_mem[OF Cons.prems(1), of k e] by (simp add: x)
  have one: "touches s W t ?u"
  proof (cases hot)
    case True
    then have e: "e = (A_SNAPSHOT, snd e)" "e' = (A_READ, snd e)"
      by (auto simp: hot_def e'_def visit_entry_def prod_eq_iff)
    have "?u = (put_item k (A_READ, snd e) t)\<lparr>tx_dirty := True\<rparr>"
      using True om_put_middle[OF wf] Cons.prems(2) e(2) by (simp add: put_item_def x)
    moreover have "touch s W t ((put_item k (A_READ, snd e) t)\<lparr>tx_dirty := True\<rparr>)"
      using mem e(1) by (intro touch_unfreeze[of _ _ "snd e"]) simp
    ultimately show ?thesis by (simp add: touches_one)
  next
    case False
    then have "e' = e" by (auto simp: hot_def e'_def visit_entry_def)
    then have "?u = t" using False Cons.prems(2) by (simp add: x)
    then show ?thesis by simp
  qed
  have "touches s W ?u (?u\<lparr>tx_items := (a @ [(k, e')]) @ visit_all h b, tx_dirty := (tx_dirty ?u \<or> rest)\<rparr>)"
    by (rule Cons.IH[OF wf']) (simp_all add: rest_def)
  with one show ?case by (simp add: x d e'_def disj_ac)
qed

lemma om_emplace_present: "om_wf m \<Longrightarrow> map_of m k = Some e \<Longrightarrow> om_emplace k f m = m"
  by (induction k f m rule: om_emplace.induct)
    (auto simp: om_wf_Cons map_of_less_None split: if_splits)

lemma pins_touches:
  assumes "om_wf (tx_items t)" "tx_isolation t \<noteq> READ_COMMITTED" "\<forall>(k, v) \<in> set ps. map_of (m_data s) k = Some v"
  shows "touches s W t (fold (\<lambda>(k, v). emplace_item k (A_READ, Some v)) ps t)"
  using assms
proof (induction ps arbitrary: t)
  case Nil
  then show ?case by simp
next
  case (Cons p ps)
  obtain k v where p: "p = (k, v)" by fastforce
  have "touches s W t (emplace_item k (A_READ, Some v) t)"
  proof (cases "map_of (tx_items t) k")
    case None
    then show ?thesis using Cons.prems by (intro pin_touches) (auto simp: p)
  next
    case (Some e)
    then have "emplace_item k (A_READ, Some v) t = t"
      using Cons.prems(1) by (simp add: emplace_item_def om_emplace_present)
    then show ?thesis by simp
  qed
  moreover have "touches s W (emplace_item k (A_READ, Some v) t)
      (fold (\<lambda>(k, v). emplace_item k (A_READ, Some v)) ps (emplace_item k (A_READ, Some v) t))"
    using Cons.prems by (intro Cons.IH) (auto simp: emplace_item_def om_wf_emplace)
  ultimately show ?case by (simp add: p)
qed


lemma for_each_internal_touches:
  assumes wf: "om_wf (tx_items t)" "om_wf (m_data s)" and run: "for_each_internal s p t = (ret, t')"
  shows "touches s W t t'"
proof -
  let ?h = "pattern_hit p"
  define pin where "pin \<longleftrightarrow> tx_isolation t \<noteq> READ_COMMITTED"
  define d where "d \<longleftrightarrow> (\<exists>k e. (k, e) \<in> set (tx_items t) \<and> ?h k \<and> fst e = A_SNAPSHOT)"
  define u where "u = t\<lparr>tx_items := visit_all ?h (tx_items t), tx_dirty := (tx_dirty t \<or> d)\<rparr>"
  define ps where "ps = (if pin then filter (\<lambda>(k, v). ?h k \<and> map_of (tx_items t) k = None) (m_data s) else [])"
  note spec = for_each_internal_spec[OF wf run]
  have wfu: "om_wf (tx_items u)" using wf(1) by (simp add: u_def om_wf_visit_all)
  have one: "touches s W t u"
    using visit_touches[of "[]" "tx_items t" t d ?h s W] wf(1) by (simp add: u_def d_def)
  have vals: "\<forall>(k, v) \<in> set ps. map_of (m_data s) k = Some v"
    using map_of_om_mem[OF wf(2)] by (auto simp: ps_def)
  note E = fold_emplace_items[OF wfu vals]
  have two: "touches s W u (fold (\<lambda>(k, v). emplace_item k (A_READ, Some v)) ps u)"
  proof (cases pin)
    case True
    then show ?thesis using wfu vals by (intro pins_touches) (auto simp: u_def pin_def)
  next
    case False
    then show ?thesis by (simp add: ps_def)
  qed
  have keys: "x \<in> fst ` set ps \<longleftrightarrow> pin \<and> ?h x \<and> map_of (tx_items t) x = None \<and> map_of (m_data s) x \<noteq> None" for x
    by (cases pin) (force simp: ps_def map_of_eq_None_iff)+
  have "map_of (tx_items t') x = map_of (fold (\<lambda>(k, v). om_emplace k (A_READ, Some v)) ps (tx_items u)) x" for x
    unfolding spec(4)[of x] using E[of x] keys[of x]
    by (auto simp: u_def map_of_visit_all walked_item_def pin_def split: option.splits)
  then have items: "tx_items t' = fold (\<lambda>(k, v). om_emplace k (A_READ, Some v)) ps (tx_items u)"
    using spec(3) E by (intro om.entries_determined) auto
  have dirty: "tx_dirty t' = tx_dirty u"
    using spec(5) map_of_om_mem[OF wf(1)] by (auto simp: u_def d_def)
  have "t' = fold (\<lambda>(k, v). emplace_item k (A_READ, Some v)) ps u"
    by (subst spec(6)) (simp add: items dirty fold_emplace_fields(2) u_def)
  with one two show ?thesis by auto
qed

section \<open>Invariants of the items\<close>

text \<open>
  What an item says: reads are kept unless the isolation is \<open>READ_COMMITTED\<close>, pre-images are pinned
  only under \<open>SERIALIZABLE\<close>, writes are of valid keys the user may write, carry data without metadata, and never
  occur in a read-only transaction.
\<close>

definition entry_ok :: "tx \<Rightarrow> string \<Rightarrow> entry \<Rightarrow> bool" where
  "entry_ok t k e \<longleftrightarrow>
     (case fst e of
        A_READ \<Rightarrow> tx_isolation t \<noteq> READ_COMMITTED
      | A_SNAPSHOT \<Rightarrow> tx_isolation t = SERIALIZABLE
      | A_UPSERT \<Rightarrow>
          \<not> tx_read_only t \<and> is_valid_key k \<and>
          (\<not> denied t CRUD_CREATE k \<or> \<not> denied t CRUD_UPDATE k) \<and> (\<exists>d. d \<noteq> [] \<and> snd e = Some \<lparr>v_data = d, v_meta = None\<rparr>)
      | A_DELETE \<Rightarrow>
          \<not> tx_read_only t \<and> is_valid_key k \<and> \<not> denied t CRUD_DELETE k \<and> snd e = None)"

definition tx_wf :: "tx \<Rightarrow> bool" where
  "tx_wf t \<longleftrightarrow> om_wf (tx_items t) \<and> om_wf (tx_ensures t) \<and>
     (\<forall>k e. map_of (tx_items t) k = Some e \<longrightarrow> entry_ok t k e)"

text \<open>The writes of a transaction are to keys of \<open>W\<close>.\<close>

definition writes_in :: "string set \<Rightarrow> tx \<Rightarrow> bool" where
  "writes_in W t \<longleftrightarrow>
     (\<forall>k e. map_of (tx_items t) k = Some e \<and> is_modification e \<longrightarrow> k \<in> W)"

text \<open>The items hold the content \<open>M0\<close> wherever the transaction did not write, \<open>M\<close> being current.\<close>

definition view_ok :: "(string \<rightharpoonup> val) \<Rightarrow> (string \<rightharpoonup> val) \<Rightarrow> tx \<Rightarrow> bool" where
  "view_ok M0 M t \<longleftrightarrow>
     (\<forall>k. case map_of (tx_items t) k of
            None \<Rightarrow> M k = M0 k
          | Some e \<Rightarrow> \<not> is_modification e \<longrightarrow> snd e = M0 k)"

text \<open>Without dirt every recorded read is still the current content.\<close>

definition reads_current :: "(string \<rightharpoonup> val) \<Rightarrow> tx \<Rightarrow> bool" where
  "reads_current M t \<longleftrightarrow>
     tx_dirty t \<or> (\<forall>k v. map_of (tx_items t) k = Some (A_READ, v) \<longrightarrow> M k = v)"

text \<open>The item of \<open>k\<close> answers \<open>v\<close> to a reader.\<close>

definition answers :: "string \<Rightarrow> val option \<Rightarrow> tx \<Rightarrow> bool" where
  "answers k v t \<longleftrightarrow>
     (\<exists>e. map_of (tx_items t) k = Some e \<and> (if fst e = A_DELETE then None else snd e) = v)"

lemmas item_defs = put_item_def emplace_item_def is_modification_def

lemma put_item_lookup:
  "om_wf (tx_items t) \<Longrightarrow> map_of (tx_items (put_item k e t)) = (map_of (tx_items t))(k \<mapsto> e)"
  by (simp add: put_item_def map_of_om_put)

lemma put_item_fields [simp]:
  "tx_isolation (put_item k e t) = tx_isolation t" "tx_read_only (put_item k e t) = tx_read_only t"
  "tx_dirty (put_item k e t) = tx_dirty t" "tx_state (put_item k e t) = tx_state t"
  "tx_ensures (put_item k e t) = tx_ensures t" "tx_user (put_item k e t) = tx_user t"
  "tx_promise (put_item k e t) = tx_promise t" "tx_past (put_item k e t) = tx_past t"
  "tx_rev_creation (put_item k e t) = tx_rev_creation t" "tx_type (put_item k e t) = tx_type t"
  by (simp_all add: put_item_def)

lemma put_item_wf: "om_wf (tx_items t) \<Longrightarrow> om_wf (tx_items (put_item k e t))"
  by (simp add: put_item_def om_wf_put)

text \<open>What no operation on items changes.\<close>

definition same_frame :: "tx \<Rightarrow> tx \<Rightarrow> bool" where
  "same_frame t u \<longleftrightarrow>
     tx_isolation u = tx_isolation t \<and> tx_read_only u = tx_read_only t \<and> tx_state u = tx_state t \<and>
     tx_type u = tx_type t \<and> tx_rev_creation u = tx_rev_creation t \<and> tx_user u = tx_user t \<and>
     tx_promise u = tx_promise t \<and> tx_past u = tx_past t \<and> (tx_dirty t \<longrightarrow> tx_dirty u)"

lemma touch_frame: "touch s W t u \<Longrightarrow> same_frame t u"
  by (induction rule: touch.induct) (simp_all add: same_frame_def emplace_item_def put_item_def)

lemma touches_frame: "touches s W t u \<Longrightarrow> same_frame t u"
  by (induction rule: rtranclp_induct) (auto dest!: touch_frame simp: same_frame_def)

lemma entry_ok_frame: "same_frame t u \<Longrightarrow> entry_ok u k e = entry_ok t k e"
  by (simp add: same_frame_def entry_ok_def denied_def split: item_action.split)

lemma tx_wf_put: "tx_wf t \<Longrightarrow> entry_ok t k e \<Longrightarrow> tx_wf (put_item k e t)"
proof -
  assume t: "tx_wf t" and e: "entry_ok t k e"
  have f: "entry_ok (put_item k e t) j x = entry_ok t j x" for j x
    by (rule entry_ok_frame) (simp add: same_frame_def)
  from t e show ?thesis unfolding tx_wf_def by (auto simp: put_item_wf put_item_lookup f)
qed

lemma tx_wf_frame:
  "tx_wf t \<Longrightarrow> same_frame t u \<Longrightarrow> tx_items u = tx_items t \<Longrightarrow> om_wf (tx_ensures u) \<Longrightarrow> tx_wf u"
  using entry_ok_frame[of t u] by (simp add: tx_wf_def)

lemma touch_wf: "touch s W t u \<Longrightarrow> tx_wf t \<Longrightarrow> tx_wf u"
proof (induction rule: touch.induct)
  case (touch_ensure t p)
  then show ?case
    by - (rule tx_wf_frame[of t], simp_all add: same_frame_def tx_wf_def om_wf_emplace)
next
  case (touch_dirty t)
  then show ?case by - (rule tx_wf_frame[of t], simp_all add: same_frame_def tx_wf_def)
next
  case (touch_pin t k v)
  then show ?case unfolding emplace_absent[OF touch_pin(2)]
    by - (rule tx_wf_put, simp_all add: entry_ok_def)
next
  case (touch_unfreeze t k v)
  then have "entry_ok t k (A_SNAPSHOT, v)" by (simp add: tx_wf_def)
  then have "tx_wf (put_item k (A_READ, v) t)" using touch_unfreeze(2) by (intro tx_wf_put[of t]) (auto simp: entry_ok_def)
  then show ?case
    by (rule tx_wf_frame) (simp_all add: same_frame_def, simp add: \<open>tx_wf t\<close>[unfolded tx_wf_def])
next
  case (touch_upsert k t d)
  then show ?case by - (rule tx_wf_put, simp_all add: entry_ok_def)
next
  case (touch_remove k t)
  then show ?case by - (rule tx_wf_put, simp_all add: entry_ok_def)
qed


lemma tx_wf_items: "tx_wf t \<Longrightarrow> om_wf (tx_items t)"
  by (simp add: tx_wf_def)

lemma touch_writes_in: "touch s W t u \<Longrightarrow> tx_wf t \<Longrightarrow> writes_in W t \<Longrightarrow> writes_in W u"
  by (induction rule: touch.induct)
    (auto simp: writes_in_def emplace_absent put_item_lookup[OF tx_wf_items] is_modification_def
      split: if_split_asm)

lemma touch_view:
  "touch s W t u \<Longrightarrow> tx_wf t \<Longrightarrow> view_ok M0 (map_of (m_data s)) t \<Longrightarrow> view_ok M0 (map_of (m_data s)) u"
proof (induction rule: touch.induct)
  case (touch_pin t k v)
  from touch_pin(5) have "map_of (m_data s) k = M0 k" using touch_pin(2)
    unfolding view_ok_def by (auto dest: spec[of _ k])
  then show ?case unfolding emplace_absent[OF touch_pin(2)] using touch_pin(3,5)
    by (simp add: view_ok_def put_item_lookup[OF tx_wf_items[OF touch_pin(4)]])
next
  case (touch_unfreeze t k v)
  from touch_unfreeze(3) have "v = M0 k" using touch_unfreeze(1)
    unfolding view_ok_def is_modification_def by (auto dest: spec[of _ k])
  then show ?case using touch_unfreeze(3)
    by (simp add: view_ok_def put_item_lookup[OF tx_wf_items[OF touch_unfreeze(2)]])
next
  case (touch_upsert k t d)
  then show ?case
    by (simp add: view_ok_def put_item_lookup[OF tx_wf_items[OF touch_upsert(6)]] is_modification_def)
next
  case (touch_remove k t)
  then show ?case
    by (simp add: view_ok_def put_item_lookup[OF tx_wf_items[OF touch_remove(5)]] is_modification_def)
qed (simp_all add: view_ok_def)

lemma touch_reads_current:
  "touch s W t u \<Longrightarrow> tx_wf t \<Longrightarrow> reads_current (map_of (m_data s)) t \<Longrightarrow>
     reads_current (map_of (m_data s)) u"
  by (induction rule: touch.induct)
    (auto simp: reads_current_def emplace_absent put_item_lookup[OF tx_wf_items])

lemma touch_answers:
  "touch s W t u \<Longrightarrow> tx_wf t \<Longrightarrow> k \<notin> W \<Longrightarrow> answers k v t \<Longrightarrow> answers k v u"
  by (induction rule: touch.induct)
    (auto simp: answers_def emplace_absent put_item_lookup[OF tx_wf_items])

lemmas touch_keeps = touch_wf touch_writes_in touch_view touch_reads_current touch_answers

lemma touches_keep:
  assumes "touches s W t u" "tx_wf t"
  shows "tx_wf u" "writes_in W t \<Longrightarrow> writes_in W u"
    "view_ok M0 (map_of (m_data s)) t \<Longrightarrow> view_ok M0 (map_of (m_data s)) u"
    "reads_current (map_of (m_data s)) t \<Longrightarrow> reads_current (map_of (m_data s)) u"
    "k \<notin> W \<Longrightarrow> answers k v t \<Longrightarrow> answers k v u"
proof -
  have "tx_wf u \<and> (writes_in W t \<longrightarrow> writes_in W u) \<and>
      (view_ok M0 (map_of (m_data s)) t \<longrightarrow> view_ok M0 (map_of (m_data s)) u) \<and>
      (reads_current (map_of (m_data s)) t \<longrightarrow> reads_current (map_of (m_data s)) u) \<and>
      (k \<notin> W \<and> answers k v t \<longrightarrow> answers k v u)"
    using assms
  proof (induction rule: rtranclp_induct)
    case base
    then show ?case by simp
  next
    case (step u x)
    from touch_keeps[OF step.hyps(2)] step.IH step.prems show ?case by meson
  qed
  then show "tx_wf u" "writes_in W t \<Longrightarrow> writes_in W u"
    "view_ok M0 (map_of (m_data s)) t \<Longrightarrow> view_ok M0 (map_of (m_data s)) u"
    "reads_current (map_of (m_data s)) t \<Longrightarrow> reads_current (map_of (m_data s)) u"
    "k \<notin> W \<Longrightarrow> answers k v t \<Longrightarrow> answers k v u"
    by blast+
qed


subsection \<open>Operations on patterns\<close>

lemma for_each_loop_touches:
  assumes "\<And>k v u r u'. (k, v) \<in> set kvs \<Longrightarrow> tx_wf u \<Longrightarrow> cb k v u = (r, u') \<Longrightarrow> touches s W u u'"
    and "tx_wf t" "for_each_loop cb kvs n t = (r, t')"
  shows "touches s W t t'"
  using assms
proof (induction cb kvs n t arbitrary: r rule: for_each_loop.induct)
  case (1 cb n t)
  then show ?case by simp
next
  case (2 cb k v kvs n t)
  obtain q u where c: "cb k v t = (q, u)" by (rule prod.exhaust)
  have one: "touches s W t u" using "2.prems"(1)[OF _ "2.prems"(2) c] by simp
  show ?case
  proof (cases "q = Inr True")
    case True
    with "2.prems"(3) c have "for_each_loop cb kvs (n + 1) u = (r, t')" by simp
    then have "touches s W u t'"
      by (rule "2.IH"[OF c[symmetric] True TrueI, rotated 2]) (rule "2.prems"(1), simp_all add: touches_keep(1)[OF one "2.prems"(2)])
    with one show ?thesis by (rule rtranclp_trans)
  next
    case False
    with "2.prems"(3) c have "t' = u" by (auto split: sum.splits if_split_asm)
    with one show ?thesis by simp
  qed
qed

lemma for_each_touches:
  assumes wf: "tx_wf t" "om_wf (m_data s)"
    and cb: "\<And>k v f u r u'. cb = Some f \<Longrightarrow> pattern_hit p k \<Longrightarrow> tx_wf u \<Longrightarrow> f k v u = (r, u') \<Longrightarrow> touches s W u u'"
    and run: "for_each s p cb t = (r, t')"
  shows "touches s W t t'"
proof (cases "\<exists>f q. cb = Some f \<and> p = Some q \<and> c_str q \<noteq> [] \<and> tx_state t = OPEN")
  case False
  then consider "cb = None" | "p = None" | q where "p = Some q" "c_str q = []" | "tx_state t \<noteq> OPEN"
    by (cases cb; cases p) auto
  then show ?thesis
    using run by cases (auto simp: for_each_def split: option.splits if_split_asm)
next
  case True
  then obtain f q where fq: "cb = Some f" "p = Some q" "c_str q \<noteq> []" "tx_state t = OPEN" by blast
  obtain kvs u where w: "for_each_internal s p t = (kvs, u)" by (rule prod.exhaust)
  note spec = for_each_internal_spec(2)[OF tx_wf_items[OF wf(1)] wf(2) w]
  have one: "touches s W t u" by (rule for_each_internal_touches[OF tx_wf_items[OF wf(1)] wf(2) w])
  have "for_each_loop f kvs 0 u = (r, t')" using run fq w by (simp add: for_each_def)
  then have "touches s W u t'"
  proof (rule for_each_loop_touches[rotated 2])
    show "tx_wf u" by (rule touches_keep(1)[OF one wf(1)])
    fix k v x q x'
    assume "(k, v) \<in> set kvs" "tx_wf x" "f k v x = (q, x')"
    with spec cb[OF fq(1)] show "touches s W x x'" by blast
  qed
  with one show ?thesis by (rule rtranclp_trans)
qed

lemma remove_pattern_touches:
  assumes "tx_wf t" "om_wf (m_data s)" "remove_pattern s p t = (r, t')"
    and "{k. pattern_hit p k} \<subseteq> W"
  shows "touches s W t t'"
proof (cases "tx_read_only t \<or> tx_state t \<noteq> OPEN")
  case True
  with assms(3) show ?thesis by (auto simp: remove_pattern_def split: if_split_asm)
next
  case False
  with assms(3) have "for_each s p (Some (remove_callback s)) t = (r, t')"
    by (simp add: remove_pattern_def)
  then show ?thesis
  proof (rule for_each_touches[OF assms(1,2), rotated])
    fix k v f u q u'
    assume "Some (remove_callback s) = Some f" "pattern_hit p k" "f k v u = (q, u')"
    then obtain b where "remove_key s k u = (b, u')" "k \<in> W" using assms(4)
      by (auto simp: remove_callback_def bind_op_def split: prod.splits sum.splits)
    then show "touches s W u u'" by (rule remove_key_touches)
  qed
qed


section \<open>Commits of others\<close>

text \<open>Both forms of \<open>update\<close> change items and dirt only, and never an item already there.\<close>

lemma update_default_frame:
  "same_frame t (update_default cs t) \<and> tx_items (update_default cs t) = tx_items t \<and>
   tx_ensures (update_default cs t) = tx_ensures t"
  by (induction cs t rule: update_default.induct) (auto simp: same_frame_def split: option.splits)

lemma update_default_dirty:
  "tx_dirty (update_default cs t) \<longleftrightarrow>
     tx_dirty t \<or> (\<exists>c \<in> set cs. map_of (tx_items t) (ch_key c) \<noteq> None)"
  by (induction cs t rule: update_default.induct) (auto split: option.splits)

lemma update_serializable_frame:
  "same_frame t (update_serializable cs t) \<and> tx_ensures (update_serializable cs t) = tx_ensures t"
  by (induction cs t rule: update_serializable.induct)
    (auto simp: same_frame_def emplace_item_def split: option.splits)

lemma update_serializable_Cons:
  "update_serializable (c # cs) t =
     update_serializable cs
       (if map_of (tx_items t) (ch_key c) = None then put_item (ch_key c) (pre_image c) t
        else t\<lparr>tx_dirty := True\<rparr>)"
  by (auto simp: emplace_absent split: option.splits)

declare update_serializable.simps(2) [simp del]

lemma pre_image_snapshot: "fst (pre_image c) = A_SNAPSHOT"
  by (simp add: pre_image_def split: change_action.split)

lemma pre_image_old: "change_fits M c \<Longrightarrow> pre_image c = (A_SNAPSHOT, M (ch_key c))"
  by (cases "ch_action c") (auto simp: pre_image_def change_fits_def)

lemma tx_wf_snapshot:
  "tx_wf t \<Longrightarrow> tx_isolation t = SERIALIZABLE \<Longrightarrow> tx_wf (put_item k (pre_image c) t)"
  by (rule tx_wf_put) (simp_all add: entry_ok_def pre_image_snapshot)

lemma tx_wf_dirty: "tx_wf t \<Longrightarrow> tx_wf (t\<lparr>tx_dirty := True\<rparr>)"
  by (rule tx_wf_frame[of t]) (simp_all add: same_frame_def tx_wf_def)

lemma update_serializable_wf:
  "tx_wf t \<Longrightarrow> tx_isolation t = SERIALIZABLE \<Longrightarrow> tx_wf (update_serializable cs t)"
  by (induction cs arbitrary: t)
    (simp_all add: update_serializable_Cons tx_wf_snapshot tx_wf_dirty)

lemma update_serializable_items:
  assumes "tx_wf t" "tx_isolation t = SERIALIZABLE"
  shows "map_of (tx_items (update_serializable cs t)) k =
     (case map_of (tx_items t) k of
        Some e \<Rightarrow> Some e
      | None \<Rightarrow> map_option pre_image (find (\<lambda>c. ch_key c = k) cs))"
  using assms
proof (induction cs arbitrary: t)
  case Nil
  then show ?case by (simp split: option.split)
next
  case (Cons c cs)
  note wf = tx_wf_items[OF Cons.prems(1)]
  show ?case
  proof (cases "map_of (tx_items t) (ch_key c)")
    case None
    have "map_of (tx_items (update_serializable cs (put_item (ch_key c) (pre_image c) t))) k =
        (case map_of (tx_items (put_item (ch_key c) (pre_image c) t)) k of
           Some e \<Rightarrow> Some e | None \<Rightarrow> map_option pre_image (find (\<lambda>c. ch_key c = k) cs))"
      using Cons.prems by (intro Cons.IH) (simp_all add: tx_wf_snapshot)
    then show ?thesis using None
      by (cases "ch_key c = k") (simp_all add: update_serializable_Cons put_item_lookup[OF wf] split: option.split)
  next
    case (Some e)
    have "map_of (tx_items (update_serializable cs (t\<lparr>tx_dirty := True\<rparr>))) k =
        (case map_of (tx_items (t\<lparr>tx_dirty := True\<rparr>)) k of
           Some e \<Rightarrow> Some e | None \<Rightarrow> map_option pre_image (find (\<lambda>c. ch_key c = k) cs))"
      using Cons.prems by (intro Cons.IH) (simp_all add: tx_wf_dirty)
    then show ?thesis using Some
      by (cases "ch_key c = k") (simp_all add: update_serializable_Cons split: option.split)
  qed
qed

text \<open>The first change of a key in a chain holds the value before the chain.\<close>

lemma chain_first:
  "change_chain M cs N \<Longrightarrow> find (\<lambda>c. ch_key c = k) cs = Some c \<Longrightarrow> pre_image c = (A_SNAPSHOT, M k)"
proof (induction M cs N rule: change_chain.induct)
  case (1 M N)
  then show ?case by simp
next
  case (2 M d cs N)
  show ?case
  proof (cases "ch_key d = k")
    case True
    with 2 pre_image_old[of M d] show ?thesis by simp
  next
    case False
    have "pre_image c = (A_SNAPSHOT, (M(ch_key d := ch_new d)) k)"
      using "2.IH" "2.prems" False by (simp del: fun_upd_apply)
    with False show ?thesis by simp
  qed
qed

lemma find_key: "find (\<lambda>c. ch_key c = k) cs = None \<longleftrightarrow> k \<notin> ch_key ` set cs"
  by (auto simp: find_None_iff)


lemma update_serializable_dirty:
  assumes "tx_wf t" "tx_isolation t = SERIALIZABLE"
  shows "tx_dirty (update_serializable cs t) \<longleftrightarrow>
     tx_dirty t \<or> (\<exists>c \<in> set cs. map_of (tx_items t) (ch_key c) \<noteq> None) \<or> \<not> distinct (map ch_key cs)"
  using assms
proof (induction cs arbitrary: t)
  case Nil
  then show ?case by simp
next
  case (Cons c cs)
  note wf = tx_wf_items[OF Cons.prems(1)]
  show ?case
  proof (cases "map_of (tx_items t) (ch_key c)")
    case None
    have "tx_dirty (update_serializable cs (put_item (ch_key c) (pre_image c) t)) \<longleftrightarrow>
        tx_dirty t \<or>
        (\<exists>d \<in> set cs. map_of (tx_items (put_item (ch_key c) (pre_image c) t)) (ch_key d) \<noteq> None) \<or>
        \<not> distinct (map ch_key cs)"
      using Cons.prems Cons.IH[of "put_item (ch_key c) (pre_image c) t"] by (simp add: tx_wf_snapshot)
    also have "(\<exists>d \<in> set cs. map_of (tx_items (put_item (ch_key c) (pre_image c) t)) (ch_key d) \<noteq> None) \<longleftrightarrow>
        ch_key c \<in> ch_key ` set cs \<or> (\<exists>d \<in> set cs. map_of (tx_items t) (ch_key d) \<noteq> None)"
      unfolding put_item_lookup[OF wf] image_iff fun_upd_apply by (metis option.simps(3))
    finally show ?thesis using None by (auto simp: update_serializable_Cons)
  next
    case (Some e)
    have "tx_dirty (update_serializable cs (t\<lparr>tx_dirty := True\<rparr>))"
      using Cons.prems Cons.IH[of "t\<lparr>tx_dirty := True\<rparr>"] by (simp add: tx_wf_dirty)
    with Some show ?thesis by (simp add: update_serializable_Cons)
  qed
qed

text \<open>\<open>update\<close> as a whole: what becomes of items and dirt.\<close>

lemma tx_update_closed: "tx_state t \<noteq> OPEN \<Longrightarrow> tx_update cs t = t"
  by (simp add: tx_update_def)

lemma tx_update_core:
  "tx_state t = OPEN \<Longrightarrow>
     \<exists>u b. tx_update cs t = u\<lparr>tx_dirty := b\<rparr> \<and> (tx_dirty u \<longrightarrow> b) \<and>
       u = (if tx_isolation t = SERIALIZABLE then update_serializable cs t else update_default cs t)"
  unfolding tx_update_def Let_def
  by (intro exI[of _ "if tx_isolation t = SERIALIZABLE then update_serializable cs t else update_default cs t"]
      exI[of _ "tx_dirty (tx_update cs t)"] conjI)
    (cases "tx_isolation t"; simp add: tx_update_def)+

lemma tx_update_frame: "same_frame t (tx_update cs t) \<and> tx_ensures (tx_update cs t) = tx_ensures t"
proof (cases "tx_state t = OPEN")
  case True
  from tx_update_core[OF True, of cs] obtain u b where
    "tx_update cs t = u\<lparr>tx_dirty := b\<rparr>" "tx_dirty u \<longrightarrow> b"
    "u = (if tx_isolation t = SERIALIZABLE then update_serializable cs t else update_default cs t)"
    by blast
  then show ?thesis
    using update_serializable_frame[of t cs] update_default_frame[of t cs]
    by (auto simp: same_frame_def split: if_split_asm)
qed (simp add: tx_update_closed same_frame_def)


lemma tx_update_items:
  assumes "tx_wf t" "tx_state t = OPEN"
  shows "map_of (tx_items (tx_update cs t)) k =
     (case map_of (tx_items t) k of
        Some e \<Rightarrow> Some e
      | None \<Rightarrow>
          if tx_isolation t = SERIALIZABLE then map_option pre_image (find (\<lambda>c. ch_key c = k) cs)
          else None)"
proof -
  from tx_update_core[OF assms(2), of cs] obtain u b where u: "tx_update cs t = u\<lparr>tx_dirty := b\<rparr>"
    "u = (if tx_isolation t = SERIALIZABLE then update_serializable cs t else update_default cs t)"
    by blast
  show ?thesis
  proof (cases "tx_isolation t = SERIALIZABLE")
    case True
    with u update_serializable_items[OF assms(1) True, of cs k] show ?thesis by (simp split: option.split)
  next
    case False
    with u update_default_frame[of t cs] show ?thesis by (simp split: option.split)
  qed
qed

lemma tx_update_wf: "tx_wf t \<Longrightarrow> tx_wf (tx_update cs t)"
proof (cases "tx_state t = OPEN")
  case True
  assume wf: "tx_wf t"
  from tx_update_core[OF True, of cs] obtain u b where u: "tx_update cs t = u\<lparr>tx_dirty := b\<rparr>"
    "u = (if tx_isolation t = SERIALIZABLE then update_serializable cs t else update_default cs t)"
    "tx_dirty u \<longrightarrow> b"
    by blast
  have "tx_wf u"
  proof (cases "tx_isolation t = SERIALIZABLE")
    case True
    with u wf show ?thesis by (simp add: update_serializable_wf)
  next
    case False
    have "tx_wf (update_default cs t)"
      using update_default_frame[of t cs] wf
      by - (rule tx_wf_frame[of t], simp_all add: tx_wf_def)
    with False u show ?thesis by simp
  qed
  then show ?thesis unfolding u(1)
    by (rule tx_wf_frame) (use u(3) \<open>tx_wf u\<close> in \<open>simp_all add: same_frame_def tx_wf_def\<close>)
qed (simp add: tx_update_closed)

lemma tx_update_keeps_dirt:
  assumes "tx_wf t" "tx_state t = OPEN" "\<not> tx_dirty (tx_update cs t)"
  shows "\<not> tx_dirty t" "c \<in> set cs \<Longrightarrow> map_of (tx_items t) (ch_key c) = None"
proof -
  from tx_update_core[OF assms(2), of cs] obtain u b where u: "tx_update cs t = u\<lparr>tx_dirty := b\<rparr>"
    "u = (if tx_isolation t = SERIALIZABLE then update_serializable cs t else update_default cs t)"
    "tx_dirty u \<longrightarrow> b"
    by blast
  with assms(3) have "\<not> tx_dirty u" by simp
  have "\<not> (tx_dirty t \<or> (\<exists>c \<in> set cs. map_of (tx_items t) (ch_key c) \<noteq> None))"
  proof (cases "tx_isolation t = SERIALIZABLE")
    case True
    with \<open>\<not> tx_dirty u\<close> u(2) have "\<not> tx_dirty (update_serializable cs t)" by simp
    then show ?thesis unfolding update_serializable_dirty[OF assms(1) True] by blast
  next
    case False
    with \<open>\<not> tx_dirty u\<close> u(2) have "\<not> tx_dirty (update_default cs t)" by simp
    then show ?thesis unfolding update_default_dirty by blast
  qed
  then show "\<not> tx_dirty t" "c \<in> set cs \<Longrightarrow> map_of (tx_items t) (ch_key c) = None" by blast+
qed

lemma tx_update_writes_in: "tx_wf t \<Longrightarrow> writes_in W t \<Longrightarrow> writes_in W (tx_update cs t)"
proof (cases "tx_state t = OPEN")
  case True
  assume wf: "tx_wf t" and W: "writes_in W t"
  have "map_of (tx_items t) k = Some e"
    if "map_of (tx_items (tx_update cs t)) k = Some e" "is_modification e" for k e
    using that pre_image_snapshot unfolding tx_update_items[OF wf True]
    by (auto simp: is_modification_def split: option.splits if_split_asm)
  with W show ?thesis unfolding writes_in_def by blast
qed (simp add: tx_update_closed)

lemma tx_update_answers: "tx_wf t \<Longrightarrow> answers k v t \<Longrightarrow> answers k v (tx_update cs t)"
  by (cases "tx_state t = OPEN") (auto simp: answers_def tx_update_items tx_update_closed)

subsection \<open>The feed of changes\<close>

text \<open>
  All a transaction relies on about the store: a commit announces a change list that leads from the
  content before it to the content after it.
\<close>

locale change_feed =
  fixes content :: "'s \<Rightarrow> string \<rightharpoonup> val"
    and ok :: "'s \<Rightarrow> bool"
    and commit :: "'s \<Rightarrow> change list \<Rightarrow> 's \<Rightarrow> bool"
  assumes commit_ok: "ok s \<Longrightarrow> commit s cs s' \<Longrightarrow> ok s'"
    and commit_chain: "ok s \<Longrightarrow> commit s cs s' \<Longrightarrow> change_chain (content s) cs (content s')"
begin

lemma untouched: "ok s \<Longrightarrow> commit s cs s' \<Longrightarrow> k \<notin> ch_key ` set cs \<Longrightarrow> content s' k = content s k"
  using commit_chain change_chain_untouched by blast

lemma follow_view:
  assumes "ok s" "commit s cs s'" "tx_wf t" "tx_state t = OPEN" "tx_isolation t = SERIALIZABLE"
    and "view_ok M0 (content s) t"
  shows "view_ok M0 (content s') (tx_update cs t)"
  unfolding view_ok_def
proof
  fix k
  have old: "case map_of (tx_items t) k of None \<Rightarrow> content s k = M0 k
      | Some e \<Rightarrow> \<not> is_modification e \<longrightarrow> snd e = M0 k"
    using assms(6) by (simp add: view_ok_def)
  show "case map_of (tx_items (tx_update cs t)) k of None \<Rightarrow> content s' k = M0 k
      | Some e \<Rightarrow> \<not> is_modification e \<longrightarrow> snd e = M0 k"
  proof (cases "map_of (tx_items t) k")
    case (Some e)
    with old show ?thesis by (simp add: tx_update_items[OF assms(3,4)])
  next
    case None
    show ?thesis
    proof (cases "find (\<lambda>c. ch_key c = k) cs")
      case None
      then have "content s' k = content s k" using untouched[OF assms(1,2), of k] by (simp add: find_key)
      with None \<open>map_of (tx_items t) k = None\<close> old show ?thesis
        by (simp add: tx_update_items[OF assms(3,4)])
    next
      case (Some c)
      with chain_first[OF commit_chain[OF assms(1,2)] Some] \<open>map_of (tx_items t) k = None\<close> old
      show ?thesis by (simp add: tx_update_items[OF assms(3,4)] assms(5))
    qed
  qed
qed

lemma follow_reads_current:
  assumes "ok s" "commit s cs s'" "tx_wf t" "tx_state t = OPEN" "reads_current (content s) t"
  shows "reads_current (content s') (tx_update cs t)"
proof (cases "tx_dirty (tx_update cs t)")
  case True
  then show ?thesis by (simp add: reads_current_def)
next
  case False
  note clean = tx_update_keeps_dirt[OF assms(3,4) False]
  have "content s' k = v" if "map_of (tx_items (tx_update cs t)) k = Some (A_READ, v)" for k v
  proof -
    have it: "map_of (tx_items t) k = Some (A_READ, v)"
      using that pre_image_snapshot unfolding tx_update_items[OF assms(3,4)]
      by (auto split: option.splits if_split_asm dest: arg_cong[of _ _ fst])
    then have "k \<notin> ch_key ` set cs" using clean(2) by fastforce
    moreover have "content s k = v" using assms(5) clean(1) it by (simp add: reads_current_def)
    ultimately show ?thesis using untouched[OF assms(1,2)] by simp
  qed
  then show ?thesis by (simp add: reads_current_def)
qed

end

text \<open>The store provides it: an accepted update announces such a list.\<close>

definition commits :: "store \<Rightarrow> change list \<Rightarrow> store \<Rightarrow> bool" where
  "commits s cs s' \<longleftrightarrow>
     (\<exists>upd ma. small_update upd \<and> update (Some upd) s = (Inr (cs, ma), s'))"

interpretation feed: change_feed "\<lambda>s. map_of (m_data s)" store_wf commits
  by unfold_locales (auto simp: commits_def dest: update_success)

end
