(* ===== verification/Nplex_Transaction_Props.thy ===== *)
theory Nplex_Transaction_Props
  imports Nplex_Transaction_Spec
begin

text \<open>
  Histories of one transaction next to its store: the user's operations, the client's calls, and the
  commits of others, in any order.  The guarantees of each isolation level, and the life of a
  transaction up to its future, are proved over all such histories.
\<close>

section \<open>Steps and histories\<close>

text \<open>
  One user operation, with any arguments, that writes keys of \<open>W\<close> only.  A callback given to
  \<open>for_each\<close> may itself run any such operations on the transaction.
\<close>

inductive user_step :: "store \<Rightarrow> string set \<Rightarrow> tx \<Rightarrow> tx \<Rightarrow> bool" for s W where
  us_read: "read s key ens t = (r, t') \<Longrightarrow> user_step s W t t'"
| us_upsert: "upsert s (Some k) d t = (r, t') \<Longrightarrow> c_str k \<in> W \<Longrightarrow> user_step s W t t'"
| us_upsert_if_changed:
    "upsert_if_changed s (Some k) d t = (r, t') \<Longrightarrow> c_str k \<in> W \<Longrightarrow> user_step s W t t'"
| us_remove: "remove_key s k t = (r, t') \<Longrightarrow> k \<in> W \<Longrightarrow> user_step s W t t'"
| us_remove_pattern:
    "remove_pattern s p t = (r, t') \<Longrightarrow> {k. pattern_hit p k} \<subseteq> W \<Longrightarrow> user_step s W t t'"
| us_ensure: "ensure p t = (r, t') \<Longrightarrow> user_step s W t t'"
| us_for_each:
    "for_each s p cb t = (r, t') \<Longrightarrow>
       (\<And>f k v u. cb = Some f \<Longrightarrow> (user_step s W)\<^sup>*\<^sup>* u (snd (f k v u))) \<Longrightarrow> user_step s W t t'"

text \<open>
  The calls of the client, and of the user to submit or discard.  \<open>retry\<close> says whether the server may
  answer \<open>TRY_LATER\<close>, which opens a submitted transaction again.
\<close>

inductive life_step :: "bool \<Rightarrow> tx \<Rightarrow> tx \<Rightarrow> bool" for retry where
  life_type: "life_step retry t (set_type n t)"
| life_submit: "submit push force t = (r, t') \<Longrightarrow> life_step retry t t'"
| life_code:
    "set_submit_code code t = (r, t') \<Longrightarrow> code = SC_TRY_LATER \<longrightarrow> retry \<Longrightarrow> life_step retry t t'"
| life_error: "set_submit_error e t = (r, t') \<Longrightarrow> life_step retry t t'"
| life_confirm: "confirm_commit t = (r, t') \<Longrightarrow> life_step retry t t'"
| life_discard: "life_step retry t (discard t)"

text \<open>One event of a transaction's history: the store moves by commits only.\<close>

inductive tx_step :: "bool \<Rightarrow> string set \<Rightarrow> store \<times> tx \<Rightarrow> store \<times> tx \<Rightarrow> bool" for retry W where
  step_user: "user_step s W t t' \<Longrightarrow> tx_step retry W (s, t) (s, t')"
| step_life: "life_step retry t t' \<Longrightarrow> tx_step retry W (s, t) (s, t')"
| step_commit: "commits s cs s' \<Longrightarrow> tx_step retry W (s, t) (s', tx_update cs t)"

abbreviation tx_run :: "bool \<Rightarrow> string set \<Rightarrow> store \<times> tx \<Rightarrow> store \<times> tx \<Rightarrow> bool" where
  "tx_run retry W \<equiv> (tx_step retry W)\<^sup>*\<^sup>*"

lemma touches_trans: "touches s W t u \<Longrightarrow> touches s W u v \<Longrightarrow> touches s W t v"
  by (rule rtranclp_trans)

lemma user_step_touches:
  assumes "om_wf (m_data s)"
  shows "user_step s W t t' \<Longrightarrow> tx_wf t \<Longrightarrow> touches s W t t'"
proof (induction rule: user_step.induct)
  case (us_read key ens t r t')
  then show ?case by (blast intro: read_touches)
next
  case (us_upsert k d t r t')
  then obtain q where "upsert_internal s (Some k) d True t = (q, t')"
    by (auto simp: upsert_def bind_op_def split: prod.splits sum.splits)
  with us_upsert show ?case by (auto intro: upsert_internal_touches)
next
  case (us_upsert_if_changed k d t r t')
  then show ?case by (auto simp: upsert_if_changed_def intro: upsert_internal_touches)
next
  case (us_remove k t r t')
  then show ?case by (blast intro: remove_key_touches)
next
  case (us_remove_pattern p t r t')
  then show ?case using assms by (blast intro: remove_pattern_touches)
next
  case (us_ensure p t r t')
  then show ?case by (blast intro: ensure_touches)
next
  case (us_for_each p cb t r t')
  show ?case
  proof (rule for_each_touches[OF us_for_each.prems assms _ us_for_each.hyps])
    fix k v f u q u'
    assume f: "cb = Some f" and u: "tx_wf u" "f k v u = (q, u')"
    have steps: "(\<lambda>a b. user_step s W a b \<and> (tx_wf a \<longrightarrow> touches s W a b))\<^sup>*\<^sup>* u (snd (f k v u))"
      by (rule us_for_each.IH[OF f])
    then have "touches s W u (snd (f k v u)) \<and> tx_wf (snd (f k v u))"
    proof (induction rule: rtranclp_induct)
      case base
      show ?case using u(1) by simp
    next
      case (step y z)
      then have "touches s W y z" by blast
      with step.IH show ?case using touches_keep(1)[of s W y z] rtranclp_trans[of "touch s W" u y z] by blast
    qed
    with u(2) show "touches s W u u'" by simp
  qed
qed


section \<open>The life of a transaction\<close>

text \<open>The calls that end or submit a transaction leave what it holds alone.\<close>

definition same_items :: "tx \<Rightarrow> tx \<Rightarrow> bool" where
  "same_items t u \<longleftrightarrow>
     tx_items u = tx_items t \<and> tx_ensures u = tx_ensures t \<and> tx_dirty u = tx_dirty t \<and>
     tx_isolation u = tx_isolation t \<and> tx_read_only u = tx_read_only t \<and> tx_user u = tx_user t \<and>
     tx_rev_creation u = tx_rev_creation t"

lemma satisfy_eval:
  "satisfy r t =
     (if p_result (tx_promise t) = None
      then (Inr (), t\<lparr>tx_promise := (tx_promise t)\<lparr>p_result := Some r\<rparr>\<rparr>)
      else (Inl Ex_promise_satisfied, t))"
  by (simp add: satisfy_def split: option.split)

lemma finish_eval:
  "finish r st t =
     (if p_result (tx_promise t) \<noteq> None then (Inl Ex_promise_satisfied, t)
      else get_future (set_state st (t\<lparr>tx_promise := (tx_promise t)\<lparr>p_result := Some (Inr r)\<rparr>\<rparr>)))"
  by (simp add: finish_def bind_op_def satisfy_eval)

lemmas life_evals = satisfy_eval finish_eval set_state_def get_future_def discard_def set_type_def
  set_submit_error_def confirm_commit_def bind_op_def Let_def

lemma set_state_items: "same_items t (set_state st t)"
  by (simp add: same_items_def set_state_def)

lemma satisfy_items: "satisfy r t = (q, u) \<Longrightarrow> same_items t u"
  by (auto simp: same_items_def satisfy_eval split: if_split_asm)

lemma get_future_items: "get_future t = (q, u) \<Longrightarrow> same_items t u"
  by (auto simp: same_items_def get_future_def split: if_split_asm)

lemma same_items_trans: "same_items t u \<Longrightarrow> same_items u v \<Longrightarrow> same_items t v"
  by (simp add: same_items_def)

lemma finish_items: "finish r st t = (q, u) \<Longrightarrow> same_items t u"
proof -
  assume run: "finish r st t = (q, u)"
  let ?p = "t\<lparr>tx_promise := (tx_promise t)\<lparr>p_result := Some (Inr r)\<rparr>\<rparr>"
  have "same_items t ?p" "same_items ?p (set_state st ?p)"
    by (simp_all add: set_state_items) (simp add: same_items_def)
  then have "same_items t (set_state st ?p)" by (rule same_items_trans)
  with run show ?thesis
    using get_future_items[of "set_state st ?p"]
    by (auto simp: finish_eval same_items_def split: if_split_asm)
qed

lemma submit_items: "submit push force t = (q, u) \<Longrightarrow> same_items t u"
  using get_future_items[of "set_state SUBMITTED t" q u] set_state_items[of t SUBMITTED]
  by (auto simp: submit_def Let_def intro: finish_items same_items_trans
      split: if_split_asm option.splits) (simp_all add: same_items_def)

lemma discard_items: "same_items t (discard t)"
  using satisfy_items[of "Inl Ex_discarded" "set_state DISCARDED t"] set_state_items[of t DISCARDED]
  by (metis discard_def prod.collapse same_items_trans)

lemma set_submit_code_items: "set_submit_code code t = (q, u) \<Longrightarrow> same_items t u"
  by (cases code) (auto simp: set_submit_code_def life_evals same_items_def split: if_split_asm)

lemma set_submit_error_items: "set_submit_error e t = (q, u) \<Longrightarrow> same_items t u"
  by (auto simp: life_evals same_items_def split: if_split_asm)

lemma confirm_commit_items: "confirm_commit t = (q, u) \<Longrightarrow> same_items t u"
  by (auto simp: life_evals same_items_def split: if_split_asm)


lemma life_items: "life_step retry t u \<Longrightarrow> same_items t u"
proof (induction rule: life_step.induct)
  case (life_type t n)
  show ?case by (simp add: same_items_def set_type_def)
qed (blast intro: submit_items set_submit_code_items set_submit_error_items confirm_commit_items
  discard_items)+

lemma same_items_wf: "same_items t u \<Longrightarrow> tx_wf t \<Longrightarrow> tx_wf u"
proof -
  assume eq: "same_items t u" and wf: "tx_wf t"
  have "entry_ok u k e = entry_ok t k e" for k e
    using eq by (simp add: same_items_def entry_ok_def denied_def split: item_action.split)
  with eq wf show ?thesis by (simp add: same_items_def tx_wf_def)
qed

lemma same_items_inv:
  "same_items t u \<Longrightarrow> writes_in W u = writes_in W t"
  "same_items t u \<Longrightarrow> view_ok M0 M u = view_ok M0 M t"
  "same_items t u \<Longrightarrow> reads_current M u = reads_current M t"
  "same_items t u \<Longrightarrow> answers k v u = answers k v t"
  by (simp_all add: same_items_def writes_in_def view_ok_def reads_current_def answers_def)

text \<open>Only \<open>TRY_LATER\<close> opens a transaction again.\<close>

lemma submit_not_open: "tx_state t \<noteq> OPEN \<Longrightarrow> submit push force t = (q, u) \<Longrightarrow> u = t"
  by (simp add: submit_def)

lemma set_submit_code_not_open:
  "tx_state t \<noteq> OPEN \<Longrightarrow> set_submit_code code t = (q, u) \<Longrightarrow> code \<noteq> SC_TRY_LATER \<Longrightarrow> tx_state u \<noteq> OPEN"
  by (cases code) (auto simp: set_submit_code_def life_evals split: if_split_asm)

lemma life_not_open: "life_step False t u \<Longrightarrow> tx_state t \<noteq> OPEN \<Longrightarrow> tx_state u \<noteq> OPEN"
proof (induction rule: life_step.induct)
  case (life_submit push force t r t')
  then show ?case using submit_not_open by blast
next
  case (life_code code t r t')
  then show ?case by (metis set_submit_code_not_open)
qed (auto simp: life_evals closed_state_def split: if_split_asm)

section \<open>Invariants of a history\<close>

definition run_inv :: "string set \<Rightarrow> (string \<rightharpoonup> val) \<Rightarrow> store \<times> tx \<Rightarrow> bool" where
  "run_inv W M0 c \<longleftrightarrow>
     (case c of (s, t) \<Rightarrow>
        tx_state t = OPEN \<longrightarrow>
          (tx_isolation t = SERIALIZABLE \<longrightarrow> view_ok M0 (map_of (m_data s)) t) \<and>
          reads_current (map_of (m_data s)) t)"

definition run_wf :: "store \<times> tx \<Rightarrow> bool" where
  "run_wf c \<longleftrightarrow> store_wf (fst c) \<and> tx_wf (snd c)"

lemma new_tx_wf: "tx_wf (new_tx level ro u s)"
  by (simp add: tx_wf_def new_tx_def)

lemma new_tx_writes: "writes_in W (new_tx level ro u s)"
  by (simp add: writes_in_def new_tx_def)

lemma new_tx_run_inv: "run_inv W (map_of (m_data s)) (s, new_tx level ro u s)"
  by (simp add: run_inv_def new_tx_def view_ok_def reads_current_def)

lemma user_touches: "user_step s W t t' \<Longrightarrow> run_wf (s, t) \<Longrightarrow> touches s W t t'"
  by (rule user_step_touches) (auto simp: run_wf_def dest: store_wf_data)

lemma step_wf: "tx_step retry W c d \<Longrightarrow> run_wf c \<Longrightarrow> run_wf d"
proof (induction rule: tx_step.induct)
  case (step_user s t t')
  from touches_keep(1)[OF user_touches[OF this]] step_user.prems show ?case by (simp add: run_wf_def)
next
  case (step_life t t' s)
  then show ?case using life_items[OF step_life.hyps] by (auto intro: same_items_wf simp: run_wf_def)
next
  case (step_commit s cs s' t)
  then show ?case by (auto intro: feed.commit_ok tx_update_wf simp: run_wf_def)
qed

lemma step_writes: "tx_step retry W c d \<Longrightarrow> run_wf c \<Longrightarrow> writes_in W (snd c) \<Longrightarrow> writes_in W (snd d)"
proof (induction rule: tx_step.induct)
  case (step_user s t t')
  from touches_keep(2)[OF user_touches[OF step_user.hyps step_user.prems(1)]] step_user.prems
  show ?case by (simp add: run_wf_def)
next
  case (step_life t t' s)
  then show ?case using life_items[OF step_life.hyps] by (simp add: same_items_inv)
next
  case (step_commit s cs s' t)
  then show ?case by (auto intro: tx_update_writes_in simp: run_wf_def)
qed

lemma step_inv: "tx_step False W c d \<Longrightarrow> run_wf c \<Longrightarrow> run_inv W M0 c \<Longrightarrow> run_inv W M0 d"
proof (induction rule: tx_step.induct)
  case (step_user s t t')
  note T = user_touches[OF step_user.hyps step_user.prems(1)]
  have fr: "tx_state t' = tx_state t" "tx_isolation t' = tx_isolation t"
    using touches_frame[OF T] by (simp_all add: same_frame_def)
  with step_user.prems touches_keep(3,4)[OF T] show ?case by (simp add: run_inv_def run_wf_def)
next
  case (step_life t t' s)
  have "tx_isolation t' = tx_isolation t" using life_items[OF step_life.hyps] by (simp add: same_items_def)
  with step_life.prems life_not_open[OF step_life.hyps] life_items[OF step_life.hyps]
  show ?case by (auto simp: run_inv_def same_items_inv)
next
  case (step_commit s cs s' t)
  show ?case
  proof (cases "tx_state t = OPEN")
    case True
    have "tx_isolation (tx_update cs t) = tx_isolation t"
      using tx_update_frame[of t cs] by (simp add: same_frame_def)
    then show ?thesis
      using step_commit.prems True feed.follow_view[OF _ step_commit.hyps _ True]
        feed.follow_reads_current[OF _ step_commit.hyps _ True]
      by (simp add: run_inv_def run_wf_def)
  next
    case False
    then show ?thesis by (simp add: run_inv_def tx_update_closed)
  qed
qed

lemma run_keeps_wf: "tx_run retry W c d \<Longrightarrow> run_wf c \<Longrightarrow> run_wf d"
  by (induction rule: rtranclp_induct) (auto intro: step_wf)

lemma step_frame:
  assumes "tx_step retry W c d" "run_wf c"
  shows "tx_isolation (snd d) = tx_isolation (snd c) \<and> tx_read_only (snd d) = tx_read_only (snd c) \<and>
    tx_user (snd d) = tx_user (snd c)"
  using assms
proof (induction rule: tx_step.induct)
  case (step_user s t t')
  from touches_frame[OF user_touches[OF this]] show ?case by (simp add: same_frame_def)
next
  case (step_life t t' s)
  then show ?case using life_items by (simp add: same_items_def)
next
  case (step_commit s cs s' t)
  show ?case using tx_update_frame[of t cs] by (simp add: same_frame_def)
qed

lemma run_frame:
  assumes "tx_run retry W c d" "run_wf c"
  shows "tx_isolation (snd d) = tx_isolation (snd c) \<and> tx_read_only (snd d) = tx_read_only (snd c) \<and>
    tx_user (snd d) = tx_user (snd c)"
  using assms
proof (induction rule: rtranclp_induct)
  case base
  show ?case by simp
next
  case (step y z)
  with step_frame[OF step.hyps(2) run_keeps_wf[OF step.hyps(1) step.prems]] show ?case by simp
qed

lemma run_keeps_writes:
  "tx_run retry W c d \<Longrightarrow> run_wf c \<Longrightarrow> writes_in W (snd c) \<Longrightarrow> writes_in W (snd d)"
  by (induction rule: rtranclp_induct) (auto intro: step_writes run_keeps_wf)

lemma run_keeps_inv: "tx_run False W c d \<Longrightarrow> run_wf c \<Longrightarrow> run_inv W M0 c \<Longrightarrow> run_inv W M0 d"
  by (induction rule: rtranclp_induct) (auto intro: step_inv run_keeps_wf)


section \<open>Isolation\<close>

text \<open>A read answers from the item of the key, or else from the store.\<close>

lemma read_value:
  assumes "read s (Some k) ens t = (Inr v, t')"
  shows "tx_state t = OPEN" "is_valid_key_ptr (Some k)"
    "v = seen (map_of (tx_items t) (c_str k)) (map_of (m_data s) (c_str k))"
proof -
  show "tx_state t = OPEN" "is_valid_key_ptr (Some k)"
    using assms by (auto simp: read_def split: if_split_asm)
  then have "(case map_of (tx_items t) (c_str k) of
      Some e \<Rightarrow> read_item (c_str k) ens e t | None \<Rightarrow> read_store s (c_str k) ens t) = (Inr v, t')"
    using assms by (simp add: read_def Let_def)
  then show "v = seen (map_of (tx_items t) (c_str k)) (map_of (m_data s) (c_str k))"
    by (cases "map_of (tx_items t) (c_str k)"; cases "map_of (m_data s) (c_str k)")
      (auto simp: read_item_def read_store_def split: if_split_asm option.splits)
qed

lemma seen_view:
  assumes "view_ok M0 M t" "writes_in W t" "k \<notin> W"
  shows "seen (map_of (tx_items t) k) (M k) = M0 k"
proof (cases "map_of (tx_items t) k")
  case None
  with assms(1) show ?thesis unfolding view_ok_def by (auto dest: spec[of _ k])
next
  case (Some e)
  have "\<not> is_modification e" using assms(2,3) Some unfolding writes_in_def by blast
  moreover from this have "snd e = M0 k"
    using assms(1) Some unfolding view_ok_def by (auto dest: spec[of _ k])
  ultimately show ?thesis using Some by (auto simp: is_modification_def)
qed

lemma run_from_new:
  assumes "store_wf s0" "tx_run retry W (s0, new_tx level ro u s0) (s, t)"
  shows "store_wf s" "tx_wf t" "writes_in W t"
  using run_keeps_wf[OF assms(2)] run_keeps_writes[OF assms(2)] assms(1)
  by (simp_all add: run_wf_def new_tx_wf new_tx_writes)

lemma serializable_view:
  assumes "store_wf s0" "tx_run False W (s0, new_tx SERIALIZABLE ro u s0) (s, t)" "tx_state t = OPEN"
  shows "view_ok (map_of (m_data s0)) (map_of (m_data s)) t"
proof -
  have "tx_isolation t = SERIALIZABLE"
    using run_frame[OF assms(2)] assms(1) by (simp add: run_wf_def new_tx_wf) (simp add: new_tx_def)
  moreover have "run_inv W (map_of (m_data s0)) (s, t)"
    using run_keeps_inv[OF assms(2) _ new_tx_run_inv] assms(1)
    by (simp add: run_wf_def new_tx_wf new_tx_writes)
  ultimately show ?thesis using assms(3) by (simp add: run_inv_def)
qed



lemma read_returns:
  assumes "is_valid_key_ptr key" "tx_state t = OPEN"
  obtains v t' where "read s key ens t = (Inr v, t')"
proof -
  have "\<exists>v t'. read s key ens t = (Inr v, t')"
    using assms
    by (cases "map_of (tx_items t) (c_str (the key))"; cases "map_of (m_data s) (c_str (the key))")
      (auto simp: read_def Let_def read_item_def read_store_def split: option.split)
  with that show thesis by blast
qed

text \<open>A commit that a transaction of the witnesses sees: \<^const>\<open>sample_update\<close> on an empty store.\<close>

lemma sample_commit:
  obtains cs s where "commits empty_store cs s" "m_rev s = 7" "contents s ''b'' = Some ''2''"
proof (rule sample_run)
  fix cs t
  assume "update (Some sample_update) empty_store = (Inr (cs, Some 0), t)" "m_rev t = 7"
    "contents t ''b'' = Some ''2''"
  then show thesis using sample_small by (intro that[of cs t]) (auto simp: commits_def)
qed

lemma valid_key_b: "is_valid_key_ptr (Some ''b'')"
  by code_simp

lemma c_str_b: "c_str ''b'' = ''b''"
  by (simp add: c_str_def)

lemma tx_update_state: "tx_state (tx_update cs t) = tx_state t"
  using tx_update_frame[of t cs] by (simp add: same_frame_def)





subsection \<open>Repeated reads\<close>

lemma step_answers:
  "tx_step retry W c d \<Longrightarrow> run_wf c \<Longrightarrow> k \<notin> W \<Longrightarrow> answers k v (snd c) \<Longrightarrow> answers k v (snd d)"
proof (induction rule: tx_step.induct)
  case (step_user s t t')
  from touches_keep(5)[OF user_touches[OF step_user.hyps step_user.prems(1)]] step_user.prems
  show ?case by (simp add: run_wf_def)
next
  case (step_life t t' s)
  then show ?case using same_items_inv(4)[OF life_items[OF step_life.hyps]] by simp
next
  case (step_commit s cs s' t)
  then show ?case by (auto intro: tx_update_answers simp: run_wf_def)
qed

lemma run_answers:
  "tx_run retry W c d \<Longrightarrow> run_wf c \<Longrightarrow> k \<notin> W \<Longrightarrow> answers k v (snd c) \<Longrightarrow> answers k v (snd d)"
  by (induction rule: rtranclp_induct) (auto intro: step_answers run_keeps_wf)

lemma answersI: "map_of (tx_items t) k = Some e \<Longrightarrow> (if fst e = A_DELETE then None else snd e) = v \<Longrightarrow> answers k v t"
  unfolding answers_def by blast

lemma answers_seen: "answers k v t \<Longrightarrow> seen (map_of (tx_items t) k) x = v"
  by (auto simp: answers_def)

lemma ensure_if_items: "tx_items (ensure_if b k t) = tx_items t"
  by (simp add: ensure_if_def ensure_def)

lemma read_answers:
  assumes "tx_wf t" "tx_isolation t \<noteq> READ_COMMITTED" "read s (Some k) ens t = (Inr v, t')"
  shows "answers (c_str k) v t'"
proof -
  note wf = tx_wf_items[OF assms(1)]
  have run: "(case map_of (tx_items t) (c_str k) of
      Some e \<Rightarrow> read_item (c_str k) ens e t | None \<Rightarrow> read_store s (c_str k) ens t) = (Inr v, t')"
    using assms(3) read_value(1,2)[OF assms(3)] by (simp add: read_def Let_def)
  show ?thesis
  proof (cases "map_of (tx_items t) (c_str k)")
    case None
    with run assms(2) show ?thesis
      by (auto simp: read_store_def answers_def ensure_if_items emplace_absent put_item_lookup[OF wf]
          split: option.splits)
  next
    case (Some e)
    with run have "read_item (c_str k) ens e t = (Inr v, t')" by simp
    then have "(fst e = A_DELETE \<and> v = None \<and> t' = t) \<or> (snd e = None \<and> v = None \<and> t' = t) \<or>
        (fst e \<noteq> A_DELETE \<and> snd e = v \<and> t' = ensure_if ens (c_str k) (read_snapshot (c_str k) e t))"
      by (auto simp: read_item_def split: if_split_asm option.splits)
    then show ?thesis
    proof (elim disjE conjE)
      assume "fst e \<noteq> A_DELETE" "snd e = v" "t' = ensure_if ens (c_str k) (read_snapshot (c_str k) e t)"
      then show ?thesis using Some
        by (intro answersI[of t' _ "if fst e = A_SNAPSHOT then (A_READ, snd e) else e"])
          (simp_all add: ensure_if_items read_snapshot_def put_item_lookup[OF wf])
    qed (use Some in \<open>auto intro: answersI\<close>)
  qed
qed

lemma upsert_answers:
  assumes "tx_wf t" "upsert s (Some k) d t = (Inr x, t')"
  shows "answers (c_str k) (Some \<lparr>v_data = d, v_meta = None\<rparr>) t'" "tx_wf t'"
proof -
  note wf = tx_wf_items[OF assms(1)]
  obtain b where run: "upsert_internal s (Some k) d True t = (Inr b, t')"
    using assms(2) by (auto simp: upsert_def elim: bind_op_InrE)
  let ?new = "(A_UPSERT, Some \<lparr>v_data = d, v_meta = None\<rparr>)"
  have "\<exists>u. om_wf (tx_items u) \<and> t' = put_item (c_str k) ?new u"
  proof (cases "map_of (tx_items t) (c_str k)")
    case None
    with run have "upsert_store s (c_str k) d True t = (Inr b, t')"
      by (simp add: upsert_internal_def split: if_split_asm)
    then have "t' = emplace_item (c_str k) ?new t"
      by (auto simp: upsert_store_def Let_def split: if_split_asm option.splits)
    with wf None show ?thesis by (auto simp: emplace_absent)
  next
    case (Some e)
    with run have "upsert_item (c_str k) d True e t = (Inr b, t')"
      by (simp add: upsert_internal_def split: if_split_asm)
    then have "t' = put_item (c_str k) ?new (if fst e = A_SNAPSHOT then t\<lparr>tx_dirty := True\<rparr> else t)"
      by (simp add: upsert_item_def Let_def split: if_split_asm)
    with wf show ?thesis
      by (intro exI[of _ "if fst e = A_SNAPSHOT then t\<lparr>tx_dirty := True\<rparr> else t"]) simp
  qed
  then show "answers (c_str k) (Some \<lparr>v_data = d, v_meta = None\<rparr>) t'"
    by (auto simp: put_item_lookup intro: answersI)
  show "tx_wf t'"
    using touches_keep(1)[OF upsert_internal_touches[OF run, of UNIV]] assms(1) by simp
qed

lemma answers_read:
  assumes "answers (c_str k) v t" "read s (Some k) ens t = (Inr w, t')"
  shows "w = v"
  using read_value(3)[OF assms(2)] answers_seen[OF assms(1)] by simp

text \<open>
  C10: Under \<open>REPEATABLE_READ\<close> and \<open>SERIALIZABLE\<close>, reading a key again gives what the first read gave,
  absence included, unless the transaction wrote the key in between: whatever was committed, even
  when the transaction was sent and the server answered \<open>TRY_LATER\<close>.
\<close>

theorem repeatable_read:
  assumes "store_wf s0" "tx_run True V (s0, new_tx level ro u s0) (s, t)" "level \<noteq> READ_COMMITTED"
    and "read s (Some k) e t = (Inr v, t1)" "tx_run True W (s, t1) (s2, t2)" "c_str k \<notin> W"
    and "read s2 (Some k) e2 t2 = (Inr w, t3)"
  shows "w = v"
proof -
  note R = run_from_new[OF assms(1,2)]
  have "tx_isolation t = level"
    using run_frame[OF assms(2)] assms(1) by (simp add: run_wf_def new_tx_wf) (simp add: new_tx_def)
  with assms(3) have a: "answers (c_str k) v t1" using read_answers[OF R(2) _ assms(4)] by simp
  have "tx_wf t1" using touches_keep(1)[OF read_touches[OF assms(4)] R(2)] .
  with R(1) have "run_wf (s, t1)" by (simp add: run_wf_def)
  then have "answers (c_str k) v t2" using run_answers[OF assms(5) _ assms(6)] a by simp
  then show ?thesis by (rule answers_read) (rule assms(7))
qed

theorem repeatable_read_witness:
  "\<exists>s t1 t2. read empty_store (Some ''b'') False (new_tx REPEATABLE_READ False None empty_store) = (Inr None, t1) \<and>
     commits empty_store (fst s) (snd s) \<and> contents (snd s) ''b'' = Some ''2'' \<and>
     read (snd s) (Some ''b'') False (tx_update (fst s) t1) = (Inr None, t2)"
proof (rule sample_commit)
  fix cs s
  let ?new = "new_tx REPEATABLE_READ False None empty_store"
  assume c: "commits empty_store cs s" and b: "contents s ''b'' = Some ''2''"
  have "tx_state ?new = OPEN" by (simp add: new_tx_def)
  then obtain v t1 where r1: "read empty_store (Some ''b'') False ?new = (Inr v, t1)"
    by (rule read_returns[OF valid_key_b])
  have v: "v = None" using read_value(3)[OF r1] by (simp add: new_tx_def empty_store_def)
  have "tx_state t1 = OPEN"
    using touches_frame[OF read_touches[OF r1]] by (simp add: same_frame_def) (simp add: new_tx_def)
  then have "tx_state (tx_update cs t1) = OPEN" by (simp add: tx_update_state)
  then obtain w t2 where r2: "read s (Some ''b'') False (tx_update cs t1) = (Inr w, t2)"
    by (rule read_returns[OF valid_key_b])
  have "tx_run True {} (empty_store, t1) (s, tx_update cs t1)"
    using step_commit[OF c] by (rule r_into_rtranclp)
  from repeatable_read[OF empty_store_wf rtranclp.rtrancl_refl _ r1 this _ r2] have "w = v" by simp
  with r1 r2 v c b show ?thesis by (intro exI[of _ "(cs, s)"]) auto
qed

text \<open>
  C33: A transaction reads its own writes: after \<open>upsert\<close> of a key, and until it writes the key again,
  every read of the key gives the data written, at every isolation level and whatever others commit.
\<close>

theorem read_own_write:
  assumes "store_wf s" "tx_wf t" "upsert s (Some k) d t = (Inr x, t1)"
    and "tx_run True W (s, t1) (s2, t2)" "c_str k \<notin> W" "read s2 (Some k) ens t2 = (Inr w, t3)"
  shows "\<exists>v. w = Some v \<and> v_data v = d \<and> v_meta v = None"
proof -
  note U = upsert_answers[OF assms(2,3)]
  have "run_wf (s, t1)" using assms(1) U(2) by (simp add: run_wf_def)
  then have "answers (c_str k) (Some \<lparr>v_data = d, v_meta = None\<rparr>) t2"
    using run_answers[OF assms(4) _ assms(5)] U(1) by simp
  from answers_read[OF this assms(6)] show ?thesis by simp
qed


lemma valid_write_b: "is_valid_key_ptr (Some ''b'') \<and> ''9'' \<noteq> ''''"
  using valid_key_b by simp

lemma upsert_new_returns:
  assumes "is_valid_key_ptr (Some k)" "d \<noteq> []" "map_of (m_data s) (c_str k) = None"
  shows "upsert s (Some k) d (new_tx level False None s) =
    (Inr (), put_item (c_str k) (A_UPSERT, Some \<lparr>v_data = d, v_meta = None\<rparr>) (new_tx level False None s))"
proof -
  have "upsert_store s (c_str k) d True (new_tx level False None s) =
      (Inr True, emplace_item (c_str k) (A_UPSERT, Some \<lparr>v_data = d, v_meta = None\<rparr>)
        (new_tx level False None s))"
    using assms(3) by (simp add: upsert_store_def denied_def) (simp add: new_tx_def)
  moreover have "map_of (tx_items (new_tx level False None s)) (c_str k) = None"
    "\<not> tx_read_only (new_tx level False None s)" "tx_state (new_tx level False None s) = OPEN"
    by (simp_all add: new_tx_def)
  ultimately show ?thesis
    using assms(1,2) by (simp add: upsert_def bind_op_def upsert_internal_def Let_def emplace_absent)
qed

theorem read_own_write_witness:
  "\<exists>t1 cs s t2. upsert empty_store (Some ''b'') ''9'' (new_tx READ_COMMITTED False None empty_store) = (Inr (), t1) \<and>
     commits empty_store cs s \<and> contents s ''b'' = Some ''2'' \<and>
     read s (Some ''b'') False (tx_update cs t1) = (Inr (Some \<lparr>v_data = ''9'', v_meta = None\<rparr>), t2)"
proof (rule sample_commit)
  fix cs s
  let ?new = "new_tx READ_COMMITTED False None empty_store"
  let ?one = "put_item ''b'' (A_UPSERT, Some \<lparr>v_data = ''9'', v_meta = None\<rparr>) ?new"
  assume c: "commits empty_store cs s" and b: "contents s ''b'' = Some ''2''"
  have up: "upsert empty_store (Some ''b'') ''9'' ?new = (Inr (), ?one)"
    using upsert_new_returns[OF valid_key_b, of "''9''" empty_store READ_COMMITTED]
    by (simp add: c_str_b empty_store_def)
  have "tx_state (tx_update cs ?one) = OPEN" by (simp add: tx_update_state) (simp add: new_tx_def)
  then obtain w t2 where r: "read s (Some ''b'') False (tx_update cs ?one) = (Inr w, t2)"
    by (rule read_returns[OF valid_key_b])
  have "tx_run True {} (empty_store, ?one) (s, tx_update cs ?one)"
    using step_commit[OF c] by (rule r_into_rtranclp)
  from read_own_write[OF empty_store_wf new_tx_wf up this _ r] obtain v where
    "w = Some v" "v_data v = ''9''" "v_meta v = None" by auto
  then have "w = Some \<lparr>v_data = ''9'', v_meta = None\<rparr>" by simp
  with up c b r show ?thesis by blast
qed


section \<open>What is sent to the server\<close>

definition may_force :: "tx \<Rightarrow> bool" where
  "may_force t = (case tx_user t of None \<Rightarrow> True | Some u \<Rightarrow> can_force u)"

definition has_writes :: "tx \<Rightarrow> bool" where
  "has_writes t = list_ex (\<lambda>(_, e). is_modification e) (tx_items t)"

lemma finish_state:
  "finish x st t = (r, u) \<Longrightarrow> tx_state t = OPEN \<Longrightarrow> tx_state u \<in> {OPEN, st}"
  by (auto simp: life_evals closed_state_def split: if_split_asm)

lemma submit_state:
  assumes "tx_state t = OPEN" "submit push force t = (r, t')"
  shows "tx_state t' = SUBMITTED \<longleftrightarrow>
    \<not> tx_read_only t \<and> (force \<or> has_writes t \<and> \<not> tx_dirty t) \<and> push \<noteq> None \<and> (force \<longrightarrow> may_force t)"
proof -
  have fut: "tx_state u = SUBMITTED" if "get_future (set_state SUBMITTED t) = (r, u)" for u
    using that assms(1) by (auto simp: life_evals closed_state_def split: if_split_asm)
  have sub: "tx_state (set_state SUBMITTED t) = SUBMITTED"
    using assms(1) by (simp add: set_state_def closed_state_def)
  have mf: "(case tx_user t of None \<Rightarrow> False | Some u \<Rightarrow> \<not> can_force u) \<longleftrightarrow> \<not> may_force t"
    by (simp add: may_force_def split: option.split)
  show ?thesis
    using assms(2) finish_state[of SE_NO_MODIFICATIONS DISCARDED t r t']
      finish_state[of SE_REJECTED_INTEGRITY REJECTED t r t']
      finish_state[of SE_REJECTED_PERMISSION REJECTED t r t'] fut[of t'] sub assms(1)
    unfolding submit_def has_writes_def[symmetric] mf Let_def
    by (auto split: if_split_asm option.splits)
qed



text \<open>
  C21: In every history, the writes of a transaction are to the keys its user wrote, which are valid
  keys the user's permissions cover, an upsert has data to send, and a read-only transaction has no
  write at all.
\<close>

theorem writes_authorized:
  assumes "store_wf s0" "tx_run True W (s0, new_tx level ro (Some usr) s0) (s, t)"
    and "map_of (tx_items t) k = Some (a, w)" "a = A_UPSERT \<or> a = A_DELETE"
  shows "k \<in> W \<and> \<not> ro \<and> is_valid_key k \<and>
     (if a = A_DELETE then is_authorized usr CRUD_DELETE (Some k)
      else (is_authorized usr CRUD_CREATE (Some k) \<or> is_authorized usr CRUD_UPDATE (Some k)) \<and>
        (\<exists>d. d \<noteq> [] \<and> w = Some \<lparr>v_data = d, v_meta = None\<rparr>))"
proof -
  note R = run_from_new[OF assms(1,2)]
  have fr: "tx_read_only t = ro" "tx_user t = Some usr"
    using run_frame[OF assms(2)] assms(1)
    by (simp_all add: run_wf_def new_tx_wf) (simp_all add: new_tx_def)
  have "entry_ok t k (a, w)" using R(2) assms(3) by (simp add: tx_wf_def)
  moreover have "k \<in> W" using R(3) assms(3,4) unfolding writes_in_def is_modification_def by fastforce
  ultimately show ?thesis using assms(4) fr by (auto simp: entry_ok_def denied_def)
qed


definition sample_user :: user where
  "sample_user =
     \<lparr>user_name = ''ann'', user_password = '''',
      permissions = [\<lparr>acl_mode = CRUD_CREATE, acl_pattern = ''**''\<rparr>],
      can_force = False, can_monitor = False\<rparr>"

theorem writes_authorized_witness:
  "\<exists>t. upsert empty_store (Some ''b'') ''9'' (new_tx READ_COMMITTED False (Some sample_user) empty_store) = (Inr (), t) \<and>
     tx_items t = [(''b'', A_UPSERT, Some \<lparr>v_data = ''9'', v_meta = None\<rparr>)] \<and>
     is_valid_key ''b'' \<and>
     (is_authorized sample_user CRUD_CREATE (Some ''b'') \<or> is_authorized sample_user CRUD_UPDATE (Some ''b''))"
proof -
  define one where "one = snd (upsert empty_store (Some ''b'') ''9'' (new_tx READ_COMMITTED False (Some sample_user) empty_store))"
  have u: "upsert empty_store (Some ''b'') ''9'' (new_tx READ_COMMITTED False (Some sample_user) empty_store) = (Inr (), one)"
    unfolding one_def by code_simp
  have i: "tx_items one = [(''b'', A_UPSERT, Some \<lparr>v_data = ''9'', v_meta = None\<rparr>)]"
    unfolding one_def by code_simp
  have "tx_step True {''b''} (empty_store, new_tx READ_COMMITTED False (Some sample_user) empty_store) (empty_store, one)"
    using us_upsert[OF u] by (intro step_user) (simp add: c_str_b)
  from writes_authorized[OF empty_store_wf r_into_rtranclp[of "tx_step True {''b''}", OF this], of "''b''"] i u
  show ?thesis by auto
qed

end
