(* ===== verification/Nplex_Transaction_Life.thy ===== *)
theory Nplex_Transaction_Life
  imports Nplex_Transaction_Props
begin

text \<open>
  The state machine of a transaction and its promise: over every history, when a transaction is
  closed, what its future holds, and that the code never touches a promise in a way the standard
  library answers with an exception.
\<close>

section \<open>Promises\<close>

text \<open>What holds of state and promises between any two calls.\<close>

definition promise_ok :: "tx \<Rightarrow> bool" where
  "promise_ok t \<longleftrightarrow>
     (p_result (tx_promise t) \<noteq> None \<longleftrightarrow> closed_state (tx_state t)) \<and>
     (tx_state t = OPEN \<longrightarrow> \<not> p_retrieved (tx_promise t)) \<and>
     (\<forall>p \<in> set (tx_past t). p_result p = Some (Inr SE_TRY_LATER))"

lemma promise_ok_open:
  "promise_ok t \<Longrightarrow> tx_state t = OPEN \<Longrightarrow> p_result (tx_promise t) = None \<and> \<not> p_retrieved (tx_promise t)"
  by (simp add: promise_ok_def closed_state_def)

lemma finish_ok:
  assumes "promise_ok t" "tx_state t = OPEN" "closed_state st" "finish x st t = (r, t')"
  shows "r = Inr (length (tx_past t))" "promise_ok t'" "tx_state t' = st"
    "tx_promise t' = \<lparr>p_result = Some (Inr x), p_retrieved = True\<rparr>" "tx_past t' = tx_past t"
  using assms promise_ok_open[OF assms(1,2)]
  by (auto simp: life_evals promise_ok_def closed_state_def split: if_split_asm)

lemma submit_cases [consumes 2, case_names finished thrown sent orphan]:
  assumes "tx_state t = OPEN" "submit push force t = (r, t')"
  obtains (finished) x st where "finish x st t = (r, t')" "closed_state st"
  | (thrown) e where "push = Some (Some e)" "r = Inl e" "t' = set_state SUBMITTED t"
  | (sent) "push = Some None" "get_future (set_state SUBMITTED t) = (r, t')"
  | (orphan) "push = None" "r = Inl Ex_no_client" "t' = t"
proof -
  have "finish SE_NO_MODIFICATIONS DISCARDED t = (r, t') \<or> finish SE_REJECTED_INTEGRITY REJECTED t = (r, t') \<or>
      finish SE_REJECTED_PERMISSION REJECTED t = (r, t') \<or>
      (\<exists>e. push = Some (Some e) \<and> r = Inl e \<and> t' = set_state SUBMITTED t) \<or>
      (push = Some None \<and> get_future (set_state SUBMITTED t) = (r, t')) \<or>
      (push = None \<and> r = Inl Ex_no_client \<and> t' = t)"
    using assms unfolding submit_def Let_def
    by (cases push; cases "the push") (simp_all split: if_split_asm)
  moreover have "closed_state DISCARDED" "closed_state REJECTED" by (simp_all add: closed_state_def)
  ultimately show thesis using finished thrown sent orphan by blast
qed

lemma submit_ok:
  assumes "promise_ok t" "submit push force t = (r, t')"
  shows "promise_ok t'" "r = Inl e \<Longrightarrow> e \<in> {Ex_not_open, Ex_no_client} \<or> push = Some (Some e)"
proof -
  have "promise_ok t' \<and> (\<forall>e. r = Inl e \<longrightarrow> e \<in> {Ex_not_open, Ex_no_client} \<or> push = Some (Some e))"
  proof (cases "tx_state t = OPEN")
    case False
    with assms show ?thesis by (auto simp: submit_def)
  next
    case True
    note op = promise_ok_open[OF assms(1) True]
    have sub: "promise_ok (set_state SUBMITTED t)" "tx_promise (set_state SUBMITTED t) = tx_promise t"
      "tx_past (set_state SUBMITTED t) = tx_past t" "tx_state (set_state SUBMITTED t) = SUBMITTED"
      using assms(1) True by (auto simp: set_state_def promise_ok_def closed_state_def)
    have fut: "promise_ok u \<and> (\<exists>n. q = Inr n)" if "get_future (set_state SUBMITTED t) = (q, u)" for q u
      using that sub op unfolding get_future_def
      by (auto simp: promise_ok_def closed_state_def)
    have fin: "promise_ok u \<and> (\<exists>n. q = Inr n)" if "finish x st t = (q, u)" "closed_state st" for x st q u
      using finish_ok[OF assms(1) True that(2,1)] by blast
    show ?thesis using True assms(2)
    proof (cases rule: submit_cases)
      case (finished x st)
      then show ?thesis using fin[of x st r t'] by auto
    next
      case (thrown e)
      then show ?thesis using sub(1) by simp
    next
      case sent
      then show ?thesis using fut[of r t'] by auto
    next
      case orphan
      then show ?thesis using assms(1) by simp
    qed
  qed
  then show "promise_ok t'" "r = Inl e \<Longrightarrow> e \<in> {Ex_not_open, Ex_no_client} \<or> push = Some (Some e)" by blast+
qed

lemma set_submit_code_ok:
  assumes "promise_ok t" "set_submit_code code t = (r, t')"
  shows "promise_ok t'" "r = Inr ()"
  using assms
  by (cases code; auto simp: set_submit_code_def life_evals promise_ok_def closed_state_def
      new_promise_def split: if_split_asm)+

lemma set_submit_error_ok:
  assumes "promise_ok t" "set_submit_error e t = (r, t')"
  shows "promise_ok t'" "r = Inr ()"
  using assms
  by (auto simp: life_evals promise_ok_def closed_state_def split: if_split_asm)

lemma confirm_commit_ok:
  assumes "promise_ok t" "confirm_commit t = (r, t')"
  shows "promise_ok t'" "r = Inr ()"
  using assms
  by (auto simp: life_evals promise_ok_def closed_state_def split: if_split_asm)

lemma discard_ok: "promise_ok t \<Longrightarrow> promise_ok (discard t)"
  by (auto simp: life_evals promise_ok_def closed_state_def split: if_split_asm)

lemma life_ok: "life_step retry t u \<Longrightarrow> promise_ok t \<Longrightarrow> promise_ok u"
proof (induction rule: life_step.induct)
  case (life_type t n)
  then show ?case by (simp add: set_type_def promise_ok_def)
qed (blast intro: submit_ok(1) set_submit_code_ok(1) set_submit_error_ok(1) confirm_commit_ok(1)
  discard_ok)+

lemma frame_ok: "same_frame t u \<Longrightarrow> promise_ok u = promise_ok t"
  by (simp add: same_frame_def promise_ok_def)

lemma step_ok: "tx_step retry W c d \<Longrightarrow> run_wf c \<Longrightarrow> promise_ok (snd c) \<Longrightarrow> promise_ok (snd d)"
proof (induction rule: tx_step.induct)
  case (step_user s t t')
  with frame_ok[OF touches_frame[OF user_touches[OF step_user.hyps step_user.prems(1)]]] show ?case by simp
next
  case (step_life t t' s)
  then show ?case by (auto intro: life_ok)
next
  case (step_commit s cs s' t)
  then show ?case using frame_ok[of t "tx_update cs t"] tx_update_frame[of t cs] by simp
qed

lemma run_ok: "tx_run retry W c d \<Longrightarrow> run_wf c \<Longrightarrow> promise_ok (snd c) \<Longrightarrow> promise_ok (snd d)"
  by (induction rule: rtranclp_induct) (auto intro: step_ok run_keeps_wf)

lemma new_tx_promise_ok: "promise_ok (new_tx level ro u s)"
  by (simp add: promise_ok_def new_tx_def new_promise_def closed_state_def)


text \<open>
  C11: In every history the promise of a transaction is satisfied exactly when the transaction is
  closed, the future of an open one was not taken, the promises replaced after \<open>TRY_LATER\<close> hold that
  answer, and no entry point ever throws \<open>std::future_error\<close>: a submission fails only because the
  transaction is not open, the client is gone or the command could not be queued, and the calls of
  the client never throw.
\<close>

theorem promise_lifecycle:
  assumes "store_wf s0" "tx_run True W (s0, new_tx level ro u s0) (s, t)"
  shows "(p_result (tx_promise t) \<noteq> None \<longleftrightarrow> closed_state (tx_state t)) \<and>
    (tx_state t = OPEN \<longrightarrow> \<not> p_retrieved (tx_promise t)) \<and>
    (\<forall>p \<in> set (tx_past t). p_result p = Some (Inr SE_TRY_LATER)) \<and>
    (\<forall>push force e. fst (submit push force t) = Inl e \<longrightarrow>
       e \<in> {Ex_not_open, Ex_no_client} \<or> push = Some (Some e)) \<and>
    (\<forall>code. fst (set_submit_code code t) = Inr ()) \<and> (\<forall>e. fst (set_submit_error e t) = Inr ()) \<and>
    fst (confirm_commit t) = Inr ()"
proof -
  have ok: "promise_ok t"
    using run_ok[OF assms(2)] assms(1) new_tx_promise_ok by (simp add: run_wf_def new_tx_wf)
  have sub: "e \<in> {Ex_not_open, Ex_no_client} \<or> push = Some (Some e)"
    if "fst (submit push force t) = Inl e" for push force e
    by (rule submit_ok(2)[OF ok _ that]) (rule prod.collapse[symmetric])
  have code: "fst (set_submit_code code t) = Inr ()" for code
    by (rule set_submit_code_ok(2)[OF ok]) (rule prod.collapse[symmetric])
  have err: "fst (set_submit_error e t) = Inr ()" for e
    by (rule set_submit_error_ok(2)[OF ok]) (rule prod.collapse[symmetric])
  have conf: "fst (confirm_commit t) = Inr ()"
    by (rule confirm_commit_ok(2)[OF ok]) (rule prod.collapse[symmetric])
  from ok sub code err conf show ?thesis unfolding promise_ok_def by blast
qed

text \<open>A transaction that was sent, refused for now, and sent again.\<close>

definition retried_tx :: tx where
  "retried_tx =
     (let t1 = snd (upsert empty_store (Some ''b'') ''9'' (new_tx READ_COMMITTED False None empty_store));
          t2 = snd (submit (Some None) False t1);
          t3 = snd (set_submit_code SC_TRY_LATER t2)
      in snd (submit (Some None) False t3))"

lemma retried_run:
  "tx_run True {''b''} (empty_store, new_tx READ_COMMITTED False None empty_store) (empty_store, retried_tx)"
proof -
  let ?new = "new_tx READ_COMMITTED False None empty_store"
  let ?u = "snd (upsert empty_store (Some ''b'') ''9'' ?new)"
  let ?v = "snd (submit (Some None) False ?u)"
  let ?w = "snd (set_submit_code SC_TRY_LATER ?v)"
  have "tx_step True {''b''} (empty_store, ?new) (empty_store, ?u)"
    by (intro step_user us_upsert[OF surjective_pairing]) (simp add: c_str_b)
  moreover have "tx_step True {''b''} (empty_store, ?u) (empty_store, ?v)"
    by (intro step_life life_submit[OF surjective_pairing])
  moreover have "tx_step True {''b''} (empty_store, ?v) (empty_store, ?w)"
    by (intro step_life life_code[OF surjective_pairing]) simp
  moreover have "tx_step True {''b''} (empty_store, ?w) (empty_store, retried_tx)"
    unfolding retried_tx_def Let_def by (intro step_life life_submit[OF surjective_pairing])
  ultimately show ?thesis
    by (meson converse_rtranclp_into_rtranclp r_into_rtranclp)
qed

theorem promise_lifecycle_witness:
  "tx_state retried_tx = SUBMITTED \<and> map p_result (tx_past retried_tx) = [Some (Inr SE_TRY_LATER)] \<and>
   p_result (tx_promise retried_tx) = None"
proof -
  note P = promise_lifecycle[OF empty_store_wf retried_run]
  have st: "tx_state retried_tx = SUBMITTED" "length (tx_past retried_tx) = 1"
    unfolding retried_tx_def by code_simp+
  from st(2) obtain p where p: "tx_past retried_tx = [p]" by (auto simp: length_Suc_conv)
  with P have "p_result p = Some (Inr SE_TRY_LATER)" by simp
  moreover from P st(1) have "p_result (tx_promise retried_tx) = None" by (simp add: closed_state_def)
  ultimately show ?thesis using st(1) p by simp
qed

subsection \<open>What a future holds never changes\<close>

definition promises :: "tx \<Rightarrow> promise list" where
  "promises t = tx_past t @ [tx_promise t]"

definition results_kept :: "tx \<Rightarrow> tx \<Rightarrow> bool" where
  "results_kept t u \<longleftrightarrow>
     length (promises t) \<le> length (promises u) \<and>
     (\<forall>i r. i < length (promises t) \<and> p_result (promises t ! i) = Some r \<longrightarrow>
        p_result (promises u ! i) = Some r) \<and>
     (closed_state (tx_state t) \<longrightarrow> tx_state u = tx_state t)"

lemma results_keptI:
  assumes "tx_past u = tx_past t" "closed_state (tx_state t) \<Longrightarrow> tx_state u = tx_state t"
    "p_result (tx_promise t) = None \<or> p_result (tx_promise u) = p_result (tx_promise t)"
  shows "results_kept t u"
  using assms by (auto simp: results_kept_def promises_def nth_append less_Suc_eq)

lemma results_kept_refl [simp]: "results_kept t t"
  by (simp add: results_kept_def)

lemma results_kept_trans: "results_kept t u \<Longrightarrow> results_kept u v \<Longrightarrow> results_kept t v"
  unfolding results_kept_def by (metis le_trans less_le_trans)

lemma frame_results: "same_frame t u \<Longrightarrow> results_kept t u"
  by (rule results_keptI) (simp_all add: same_frame_def)

lemma set_state_results: "results_kept t (set_state st t)"
  by (rule results_keptI) (simp_all add: set_state_def)

lemma satisfy_results: "satisfy r t = (q, u) \<Longrightarrow> results_kept t u"
  by (rule results_keptI) (auto simp: satisfy_eval split: if_split_asm)

lemma get_future_results: "get_future t = (q, u) \<Longrightarrow> results_kept t u"
  by (rule results_keptI) (auto simp: get_future_def split: if_split_asm)

lemma satisfy_set_state_results: "satisfy r (set_state st t) = (q, u) \<Longrightarrow> results_kept t u"
  using results_kept_trans[OF set_state_results satisfy_results] .

lemma finish_results: "finish x st t = (q, u) \<Longrightarrow> results_kept t u"
proof (cases "p_result (tx_promise t)")
  case (Some y)
  then show "finish x st t = (q, u) \<Longrightarrow> ?thesis" by (simp add: finish_eval)
next
  case None
  let ?p = "t\<lparr>tx_promise := (tx_promise t)\<lparr>p_result := Some (Inr x)\<rparr>\<rparr>"
  have "results_kept t ?p" using None by (intro results_keptI) simp_all
  moreover assume "finish x st t = (q, u)"
  then have "get_future (set_state st ?p) = (q, u)" using None by (simp add: finish_eval)
  ultimately show ?thesis
    using results_kept_trans set_state_results get_future_results by metis
qed

lemma submit_results: "submit push force t = (r, u) \<Longrightarrow> results_kept t u"
proof (cases "tx_state t = OPEN")
  case False
  then show "submit push force t = (r, u) \<Longrightarrow> ?thesis" by (auto dest: submit_not_open)
next
  case True
  assume run: "submit push force t = (r, u)"
  show ?thesis using True run
  proof (cases rule: submit_cases)
    case (finished x st)
    then show ?thesis using finish_results by blast
  next
    case sent
    then show ?thesis using results_kept_trans[OF set_state_results get_future_results] by blast
  qed (simp_all add: set_state_results)
qed

lemma set_submit_code_results: "set_submit_code code t = (r, u) \<Longrightarrow> results_kept t u"
proof (cases "code = SC_TRY_LATER \<and> tx_state t = SUBMITTED")
  case True
  assume "set_submit_code code t = (r, u)"
  with True have "u = set_state OPEN t \<or>
      (tx_state u = OPEN \<and> tx_past u = tx_past t @ [(tx_promise t)\<lparr>p_result := Some (Inr SE_TRY_LATER)\<rparr>] \<and>
       p_result (tx_promise t) = None)"
    by (auto simp: set_submit_code_def life_evals closed_state_def split: if_split_asm)
  then show ?thesis
  proof
    assume "u = set_state OPEN t"
    then show ?thesis by (simp add: set_state_results)
  next
    assume "tx_state u = OPEN \<and> tx_past u = tx_past t @ [(tx_promise t)\<lparr>p_result := Some (Inr SE_TRY_LATER)\<rparr>] \<and>
       p_result (tx_promise t) = None"
    with True show ?thesis
      by (auto simp: results_kept_def promises_def nth_append less_Suc_eq closed_state_def)
  qed
next
  case False
  assume "set_submit_code code t = (r, u)"
  with False have "u = t \<or> u = set_state ACCEPTED t \<or> (\<exists>x st. satisfy x (set_state st t) = (r, u))"
    by (cases code) (auto simp: set_submit_code_def split: if_split_asm)
  then show ?thesis using set_state_results satisfy_set_state_results by auto
qed

lemma life_results: "life_step retry t u \<Longrightarrow> results_kept t u"
proof (induction rule: life_step.induct)
  case (life_type t n)
  show ?case by (rule results_keptI) (simp_all add: set_type_def)
next
  case (life_discard t)
  have "satisfy (Inl Ex_discarded) (set_state DISCARDED t) = (fst (satisfy (Inl Ex_discarded) (set_state DISCARDED t)), discard t)"
    by (simp add: discard_def)
  then show ?case by (rule satisfy_set_state_results)
next
  case (life_error e t r t')
  then show ?case by (auto simp: set_submit_error_def split: if_split_asm intro: satisfy_set_state_results)
next
  case (life_confirm t r t')
  then show ?case by (auto simp: confirm_commit_def split: if_split_asm intro: satisfy_set_state_results)
qed (blast intro: submit_results set_submit_code_results)+


lemma step_results: "tx_step retry W c d \<Longrightarrow> run_wf c \<Longrightarrow> results_kept (snd c) (snd d)"
proof (induction rule: tx_step.induct)
  case (step_user s t t')
  with frame_results[OF touches_frame[OF user_touches[OF step_user.hyps step_user.prems]]] show ?case by simp
next
  case (step_life t t' s)
  then show ?case by (auto intro: life_results)
next
  case (step_commit s cs s' t)
  then show ?case using tx_update_frame[of t cs] by (auto intro: frame_results)
qed

lemma run_results: "tx_run retry W c d \<Longrightarrow> run_wf c \<Longrightarrow> results_kept (snd c) (snd d)"
proof (induction rule: rtranclp_induct)
  case base
  show ?case by simp
next
  case (step y z)
  with step_results[OF step.hyps(2) run_keeps_wf[OF step.hyps(1) step.prems]] show ?case
    by (blast intro: results_kept_trans)
qed

text \<open>
  C34: What a future holds never changes: once a promise of a transaction, current or replaced, has a
  value or an exception, it keeps it through every later history, and a closed transaction stays in
  the closed state it reached.
\<close>

theorem future_results_stable:
  assumes "store_wf s" "tx_wf t" "tx_run True W (s, t) (s', t')"
  shows "(\<forall>i r. i < length (promises t) \<and> p_result (promises t ! i) = Some r \<longrightarrow>
      i < length (promises t') \<and> p_result (promises t' ! i) = Some r) \<and>
    (closed_state (tx_state t) \<longrightarrow> tx_state t' = tx_state t)"
  using run_results[OF assms(3)] assms(1,2) unfolding results_kept_def run_wf_def
  by (auto intro: less_le_trans)

theorem future_results_stable_witness:
  "map p_result (promises retried_tx) = [Some (Inr SE_TRY_LATER), None] \<and>
   map p_result (promises (discard retried_tx)) = [Some (Inr SE_TRY_LATER), Some (Inl Ex_discarded)] \<and>
   tx_state (snd (submit (Some None) True (discard retried_tx))) = DISCARDED"
proof -
  have wf: "tx_wf retried_tx"
    using run_keeps_wf[OF retried_run] empty_store_wf by (simp add: run_wf_def new_tx_wf)
  have "tx_step True {} (empty_store, retried_tx) (empty_store, discard retried_tx)"
    by (intro step_life life_discard)
  then have run: "tx_run True {} (empty_store, retried_tx) (empty_store, discard retried_tx)"
    by (rule r_into_rtranclp)
  have "tx_step True {} (empty_store, discard retried_tx)
      (empty_store, snd (submit (Some None) True (discard retried_tx)))"
    by (intro step_life life_submit[OF surjective_pairing])
  then have run2: "tx_run True {} (empty_store, discard retried_tx)
      (empty_store, snd (submit (Some None) True (discard retried_tx)))"
    by (rule r_into_rtranclp)
  have wf2: "tx_wf (discard retried_tx)" using wf discard_items same_items_wf by blast
  have now: "map p_result (promises retried_tx) = [Some (Inr SE_TRY_LATER), None]"
    "p_result (promises (discard retried_tx) ! 1) = Some (Inl Ex_discarded)"
    "length (promises (discard retried_tx)) = 2" "tx_state (discard retried_tx) = DISCARDED"
    unfolding retried_tx_def by code_simp+
  then have n: "0 < length (promises retried_tx)" "p_result (promises retried_tx ! 0) = Some (Inr SE_TRY_LATER)"
    by (auto simp: promises_def nth_append split: if_split_asm)
  have "p_result (promises (discard retried_tx) ! 0) = Some (Inr SE_TRY_LATER)"
    using conjunct1[OF future_results_stable[OF empty_store_wf wf run]] n by blast
  then have "map p_result (promises (discard retried_tx)) = [Some (Inr SE_TRY_LATER), Some (Inl Ex_discarded)]"
    using now(2,3) by (auto simp: list_eq_iff_nth_eq less_2_cases_iff)
  moreover have "tx_state (snd (submit (Some None) True (discard retried_tx))) = DISCARDED"
    using conjunct2[OF future_results_stable[OF empty_store_wf wf2 run2]] now(4) by (simp add: closed_state_def)
  ultimately show ?thesis using now(1) by blast
qed

section \<open>A sent transaction misses commits\<close>


end
