(* ===== verification/Nplex_Transaction_Keys.thy ===== *)
theory Nplex_Transaction_Keys
  imports Nplex_Transaction_Props Nplex_Glob_Spec
begin

text \<open>
  Operations on sets of keys: what \<open>for_each\<close> visits and \<open>remove\<close> by pattern removes, when the commits
  of others make a transaction dirty, and the corners where the code is not what it seems to mean.
\<close>

section \<open>The keys of a pattern\<close>

lemma prefix_c_str: "prefix (c_str k) k"
  by (metis c_str_def prefixI takeWhile_dropWhile_id)

text \<open>A pattern without bracket or backslash before its first star or question mark.\<close>

definition plain_prefix :: "string \<Rightarrow> bool" where
  "plain_prefix p \<longleftrightarrow> list_all plain_byte (pattern_prefix p)"

lemma pattern_hit_plain:
  assumes "c_str p \<noteq> []" "plain_prefix (c_str p)"
  shows "pattern_hit (Some p) k \<longleftrightarrow> glob_match k (c_str p)"
proof -
  let ?q = "pattern_prefix (c_str p)"
  have "c_str p = ?q @ dropWhile (\<lambda>c. c \<noteq> CHR ''*'' \<and> c \<noteq> CHR ''?'') (c_str p)"
    by (simp add: pattern_prefix_def)
  then have "glob_match k (c_str p) \<Longrightarrow> prefix ?q (c_str k)"
    using glob_match_prefix[OF assms(2)[unfolded plain_prefix_def]] by metis
  then have "glob_match k (c_str p) \<Longrightarrow> prefix ?q k"
    using prefix_c_str prefix_order.trans by blast
  then show ?thesis
    using assms(1) by (auto simp: pattern_hit_def effective_pattern_def hit_def)
qed


text \<open>A transaction with two writes on an empty store.\<close>

definition two_writes :: tx where
  "two_writes =
     snd (upsert empty_store (Some ''c'') ''8''
       (snd (upsert empty_store (Some ''b'') ''9'' (new_tx SERIALIZABLE False None empty_store))))"

lemma two_writes_items:
  "tx_items two_writes =
     [(''b'', A_UPSERT, Some \<lparr>v_data = ''9'', v_meta = None\<rparr>),
      (''c'', A_UPSERT, Some \<lparr>v_data = ''8'', v_meta = None\<rparr>)]"
  unfolding two_writes_def by code_simp

lemma two_writes_wf: "tx_wf two_writes"
proof -
  let ?new = "new_tx SERIALIZABLE False None empty_store"
  let ?one = "snd (upsert empty_store (Some ''b'') ''9'' ?new)"
  have "tx_step True {''b'', ''c''} (empty_store, ?new) (empty_store, ?one)"
    by (intro step_user us_upsert[OF surjective_pairing]) (simp add: c_str_b)
  moreover have "tx_step True {''b'', ''c''} (empty_store, ?one) (empty_store, two_writes)"
    unfolding two_writes_def by (intro step_user us_upsert[OF surjective_pairing]) (simp add: c_str_def)
  ultimately have "tx_run True {''b'', ''c''} (empty_store, ?new) (empty_store, two_writes)"
    by (meson converse_rtranclp_into_rtranclp r_into_rtranclp)
  then show ?thesis using run_from_new(2)[OF empty_store_wf] by blast
qed

lemma pattern_b: "c_str ''b*'' = ''b*''" "plain_prefix (c_str ''b*'')" "c_str ''b*'' \<noteq> []"
  by (simp_all add: c_str_def plain_prefix_def pattern_prefix_def plain_byte_def)

lemma matches_b: "glob_match ''b'' ''b*''" "\<not> glob_match ''c'' ''b*''"
  by code_simp+


lemma remove_key_seen:
  assumes "tx_wf t" "remove_key s k t = (Inr b, t')"
  shows "seen (map_of (tx_items t') k) (map_of (m_data s) k) = None"
    "j \<noteq> k \<Longrightarrow> map_of (tx_items t') j = map_of (tx_items t) j"
proof -
  note wf = tx_wf_items[OF assms(1)]
  have "(t' = t \<and> seen (map_of (tx_items t) k) (map_of (m_data s) k) = None) \<or>
      t' = put_item k (A_DELETE, None) t"
  proof (cases "map_of (tx_items t) k")
    case None
    with assms(2) show ?thesis
      by (auto simp: remove_key_def emplace_absent split: if_split_asm option.splits)
  next
    case (Some e)
    with assms(2) show ?thesis
      by (auto simp: remove_key_def remove_item_def split: if_split_asm)
  qed
  then show "seen (map_of (tx_items t') k) (map_of (m_data s) k) = None"
    "j \<noteq> k \<Longrightarrow> map_of (tx_items t') j = map_of (tx_items t) j"
    by (auto simp: put_item_lookup[OF wf])
qed

lemma remove_callback_eval:
  "remove_callback s k v t =
     (case remove_key s k t of (Inl e, u) \<Rightarrow> (Inl e, u) | (Inr b, u) \<Rightarrow> (Inr True, u))"
  by (simp add: remove_callback_def bind_op_def split: prod.split sum.split)

lemma remove_loop:
  assumes "tx_wf t" "for_each_loop (remove_callback s) kvs n t = (Inr m, t')"
  shows "m = n + length kvs \<and>
    (\<forall>k. if k \<in> fst ` set kvs then seen (map_of (tx_items t') k) (map_of (m_data s) k) = None
         else map_of (tx_items t') k = map_of (tx_items t) k)"
  using assms
proof (induction kvs arbitrary: n t)
  case Nil
  then show ?case by simp
next
  case (Cons kv kvs)
  obtain k v where kv: "kv = (k, v)" by (rule prod.exhaust)
  obtain b u where u: "remove_key s k t = (Inr b, u)"
    and loop: "for_each_loop (remove_callback s) kvs (n + 1) u = (Inr m, t')"
    using Cons.prems(2)
    by (cases "remove_key s k t"; cases "fst (remove_key s k t)")
      (auto simp: kv remove_callback_eval[of s k v t] split: if_split_asm)
  have "tx_wf u"
    using touches_keep(1)[OF remove_key_touches[OF u, of UNIV]] Cons.prems(1) by simp
  note IH = Cons.IH[OF this loop] and R = remove_key_seen[OF Cons.prems(1) u]
  have "if j \<in> fst ` set (kv # kvs) then seen (map_of (tx_items t') j) (map_of (m_data s) j) = None
      else map_of (tx_items t') j = map_of (tx_items t) j" for j
    using conjunct2[OF IH, rule_format, of j] R(1) R(2)[of j]
    by (cases "j = k"; cases "j \<in> fst ` set kvs") (simp_all add: kv)
  moreover have "m = n + length (kv # kvs)" using IH by simp
  ultimately show ?case by blast
qed




section \<open>When commits of others make a transaction dirty\<close>

text \<open>
  C20: A commit makes an open transaction dirty exactly when it was dirty before, or a changed key is
  among its items, or a changed key matches one of its ensures, or, under \<open>SERIALIZABLE\<close>, when the
  commit changes one key twice.  A transaction that is not open is left as it is.
\<close>

theorem update_dirties_exactly:
  assumes "tx_wf t"
  shows "(tx_state t \<noteq> OPEN \<longrightarrow> tx_update cs t = t) \<and>
    (tx_state t = OPEN \<longrightarrow>
       (tx_dirty (tx_update cs t) \<longleftrightarrow>
          tx_dirty t \<or>
          (\<exists>c \<in> set cs. map_of (tx_items t) (ch_key c) \<noteq> None) \<or>
          (\<exists>c \<in> set cs. \<exists>p \<in> fst ` set (tx_ensures t). glob_match (ch_key c) p) \<or>
          (tx_isolation t = SERIALIZABLE \<and> \<not> distinct (map ch_key cs))))"
proof (intro conjI impI)
  show "tx_state t \<noteq> OPEN \<Longrightarrow> tx_update cs t = t" by (rule tx_update_closed)
next
  assume op: "tx_state t = OPEN"
  define u where "u = (if tx_isolation t = SERIALIZABLE then update_serializable cs t else update_default cs t)"
  have "tx_update cs t =
      (if tx_dirty u \<or> tx_ensures u = [] then u else if ensure_hit cs u then u\<lparr>tx_dirty := True\<rparr> else u)"
    using op by (cases "tx_isolation t") (simp_all add: tx_update_def u_def)
  moreover have "tx_ensures u = tx_ensures t"
    using update_serializable_frame[of t cs] update_default_frame[of t cs] by (simp add: u_def)
  moreover have "ensure_hit cs u \<longleftrightarrow> (\<exists>c \<in> set cs. \<exists>p \<in> fst ` set (tx_ensures u). glob_match (ch_key c) p)"
    by (force simp: ensure_hit_def list_ex_iff)
  ultimately have "tx_dirty (tx_update cs t) \<longleftrightarrow>
      tx_dirty u \<or> (\<exists>c \<in> set cs. \<exists>p \<in> fst ` set (tx_ensures t). glob_match (ch_key c) p)"
    by auto
  moreover have "tx_dirty u \<longleftrightarrow>
      tx_dirty t \<or> (\<exists>c \<in> set cs. map_of (tx_items t) (ch_key c) \<noteq> None) \<or>
      (tx_isolation t = SERIALIZABLE \<and> \<not> distinct (map ch_key cs))"
  proof (cases "tx_isolation t = SERIALIZABLE")
    case True
    then show ?thesis unfolding u_def using update_serializable_dirty[OF assms True, of cs] by simp
  next
    case False
    then show ?thesis unfolding u_def using update_default_dirty[of cs t] by simp
  qed
  ultimately show "tx_dirty (tx_update cs t) \<longleftrightarrow>
          tx_dirty t \<or>
          (\<exists>c \<in> set cs. map_of (tx_items t) (ch_key c) \<noteq> None) \<or>
          (\<exists>c \<in> set cs. \<exists>p \<in> fst ` set (tx_ensures t). glob_match (ch_key c) p) \<or>
          (tx_isolation t = SERIALIZABLE \<and> \<not> distinct (map ch_key cs))"
    by blast
qed

definition change_of :: "string \<Rightarrow> change" where
  "change_of k = \<lparr>ch_action = CREATE, ch_key = k, ch_new = Some \<lparr>v_data = ''1'', v_meta = None\<rparr>, ch_old = None\<rparr>"

theorem update_dirties_exactly_witness:
  "tx_dirty (tx_update [change_of ''b''] two_writes) \<and> \<not> tx_dirty (tx_update [change_of ''d''] two_writes) \<and>
   tx_dirty (tx_update [change_of ''d'', change_of ''d''] two_writes)"
proof -
  have f: "tx_state two_writes = OPEN" "\<not> tx_dirty two_writes" "tx_ensures two_writes = []"
    "tx_isolation two_writes = SERIALIZABLE"
    unfolding two_writes_def by code_simp+
  show ?thesis
    using update_dirties_exactly[OF two_writes_wf, of "[change_of ''b'']"]
      update_dirties_exactly[OF two_writes_wf, of "[change_of ''d'']"]
      update_dirties_exactly[OF two_writes_wf, of "[change_of ''d'', change_of ''d'']"]
    by (simp add: f two_writes_items change_of_def)
qed

section \<open>Corners\<close>

text \<open>
  \<open>for_each\<close> takes the literal prefix of a pattern to end at the first star or question mark, but
  a bracket or a backslash before it is not literal either: a key that matches such a pattern, and
  is visible, is not visited.
\<close>

theorem for_each_misses_brackets:
  "glob_match ''b'' ''[ab]*'' \<and>
   seen (map_of (tx_items two_writes) ''b'') None = Some \<lparr>v_data = ''9'', v_meta = None\<rparr> \<and>
   fst (for_each_internal empty_store (Some ''[ab]*'') two_writes) = []"
  unfolding two_writes_def by code_simp

definition creates_b :: update_msg where
  "creates_b = sample_update\<lparr>upd_upserts := Some [Some \<lparr>kv_key = Some ''b'', kv_value = Some ''2''\<rparr>], upd_deletes := None\<rparr>"

text \<open>
  A \<open>SERIALIZABLE\<close> transaction that reads, as absent, a key someone created since is neither
  marked dirty nor keeps a record of the read: it passes the conflict check of \<open>submit\<close> although what
  it read is not the current content.  A present pre-image, when read, does make it dirty.
\<close>

theorem absent_read_unnoticed:
  "let t1 = snd (upsert empty_store (Some ''c'') ''9'' (new_tx SERIALIZABLE False None empty_store));
       (r, s) = update (Some creates_b) empty_store;
       t2 = tx_update (case r of Inl e \<Rightarrow> [] | Inr (cs, m) \<Rightarrow> cs) t1;
       (v, t3) = read s (Some ''b'') False t2;
       (q, t4) = submit (Some None) False t3
   in v = Inr None \<and> map_option v_data (map_of (m_data s) ''b'') = Some ''2'' \<and>
      \<not> tx_dirty t3 \<and> map_of (tx_items t3) ''b'' = Some (A_SNAPSHOT, None) \<and> tx_state t4 = SUBMITTED"
  by code_simp

text \<open>
  \<open>upsert_if_changed\<close> of the value a key already has writes nothing; it records that it relied on
  the value under \<open>REPEATABLE_READ\<close>, but under \<open>SERIALIZABLE\<close>, the stricter level, it leaves the
  transaction as it was, so that a later commit to the key goes unnoticed.
\<close>

theorem unchanged_upsert_recorded:
  assumes "tx_wf t" "upsert_if_changed s (Some k) d t = (Inr False, t')"
    and "map_of (tx_items t) (c_str k) = None"
  shows "\<exists>v. map_of (m_data s) (c_str k) = Some v \<and> v_data v = d \<and>
     (tx_isolation t = SERIALIZABLE \<longrightarrow> t' = t) \<and>
     (tx_isolation t = REPEATABLE_READ \<longrightarrow> map_of (tx_items t') (c_str k) = Some (A_READ, Some v))"
proof -
  have run: "upsert_store s (c_str k) d False t = (Inr False, t')"
    using assms(2,3) by (simp add: upsert_if_changed_def upsert_internal_def Let_def split: if_split_asm)
  then obtain v where v: "map_of (m_data s) (c_str k) = Some v"
    by (cases "map_of (m_data s) (c_str k)") (auto simp: upsert_store_def Let_def split: if_split_asm)
  with run have "v_data v = d"
    "t' = (if tx_isolation t = REPEATABLE_READ then emplace_item (c_str k) (A_READ, Some v) t else t)"
    by (auto simp: upsert_store_def Let_def split: if_split_asm)
  then show ?thesis using v by (simp add: emplace_absent[OF assms(3)] put_item_lookup[OF tx_wf_items[OF assms(1)]])
qed


definition store_b :: store where
  "store_b = snd (update (Some creates_b) empty_store)"

theorem unchanged_upsert_recorded_witness:
  "snd (upsert_if_changed store_b (Some ''b'') ''2'' (new_tx SERIALIZABLE False None store_b)) =
     new_tx SERIALIZABLE False None store_b \<and>
   map_of (tx_items (snd (upsert_if_changed store_b (Some ''b'') ''2''
     (new_tx REPEATABLE_READ False None store_b)))) ''b'' = Some (A_READ, map_of (m_data store_b) ''b'')"
proof -
  have run: "fst (upsert_if_changed store_b (Some ''b'') ''2'' (new_tx l False None store_b)) = Inr False"
    if "l = SERIALIZABLE \<or> l = REPEATABLE_READ" for l
    using that by (elim disjE) (simp_all only:, code_simp+)
  have items: "map_of (tx_items (new_tx l False None store_b)) (c_str ''b'') = None" for l
    by (simp add: new_tx_def)
  have eq: "p = (x, snd p)" if "fst p = x" for p :: "(exn + bool) \<times> tx" and x
    using that by auto
  have lev: "tx_isolation (new_tx l False None store_b) = l" for l by (simp add: new_tx_def)
  note U = unchanged_upsert_recorded[OF new_tx_wf eq[OF run] items, unfolded lev]
  show ?thesis using U[of SERIALIZABLE] U[of REPEATABLE_READ] by (auto simp: c_str_b)
qed

end
