(* ===== verification/Nplex_Crc.thy ===== *)
theory Nplex_Crc
  imports Nplex_Base
begin

unbundle bit_operations_syntax

text \<open>
  The checksum of the wire format, \<open>deps/cppcrc.h\<close>: the table-driven, reflected CRC32, its
  equivalence with the bit-by-bit definition, and the errors it detects.  The templates of the
  header are read at the one instance the code uses, \<open>CRC32::CRC32\<close>.
\<close>

section \<open>The code\<close>

definition nibble_lookup :: "u8 list" where
  "nibble_lookup = [0x0, 0x8, 0x4, 0xc, 0x2, 0xa, 0x6, 0xe, 0x1, 0x9, 0x5, 0xd, 0x3, 0xb, 0x7, 0xf]"

definition reverse_bits8 :: "u8 \<Rightarrow> u8" where
  "reverse_bits8 x =
     push_bit 4 (nibble_lookup ! unat (x AND 0x0F)) OR nibble_lookup ! unat (drop_bit 4 x)"

definition reverse_bits16 :: "16 word \<Rightarrow> 16 word" where
  "reverse_bits16 x =
     push_bit 8 (ucast (reverse_bits8 (ucast x))) OR ucast (reverse_bits8 (ucast (drop_bit 8 x)))"

definition reverse_bits32 :: "u32 \<Rightarrow> u32" where
  "reverse_bits32 x =
     push_bit 16 (ucast (reverse_bits16 (ucast x))) OR ucast (reverse_bits16 (ucast (drop_bit 16 x)))"

definition crc_poly :: u32 where
  "crc_poly = 0x04C11DB7"

text \<open>One round of the loop of \<open>get_crc_table_value_at_index\<close>; the mask is the top bit.\<close>

definition table_round :: "u32 \<Rightarrow> u32" where
  "table_round r = (if r AND push_bit 31 1 \<noteq> 0 then push_bit 1 r XOR crc_poly else push_bit 1 r)"

definition crc_table_value :: "nat \<Rightarrow> u32" where
  "crc_table_value index =
     reverse_bits32 ((table_round ^^ 32) (drop_bit 24 (reverse_bits32 (of_nat index))))"

definition crc_lookup :: "u32 list" where
  "crc_lookup = map crc_table_value [0..<256]"

text \<open>\<open>calculate_crc\<close> with \<open>refl_in\<close> and \<open>refl_out\<close>, and \<open>calc\<close>, which goes on from a prior value.\<close>

definition crc_byte :: "u32 \<Rightarrow> u8 \<Rightarrow> u32" where
  "crc_byte crc b = crc_lookup ! unat (ucast (ucast b XOR crc) :: u8) XOR drop_bit 8 crc"

definition calculate_crc :: "u8 list \<Rightarrow> u32 \<Rightarrow> u32" where
  "calculate_crc bytes crc = foldl crc_byte (reverse_bits32 crc) bytes XOR 0xFFFFFFFF"

definition crc_null :: u32 where
  "crc_null = reverse_bits32 0xFFFFFFFF XOR 0xFFFFFFFF"

definition crc32_calc :: "u8 list \<Rightarrow> u32 \<Rightarrow> u32" where
  "crc32_calc bytes prior = calculate_crc bytes (reverse_bits32 (prior XOR 0xFFFFFFFF))"

section \<open>Reversal\<close>

lemma reverse8_all: "list_all (\<lambda>n. reverse_bits8 (of_nat n) = word_reverse (of_nat n)) [0..<256]"
  by code_simp


lemma reverse8: "reverse_bits8 x = word_reverse x"
proof -
  have "unat x < 256" using unsigned_less[of x] by simp
  then have "reverse_bits8 (of_nat (unat x)) = word_reverse (of_nat (unat x) :: u8)"
    using reverse8_all by (auto simp only: list_all_iff set_upt atLeastLessThan_iff)
  then show ?thesis by simp
qed

lemma reverse16: "reverse_bits16 x = word_reverse x"
proof (rule bit_word_eqI)
  fix n assume "n < LENGTH(16)"
  then show "bit (reverse_bits16 x) n = bit (word_reverse x) n"
    by (cases "n < 8") (auto simp: reverse_bits16_def reverse8 bit_simps)
qed

lemma reverse32: "reverse_bits32 x = word_reverse x"
proof (rule bit_word_eqI)
  fix n assume "n < LENGTH(32)"
  then show "bit (reverse_bits32 x) n = bit (word_reverse x) n"
    by (cases "n < 16") (auto simp: reverse_bits32_def reverse16 bit_simps)
qed

lemma reverse_xor: "word_reverse (x XOR y) = word_reverse x XOR (word_reverse y :: 'a :: len word)"
  by (rule bit_word_eqI) (simp add: bit_simps)

section \<open>The bit-by-bit definition\<close>

text \<open>The reference: one bit at a time, the polynomial reflected.\<close>

definition crc_bit :: "u32 \<Rightarrow> u32" where
  "crc_bit x = (if bit x 0 then drop_bit 1 x XOR 0xEDB88320 else drop_bit 1 x)"

definition crc_reference :: "u8 list \<Rightarrow> u32" where
  "crc_reference bytes =
     foldl (\<lambda>crc b. (crc_bit ^^ 8) (crc XOR ucast b)) 0xFFFFFFFF bytes XOR 0xFFFFFFFF"

lemma crc_bit_xor: "crc_bit (x XOR y) = crc_bit x XOR crc_bit y"
proof -
  have "drop_bit 1 (x XOR y) = drop_bit 1 x XOR drop_bit 1 y" by (simp add: drop_bit_xor)
  then show ?thesis by (auto simp: crc_bit_def bit_simps ac_simps)
qed

lemma crc_bits_xor: "(crc_bit ^^ n) (x XOR y) = (crc_bit ^^ n) x XOR (crc_bit ^^ n) y"
  by (induction n) (simp_all add: crc_bit_xor)

text \<open>A round of the table loop is a bit step seen in the mirror.\<close>

lemma reverse_poly: "word_reverse crc_poly = 0xEDB88320"
  unfolding crc_poly_def by code_simp

lemma bit_push_u32: "bit (push_bit n (x :: u32)) i \<longleftrightarrow> n \<le> i \<and> i < 32 \<and> bit x (i - n)"
  by (auto simp: bit_push_bit_iff)

lemma reverse_push: "word_reverse (push_bit 1 (r :: u32)) = drop_bit 1 (word_reverse r)"
  unfolding bit_eq_iff bit_drop_bit_eq bit_word_reverse_iff bit_push_u32 o_apply
  by (auto simp: bit_word_reverse_iff)

lemma reverse_round: "word_reverse (table_round r) = crc_bit (word_reverse r)"
proof -
  have "r AND push_bit 31 1 \<noteq> 0 \<longleftrightarrow> bit r 31"
    using and_exp_eq_0_iff_not_bit[of r 31] by (simp add: push_bit_eq_mult)
  moreover have "bit (word_reverse r) 0 \<longleftrightarrow> bit r 31" by (simp add: bit_simps)
  ultimately show ?thesis
    by (cases "bit r 31")
      (simp_all only: table_round_def crc_bit_def reverse_xor reverse_poly reverse_push if_True if_False simp_thms)
qed

lemma reverse_rounds: "word_reverse ((table_round ^^ n) r) = (crc_bit ^^ n) (word_reverse r)"
  by (induction n) (simp_all add: reverse_round)

lemma crc_bits_shift:
  assumes "\<And>i. bit x i \<Longrightarrow> i + n < 32"
  shows "(crc_bit ^^ n) (push_bit n x) = x"
  using assms
proof (induction n)
  case 0
  then show ?case by simp
next
  case (Suc n)
  have "crc_bit (push_bit (Suc n) x) = push_bit n x"
  proof -
    have "\<not> bit (push_bit (Suc n) x) 0" by (simp only: bit_push_u32) simp
    then have "crc_bit (push_bit (Suc n) x) = drop_bit 1 (push_bit (Suc n) x)"
      by (simp only: crc_bit_def if_False)
    also have "\<dots> = push_bit n x"
      unfolding bit_eq_iff bit_drop_bit_eq bit_push_u32 o_apply
      using Suc.prems by (auto simp: Suc_diff_le) fastforce+
    finally show ?thesis .
  qed
  then have "(crc_bit ^^ Suc n) (push_bit (Suc n) x) = (crc_bit ^^ n) (push_bit n x)"
    by (simp only: funpow_Suc_right o_apply)
  also have "\<dots> = x" using Suc.prems by (intro Suc.IH) fastforce
  finally show ?case .
qed

lemma table_value: "i < 256 \<Longrightarrow> crc_table_value i = (crc_bit ^^ 8) (of_nat i)"
proof -
  assume i: "i < 256"
  let ?x = "of_nat i :: u32"
  have small: "j < 8" if "bit ?x j" for j
  proof -
    have "?x = ucast (of_nat i :: u8)"
      using i by (simp add: unsigned_ucast_eq word_unat_eq_iff unsigned_of_nat take_bit_nat_eq_self)
    with that show ?thesis by (simp add: bit_simps)
  qed
  have "word_reverse (drop_bit 24 (word_reverse ?x)) = push_bit 24 ?x"
    by (rule bit_word_eqI) (auto simp: bit_simps)
  then have "crc_table_value i = (crc_bit ^^ (8 + 24)) (push_bit 24 ?x)"
    by (simp add: crc_table_value_def reverse32 reverse_rounds del: funpow.simps)
  also have "\<dots> = (crc_bit ^^ 8) ((crc_bit ^^ 24) (push_bit 24 ?x))"
    by (simp only: funpow_add o_apply)
  also have "(crc_bit ^^ 24) (push_bit 24 ?x) = ?x"
    using small by (intro crc_bits_shift) fastforce
  finally show ?thesis .
qed

lemma crc_byte_bits: "crc_byte crc b = (crc_bit ^^ 8) (crc XOR ucast b)"
proof -
  let ?low = "ucast (ucast b XOR crc) :: u8"
  have "crc XOR ucast b = ucast ?low XOR push_bit 8 (drop_bit 8 crc)"
    by (rule bit_word_eqI) (auto simp: bit_simps dest: bit_imp_le_length)
  then have "(crc_bit ^^ 8) (crc XOR ucast b) =
      (crc_bit ^^ 8) (ucast ?low) XOR (crc_bit ^^ 8) (push_bit 8 (drop_bit 8 crc))"
    by (simp only: crc_bits_xor)
  also have "(crc_bit ^^ 8) (push_bit 8 (drop_bit 8 crc)) = drop_bit 8 crc"
    by (rule crc_bits_shift) (auto simp: bit_simps dest!: bit_imp_le_length)
  also have "(crc_bit ^^ 8) (ucast ?low) = crc_lookup ! unat ?low"
  proof -
    have "unat ?low < 256" using unsigned_less[of ?low] by simp
    then show ?thesis by (simp add: crc_lookup_def table_value del: funpow.simps)
  qed
  finally show ?thesis by (simp add: crc_byte_def)
qed


lemma crc32_calc_fold: "crc32_calc bytes prior = foldl crc_byte (prior XOR 0xFFFFFFFF) bytes XOR 0xFFFFFFFF"
  by (simp add: crc32_calc_def calculate_crc_def reverse32)

lemma crc_null: "crc_null = 0"
  unfolding crc_null_def by code_simp

text \<open>
  C36: The table-driven checksum of the code, with its reversals baked into the table, is the CRC-32
  computed one bit at a time, for every input.
\<close>

theorem crc_bit_by_bit: "crc32_calc bytes crc_null = crc_reference bytes"
proof -
  have "crc_byte = (\<lambda>crc b. (crc_bit ^^ 8) (crc XOR ucast b))" by (intro ext) (rule crc_byte_bits)
  then show ?thesis by (simp add: crc32_calc_fold crc_null crc_reference_def del: funpow.simps)
qed

section \<open>What the checksum detects\<close>

lemma xor_cancel: "x XOR z = y XOR z \<Longrightarrow> x = (y :: 'a :: len word)"
proof -
  assume "x XOR z = y XOR z"
  then have "(x XOR z) XOR z = (y XOR z) XOR z" by (rule arg_cong)
  then show "x = y" by (simp only: xor.assoc xor_self_eq xor.right_neutral)
qed

lemma crc32_calc_append: "crc32_calc (xs @ ys) p = crc32_calc ys (crc32_calc xs p)"
  by (simp add: crc32_calc_fold xor.assoc)

lemma crc_bit_kernel: "crc_bit x = 0 \<Longrightarrow> x = 0"
proof -
  assume zero: "crc_bit x = 0"
  have "\<not> bit x 0"
  proof
    assume b: "bit x 0"
    have "bit (drop_bit 1 x) 31 = False" by (auto simp: bit_simps dest: bit_imp_le_length)
    moreover have "bit (0xEDB88320 :: u32) 31" by code_simp
    ultimately have "bit (crc_bit x) 31" using b by (simp add: crc_bit_def bit_xor_iff)
    with zero show False by simp
  qed
  with zero have "drop_bit 1 x = 0" by (simp add: crc_bit_def)
  show "x = 0"
  proof (rule bit_word_eqI)
    fix n assume "n < LENGTH(32)"
    have "\<not> bit (drop_bit 1 x) (n - 1)" unfolding \<open>drop_bit 1 x = 0\<close> by simp
    then show "bit x n = bit (0 :: u32) n"
      using \<open>\<not> bit x 0\<close> by (cases n) (simp_all add: bit_drop_bit_eq)
  qed
qed

lemma crc_bits_kernel: "(crc_bit ^^ n) x = 0 \<Longrightarrow> x = 0"
  by (induction n) (auto dest: crc_bit_kernel)

lemma crc_bits_inj: "(crc_bit ^^ n) x = (crc_bit ^^ n) y \<Longrightarrow> x = y"
proof -
  assume "(crc_bit ^^ n) x = (crc_bit ^^ n) y"
  then have "(crc_bit ^^ n) (x XOR y) = 0" by (simp add: crc_bits_xor)
  then have "x XOR y = 0" by (rule crc_bits_kernel)
  then have "x XOR y = y XOR y" by simp
  then show "x = y" by (rule xor_cancel)
qed

lemma crc_fold_inj: "foldl crc_byte c ys = foldl crc_byte d ys \<Longrightarrow> c = d"
proof (induction ys arbitrary: c d)
  case Nil
  then show ?case by simp
next
  case (Cons b ys)
  then have "crc_byte c b = crc_byte d b" by simp
  then have "c XOR ucast b = d XOR ucast b" unfolding crc_byte_bits by (rule crc_bits_inj)
  then show ?case by (rule xor_cancel)
qed

text \<open>Up to four bytes enter the register as one little-endian word.\<close>

fun le_word :: "u8 list \<Rightarrow> u32" where
  "le_word [] = 0"
| "le_word (b # bs) = ucast b XOR push_bit 8 (le_word bs)"

lemma le_word_bound: "bit (le_word bs) i \<Longrightarrow> i < 8 * length bs"
proof (induction bs arbitrary: i)
  case Nil
  then show ?case by simp
next
  case (Cons b bs)
  from Cons.prems have "bit b i \<or> (8 \<le> i \<and> bit (le_word bs) (i - 8))"
    by (auto simp: bit_simps)
  then show ?case
    using Cons.IH[of "i - 8"] by (auto dest: bit_imp_le_length)
qed

lemma crc_fold_word:
  "length bs \<le> 4 \<Longrightarrow> foldl crc_byte c bs = (crc_bit ^^ (8 * length bs)) (c XOR le_word bs)"
proof (induction bs arbitrary: c)
  case Nil
  then show ?case by simp
next
  case (Cons b bs)
  have sh: "(crc_bit ^^ 8) (push_bit 8 (le_word bs)) = le_word bs"
    using Cons.prems by (intro crc_bits_shift) (auto dest!: le_word_bound)
  have "foldl crc_byte c (b # bs) = (crc_bit ^^ (8 * length bs)) (crc_byte c b XOR le_word bs)"
    using Cons by simp
  also have "crc_byte c b XOR le_word bs = (crc_bit ^^ 8) ((c XOR ucast b) XOR push_bit 8 (le_word bs))"
    unfolding crc_byte_bits crc_bits_xor[of 8 "c XOR ucast b" "push_bit 8 (le_word bs)"] sh by (rule refl)
  finally show ?case
    by (simp only: funpow_add[symmetric] o_apply[symmetric, of "crc_bit ^^ (8 * length bs)"] le_word.simps
        xor.assoc list.size) (simp add: funpow_add[symmetric] add.commute del: funpow.simps)
qed

lemma le_word_inj: "length u = length v \<Longrightarrow> length u \<le> 4 \<Longrightarrow> le_word u = le_word v \<Longrightarrow> u = v"
proof (induction u v rule: list_induct2')
  case (4 a u b v)
  have low: "ucast (le_word (c # w)) = c" for c :: u8 and w
    by (rule bit_word_eqI) (auto simp: bit_simps)
  have high: "drop_bit 8 (le_word (c # w)) = le_word w" if "length w \<le> 3" for c :: u8 and w
  proof (rule bit_word_eqI)
    fix i assume "i < LENGTH(32)"
    show "bit (drop_bit 8 (le_word (c # w))) i = bit (le_word w) i"
      using that by (auto simp: bit_simps dest: bit_imp_le_length le_word_bound)
  qed
  have "a = b" using low[of a u] low[of b v] "4.prems"(3) by metis
  moreover have "le_word u = le_word v"
    using high[of u a] high[of v b] "4.prems" by (metis Suc_le_mono length_Cons numeral_eq_Suc pred_numeral_simps(2) semiring_norm(26,27))
  ultimately show ?case using "4.IH" "4.prems" by simp
qed simp_all

text \<open>
  Two byte sequences of the same length that differ inside a window of at most four bytes, at any
  place, never have the same checksum: every burst of up to 32 bits is detected.
\<close>

theorem crc_detects_bursts:
  assumes "length u = length v" "length u \<le> 4" "u \<noteq> v"
  shows "crc32_calc (xs @ u @ ys) p \<noteq> crc32_calc (xs @ v @ ys) p"
proof
  assume eq: "crc32_calc (xs @ u @ ys) p = crc32_calc (xs @ v @ ys) p"
  let ?c = "foldl crc_byte (p XOR 0xFFFFFFFF) xs"
  have "foldl crc_byte (foldl crc_byte ?c u) ys = foldl crc_byte (foldl crc_byte ?c v) ys"
    using eq unfolding crc32_calc_fold foldl_append by (rule xor_cancel)
  then have "foldl crc_byte ?c u = foldl crc_byte ?c v" by (rule crc_fold_inj)
  then have "?c XOR le_word u = ?c XOR le_word v"
    using assms(1,2) by (simp add: crc_fold_word crc_bits_inj del: funpow.simps)
  then have "le_word u XOR ?c = le_word v XOR ?c" by (simp only: xor.commute)
  then have "le_word u = le_word v" by (rule xor_cancel)
  with le_word_inj assms show False by blast
qed

theorem crc_detects_bursts_witness:
  "crc32_calc [1, 2, 3] crc_null \<noteq> crc32_calc [1, 7, 9] crc_null"
  using crc_detects_bursts[of "[2, 3]" "[7, 9]" "[1]" "[]" crc_null] by simp

end
