(* ===== verification/Nplex_Messaging.thy ===== *)
theory Nplex_Messaging
  imports Nplex_Crc Nplex_Schema Nplex_Transaction
begin

unbundle bit_operations_syntax

text \<open>
  The wire format, \<open>src/messaging.cpp\<close> and \<open>src/messaging.hpp\<close>: framing, parsing and the messages
  the client sends.  The network is a sequence of bytes.  FlatBuffers is a parameter: \<open>decode\<close> is what
  \<open>GetRoot\<close> reads from a buffer that passes the structural part of \<open>VerifyBuffer\<close>, \<^term>\<open>None\<close> when it
  does not pass; the required fields are checked by \<^const>\<open>verify_message\<close> of the schema.
\<close>

type_synonym bytes = "u8 list"
type_synonym decoder = "bytes \<Rightarrow> message option"

section \<open>Integers on the wire\<close>

text \<open>The four bytes of an integer after \<open>htonl\<close>, and \<open>ntohl_ptr\<close>.\<close>

definition be32 :: "u32 \<Rightarrow> bytes" where
  "be32 w = [ucast (drop_bit 24 w), ucast (drop_bit 16 w), ucast (drop_bit 8 w), ucast w]"

definition ntohl_ptr :: "bytes \<Rightarrow> u32" where
  "ntohl_ptr p =
     push_bit 24 (ucast (p ! 0)) OR push_bit 16 (ucast (p ! 1)) OR push_bit 8 (ucast (p ! 2)) OR ucast (p ! 3)"

section \<open>Framing\<close>

record output_msg =
  out_content :: bytes
  out_metadata :: u32
  out_checksum :: u32
  out_len :: u32

definition output_msg_t :: "bytes \<Rightarrow> output_msg" where
  "output_msg_t c =
     (let len = of_nat (length c + 4 + 4 + 4);
          c1 = crc32_calc (be32 len) crc_null;
          c2 = crc32_calc (be32 0) c1;
          c3 = crc32_calc c c2
      in \<lparr>out_content = c, out_metadata = 0, out_checksum = c3, out_len = len\<rparr>)"

text \<open>The four buffers given to \<open>uv_write\<close>, one after the other.\<close>

definition wire :: "output_msg \<Rightarrow> bytes" where
  "wire m = be32 (out_len m) @ be32 (out_metadata m) @ out_content m @ be32 (out_checksum m)"

definition parse_network_msg :: "decoder \<Rightarrow> bytes \<Rightarrow> nat \<Rightarrow> message option" where
  "parse_network_msg decode p len =
     (if len \<le> 12 then None
      else if len \<noteq> unat (ntohl_ptr p) then None
      else if ntohl_ptr (drop (len - 4) p) \<noteq> crc32_calc (take (len - 4) p) crc_null then None
      else
        case decode (take (len - 12) (drop 8 p)) of
          None \<Rightarrow> None
        | Some m \<Rightarrow> if verify_message m then Some m else None)"

section \<open>The requests\<close>

definition SCHEMA3_HASH :: u32 where
  "SCHEMA3_HASH = 0xf53b8870"

definition create_ping_msg :: "64 word \<Rightarrow> string \<Rightarrow> message" where
  "create_ping_msg cid payload =
     \<lparr>msg_content = Some (PING_REQUEST \<lparr>preq_cid = cid, preq_payload = Some payload\<rparr>)\<rparr>"

definition create_login_msg :: "64 word \<Rightarrow> string \<Rightarrow> string \<Rightarrow> message" where
  "create_login_msg cid name password =
     \<lparr>msg_content = Some (LOGIN_REQUEST
        \<lparr>lreq_cid = cid, lreq_schema = SCHEMA3_HASH, lreq_user = Some name, lreq_password = Some password\<rparr>)\<rparr>"

definition create_snapshot_msg :: "64 word \<Rightarrow> rev_t \<Rightarrow> message" where
  "create_snapshot_msg cid r =
     \<lparr>msg_content = Some (SNAPSHOT_REQUEST \<lparr>sreq_cid = cid, sreq_rev = r\<rparr>)\<rparr>"

definition create_updates_msg :: "64 word \<Rightarrow> rev_t \<Rightarrow> message" where
  "create_updates_msg cid r =
     \<lparr>msg_content = Some (UPDATES_REQUEST \<lparr>ureq_cid = cid, ureq_rev = r\<rparr>)\<rparr>"

definition create_sessions_msg :: "64 word \<Rightarrow> bool \<Rightarrow> message" where
  "create_sessions_msg cid stream =
     \<lparr>msg_content = Some (SESSIONS_REQUEST \<lparr>ssreq_cid = cid, ssreq_stream = stream\<rparr>)\<rparr>"

text \<open>The loop of \<open>create_submit_msg\<close> over the items: the upserts and the deletes.\<close>

fun submit_items ::
    "(string, entry) omap \<Rightarrow> key_value option list \<times> string option list" where
  "submit_items [] = ([], [])"
| "submit_items ((k, (a, v)) # its) =
     (let (ups, dels) = submit_items its
      in case a of
           A_DELETE \<Rightarrow> (ups, Some k # dels)
         | A_UPSERT \<Rightarrow> (Some \<lparr>kv_key = Some k, kv_value = Some (v_data (the v))\<rparr> # ups, dels)
         | _ \<Rightarrow> (ups, dels))"

definition create_submit_msg :: "64 word \<Rightarrow> rev_t \<Rightarrow> bool \<Rightarrow> tx \<Rightarrow> message" where
  "create_submit_msg cid crev force t =
     (let (upserts, deletes) = submit_items (tx_items t);
          ensures = map (\<lambda>(p, _). Some p) (tx_ensures t)
      in \<lparr>msg_content = Some (SUBMIT_REQUEST
           \<lparr>sbreq_cid = cid,
            sbreq_crev = (if tx_isolation t = SERIALIZABLE then tx_rev_creation t else crev),
            sbreq_tx_type = tx_type t, sbreq_upserts = Some upserts, sbreq_deletes = Some deletes,
            sbreq_ensures = Some ensures, sbreq_force = force\<rparr>)\<rparr>)"

section \<open>Framing and parsing are inverse\<close>

lemma be32_length [simp]: "length (be32 w) = 4"
  by (simp add: be32_def)

lemma ntohl_be32 [simp]: "ntohl_ptr (be32 w @ rest) = w"
proof (rule bit_word_eqI)
  fix n assume "n < LENGTH(32)"
  then have "n < 8 \<or> (\<exists>m < 8. n = 8 + m) \<or> (\<exists>m < 8. n = 16 + m) \<or> (\<exists>m < 8. n = 24 + m)"
    by simp presburger
  then show "bit (ntohl_ptr (be32 w @ rest)) n = bit w n"
    by (elim disjE exE conjE) (simp_all add: ntohl_ptr_def be32_def bit_or_iff bit_push_bit_iff
      bit_ucast_iff bit_drop_bit_eq)
qed

lemma ntohl_take: "4 \<le> n \<Longrightarrow> n \<le> length p \<Longrightarrow> ntohl_ptr (take n p) = ntohl_ptr p"
  by (simp add: ntohl_ptr_def)

lemma ntohl_inj:
  fixes p q :: bytes
  assumes "length p = 4" "length q = 4" "ntohl_ptr p = ntohl_ptr q"
  shows "p = q"
proof -
  have rebuild: "be32 (ntohl_ptr p) = p" if len: "length p = 4" for p
  proof -
    obtain a b c d where p: "p = [a, b, c, d]"
      using len by (auto simp: numeral_eq_Suc length_Suc_conv)
    have "ucast (drop_bit 24 (ntohl_ptr p)) = a" "ucast (drop_bit 16 (ntohl_ptr p)) = b"
      "ucast (drop_bit 8 (ntohl_ptr p)) = c" "ucast (ntohl_ptr p) = d"
      unfolding p ntohl_ptr_def
      by (rule bit_word_eqI; force simp: bit_simps dest: bit_imp_le_length)+
    then show ?thesis by (simp add: be32_def p)
  qed
  from assms rebuild show ?thesis by metis
qed

lemma wire_length: "length (wire m) = length (out_content m) + 12"
  by (simp add: wire_def)

text \<open>The three calls that go on from each other are one over the whole.\<close>

lemma output_checksum:
  "out_checksum (output_msg_t c) =
     crc32_calc (be32 (out_len (output_msg_t c)) @ be32 0 @ c) crc_null"
  by (simp add: output_msg_t_def Let_def crc32_calc_append)

lemma output_fields [simp]:
  "out_content (output_msg_t c) = c" "out_metadata (output_msg_t c) = 0"
  "out_len (output_msg_t c) = of_nat (length c + 12)"
  by (simp_all add: output_msg_t_def Let_def)


text \<open>What a parser accepts of the content of a frame.\<close>

definition checked :: "decoder \<Rightarrow> bytes \<Rightarrow> message option" where
  "checked decode c = (case decode c of None \<Rightarrow> None | Some m \<Rightarrow> if verify_message m then Some m else None)"

lemma parse_eval:
  "parse_network_msg decode p len =
     (if 12 < len \<and> len = unat (ntohl_ptr p) \<and>
         ntohl_ptr (drop (len - 4) p) = crc32_calc (take (len - 4) p) crc_null
      then checked decode (take (len - 12) (drop 8 p)) else None)"
  by (simp add: parse_network_msg_def checked_def)

abbreviation frame :: "bytes \<Rightarrow> bytes" where
  "frame c \<equiv> wire (output_msg_t c)"

definition frame_size_ok :: "bytes \<Rightarrow> bool" where
  "frame_size_ok c \<longleftrightarrow> c \<noteq> [] \<and> length c + 12 < 2 ^ 32"

lemma frame_split:
  "frame c = (be32 (of_nat (length c + 12)) @ be32 0 @ c) @
     be32 (crc32_calc (be32 (of_nat (length c + 12)) @ be32 0 @ c) crc_null)"
  by (simp add: wire_def output_checksum)

lemma frame_length: "length (frame c) = length c + 12"
  by (simp add: wire_length)

lemma unat_frame_len: "frame_size_ok c \<Longrightarrow> unat (of_nat (length c + 12) :: u32) = length c + 12"
  unfolding frame_size_ok_def unsigned_of_nat by (simp add: take_bit_nat_eq_self)

lemma frame_header: "ntohl_ptr (frame c @ rest) = of_nat (length c + 12)"
  by (simp add: wire_def)

lemma parse_frame:
  assumes "frame_size_ok c"
  shows "parse_network_msg decode (frame c @ rest) (length c + 12) = checked decode c"
proof -
  let ?h = "be32 (of_nat (length c + 12)) @ be32 0 @ c"
  have f: "frame c @ rest = ?h @ be32 (crc32_calc ?h crc_null) @ rest" by (simp add: frame_split)
  have h: "length ?h = length c + 8" by simp
  have "take (length c + 12 - 4) (frame c @ rest) = ?h"
    "ntohl_ptr (drop (length c + 12 - 4) (frame c @ rest)) = crc32_calc ?h crc_null"
    unfolding f using h by (simp_all del: append_assoc add: append_assoc[symmetric])
  moreover have "take (length c + 12 - 12) (drop 8 (frame c @ rest)) = c"
    by (simp add: wire_def)
  moreover have "c \<noteq> []" using assms by (simp add: frame_size_ok_def)
  ultimately show ?thesis
    using unat_frame_len[OF assms] frame_header[of c rest] by (simp add: parse_eval)
qed

text \<open>
  C22: What the client frames, a peer parses: for any content that is not empty and whose frame is
  shorter than \<open>2 ^ 32\<close> bytes, the bytes sent are accepted, whatever bytes follow them, and give the
  verified content; the frame is twelve bytes longer than the content.
\<close>

theorem frame_roundtrip:
  assumes "c \<noteq> []" "length c + 12 < 2 ^ 32"
  shows "parse_network_msg decode (wire (output_msg_t c) @ rest) (length c + 12) =
      (case decode c of None \<Rightarrow> None | Some m \<Rightarrow> if verify_message m then Some m else None) \<and>
    length (wire (output_msg_t c)) = length c + 12 \<and>
    unat (ntohl_ptr (wire (output_msg_t c))) = length c + 12"
  using parse_frame[of c decode rest] assms frame_length[of c] frame_header[of c "[]"] unat_frame_len[of c]
  by (simp add: frame_size_ok_def checked_def)

definition ping_payload :: message where
  "ping_payload = create_ping_msg 7 ''x''"

theorem frame_roundtrip_witness:
  "parse_network_msg (\<lambda>c. if c = [1, 2] then Some ping_payload else None) (wire (output_msg_t [1, 2])) 14 =
     Some ping_payload"
  using frame_roundtrip[of "[1, 2]" "\<lambda>c. if c = [1, 2] then Some ping_payload else None" "[]"]
  by (simp add: ping_payload_def create_ping_msg_def verify_message_def verify_msg_content_def)

section \<open>Damaged frames\<close>



end
