(* ===== verification/Nplex_Submit.thy ===== *)
theory Nplex_Submit
  imports Nplex_Messaging Nplex_Transaction_Keys
begin

text \<open>
  The request a submitted transaction becomes, against the database it is meant to change: the
  update a server makes of it is one the store of every client accepts, and it writes exactly what
  the transaction wrote.
\<close>

lemma valid_key_c_str_id: "is_valid_key k \<Longrightarrow> c_str k = k"
  by (rule c_str_id) (simp add: is_valid_key_def)

text \<open>Items as the invariant of a transaction has them.\<close>

definition writable :: "string \<times> entry \<Rightarrow> bool" where
  "writable p \<longleftrightarrow>
     (case p of (k, a, v) \<Rightarrow> (a = A_UPSERT \<longrightarrow> v \<noteq> None) \<and> (a \<in> {A_UPSERT, A_DELETE} \<longrightarrow> is_valid_key k))"

lemma submit_items_puts:
  assumes "om_wf its" "\<forall>p \<in> set its. writable p"
  shows "fold db_put (fst (submit_items its)) M k =
    (case map_of its k of Some (A_UPSERT, v) \<Rightarrow> map_option v_data v | _ \<Rightarrow> M k)"
  using assms
proof (induction its arbitrary: M rule: submit_items.induct)
  case 1
  then show ?case by simp
next
  case (2 j a v its)
  have wf: "om_wf its" "\<forall>p \<in> set its. writable p" and w: "writable (j, a, v)"
    using "2.prems" by (simp_all add: om_wf_Cons)
  have none: "map_of its j = None" using "2.prems"(1) by (auto simp: om_wf_Cons map_of_eq_None_iff)
  show ?case
  proof (cases "a = A_UPSERT")
    case True
    with w obtain x where v: "v = Some x" "c_str j = j"
      by (auto simp: writable_def valid_key_c_str_id)
    have e: "fst (submit_items ((j, a, v) # its)) =
        Some \<lparr>kv_key = Some j, kv_value = Some (v_data x)\<rparr> # fst (submit_items its)"
      using True v by (simp add: case_prod_unfold Let_def)
    have "db_put (Some \<lparr>kv_key = Some j, kv_value = Some (v_data x)\<rparr>) M = M(j \<mapsto> v_data x)"
      by (simp add: db_put_def v(2))
    then show ?thesis
      unfolding e using "2.IH"[OF wf, of "M(j \<mapsto> v_data x)"] v none True
      by (cases "k = j") (auto simp del: fun_upd_apply simp add: fun_upd_same fun_upd_other split: option.splits item_action.splits)
  next
    case False
    then have e: "fst (submit_items ((j, a, v) # its)) = fst (submit_items its)"
      by (cases a) (simp_all add: case_prod_unfold Let_def)
    show ?thesis
      unfolding e using "2.IH"[OF wf, of M] none False
      by (cases "k = j") (auto split: option.splits item_action.splits)
  qed
qed

lemma submit_items_dels:
  assumes "om_wf its" "\<forall>p \<in> set its. writable p"
  shows "fold db_del (snd (submit_items its)) M k =
    (case map_of its k of Some (A_DELETE, v) \<Rightarrow> None | _ \<Rightarrow> M k)"
  using assms
proof (induction its arbitrary: M rule: submit_items.induct)
  case 1
  then show ?case by simp
next
  case (2 j a v its)
  have wf: "om_wf its" "\<forall>p \<in> set its. writable p" and w: "writable (j, a, v)"
    using "2.prems" by (simp_all add: om_wf_Cons)
  have none: "map_of its j = None" using "2.prems"(1) by (auto simp: om_wf_Cons map_of_eq_None_iff)
  show ?case
  proof (cases "a = A_DELETE")
    case True
    with w have j: "c_str j = j" by (auto simp: writable_def valid_key_c_str_id)
    have e: "snd (submit_items ((j, a, v) # its)) = Some j # snd (submit_items its)"
      using True by (simp add: case_prod_unfold Let_def)
    have "db_del (Some j) M = M(j := None)" by (simp add: db_del_def j)
    then show ?thesis
      unfolding e using "2.IH"[OF wf, of "M(j := None)"] none True
      by (cases "k = j") (auto simp del: fun_upd_apply simp add: fun_upd_same fun_upd_other split: option.splits item_action.splits)
  next
    case False
    then have e: "snd (submit_items ((j, a, v) # its)) = snd (submit_items its)"
      by (cases a) (simp_all add: case_prod_unfold Let_def)
    show ?thesis
      unfolding e using "2.IH"[OF wf, of M] none False
      by (cases "k = j") (auto split: option.splits item_action.splits)
  qed
qed

lemma submit_items_good:
  "\<forall>p \<in> set its. writable p \<Longrightarrow>
     list_all good_upsert (fst (submit_items its)) \<and> list_all good_delete (snd (submit_items its))"
proof (induction its rule: submit_items.induct)
  case 1
  then show ?case by simp
next
  case (2 k a v its)
  then show ?case
    by (cases a) (auto simp: case_prod_unfold Let_def writable_def good_upsert_def good_delete_def
        is_valid_key_ptr_def valid_key_c_str_id)
qed

lemma tx_writable: "tx_wf t \<Longrightarrow> p \<in> set (tx_items t) \<Longrightarrow> writable p"
proof -
  assume wf: "tx_wf t" and p: "p \<in> set (tx_items t)"
  obtain k a v where kav: "p = (k, a, v)" by (cases p) auto
  then have "map_of (tx_items t) k = Some (a, v)"
    using p map_of_om_mem[OF tx_wf_items[OF wf]] by blast
  with wf have "entry_ok t k (a, v)" by (simp add: tx_wf_def)
  then show ?thesis by (cases a) (auto simp: kav writable_def entry_ok_def)
qed

text \<open>The update a server makes of a request at revision \<open>r\<close>.\<close>

definition update_of :: "rev_t \<Rightarrow> string \<Rightarrow> submit_request \<Rightarrow> update_msg" where
  "update_of r name q =
     \<lparr>upd_rev = r, upd_user = Some name, upd_timestamp = 0, upd_tx_type = sbreq_tx_type q,
      upd_upserts = sbreq_upserts q, upd_deletes = sbreq_deletes q\<rparr>"

text \<open>
  C24: The request made of a well-formed transaction passes the verifier, and as an update it is one
  a store accepts and changes the database exactly by the writes of the transaction: an upserted key
  gets the data, a deleted key goes, every other key keeps its value.  Under \<open>SERIALIZABLE\<close> the request
  carries the revision the transaction was created at, otherwise the revision given.
\<close>

theorem submit_request_exact:
  assumes "tx_wf t" "create_submit_msg cid crev force t = \<lparr>msg_content = Some (SUBMIT_REQUEST q)\<rparr>"
  shows "verify_message (create_submit_msg cid crev force t) \<and>
    (r < rv \<longrightarrow> admissible r (update_of rv name q)) \<and>
    (\<forall>M k. db_apply (update_of rv name q) M k =
       (case map_of (tx_items t) k of
          Some (A_UPSERT, v) \<Rightarrow> map_option v_data v
        | Some (A_DELETE, v) \<Rightarrow> None
        | _ \<Rightarrow> M k)) \<and>
    sbreq_crev q = (if tx_isolation t = SERIALIZABLE then tx_rev_creation t else crev) \<and>
    sbreq_force q = force \<and> sbreq_cid q = cid"
proof -
  note wf = tx_wf_items[OF assms(1)] and W = tx_writable[OF assms(1)]
  have q: "sbreq_upserts q = Some (fst (submit_items (tx_items t)))"
    "sbreq_deletes q = Some (snd (submit_items (tx_items t)))"
    "sbreq_ensures q = Some (map (\<lambda>(p, _). Some p) (tx_ensures t))"
    "sbreq_crev q = (if tx_isolation t = SERIALIZABLE then tx_rev_creation t else crev)"
    "sbreq_force q = force" "sbreq_cid q = cid"
    using assms(2) by (auto simp: create_submit_msg_def case_prod_unfold Let_def)
  have good: "list_all good_upsert (fst (submit_items (tx_items t)))"
    "list_all good_delete (snd (submit_items (tx_items t)))"
    using submit_items_good W by blast+
  have "verify_submit_request q"
    using good by (fastforce simp: verify_submit_request_def q all_present_def list_all_iff
        good_upsert_def good_delete_def is_valid_key_ptr_def verify_key_value_def split: option.splits)
  then have "verify_message (create_submit_msg cid crev force t)"
    by (simp add: assms(2) verify_message_def verify_msg_content_def)
  moreover have "r < rv \<longrightarrow> admissible r (update_of rv name q)"
    using good by (simp add: admissible_def update_of_def q vector_def)
  moreover have "db_apply (update_of rv name q) M k =
       (case map_of (tx_items t) k of
          Some (A_UPSERT, v) \<Rightarrow> map_option v_data v
        | Some (A_DELETE, v) \<Rightarrow> None
        | _ \<Rightarrow> M k)" for M k
    using submit_items_puts[OF wf, of M k] W
      submit_items_dels[OF wf, of "fold db_put (fst (submit_items (tx_items t))) M" k]
    by (auto simp: db_apply_def update_of_def q vector_def split: option.splits item_action.splits)
  ultimately show ?thesis using q(4-6) by blast
qed


theorem submit_request_exact_witness:
  "\<exists>q. create_submit_msg 5 7 False two_writes = \<lparr>msg_content = Some (SUBMIT_REQUEST q)\<rparr> \<and>
     verify_message (create_submit_msg 5 7 False two_writes) \<and> sbreq_crev q = 0 \<and>
     db_apply (update_of 8 ''ann'' q) (\<lambda>_. None) ''b'' = Some ''9'' \<and>
     db_apply (update_of 8 ''ann'' q) (\<lambda>_. None) ''a'' = None"
proof -
  obtain q where q: "create_submit_msg 5 7 False two_writes = \<lparr>msg_content = Some (SUBMIT_REQUEST q)\<rparr>"
    by (auto simp: create_submit_msg_def case_prod_unfold Let_def)
  have f: "tx_isolation two_writes = SERIALIZABLE" "tx_rev_creation two_writes = 0"
    unfolding two_writes_def by code_simp+
  note S = submit_request_exact[OF two_writes_wf q]
  have D: "db_apply (update_of 8 ''ann'' q) M k =
       (case map_of (tx_items two_writes) k of
          Some (A_UPSERT, v) \<Rightarrow> map_option v_data v
        | Some (A_DELETE, v) \<Rightarrow> None
        | _ \<Rightarrow> M k)" for M k
    using S by blast
  from S f q show ?thesis
    by (intro exI[of _ q]) (simp add: D two_writes_items)
qed

end
