(* ===== verification/Nplex_Connection.thy ===== *)
theory Nplex_Connection
  imports Nplex_Messaging
begin

text \<open>
  One TCP connection to a server, \<open>src/connection.cpp\<close>: its state machine, the accounting of messages
  in flight, and the reassembly of messages from the bytes that arrive.  Of libuv a connection keeps
  whether its handle is closing and the writes it has not yet reported; what libuv answers to a call
  is an argument.  The calls to the client are a function the callbacks get.
\<close>

section \<open>State\<close>

definition ERR_CLOSED_BY_LOCAL :: int where "ERR_CLOSED_BY_LOCAL = 1000"
definition ERR_CLOSED_BY_PEER :: int where "ERR_CLOSED_BY_PEER = 1001"
definition ERR_MSG_ERROR :: int where "ERR_MSG_ERROR = 1002"
definition ERR_MSG_UNEXPECTED :: int where "ERR_MSG_UNEXPECTED = 1003"
definition ERR_QUEUE_EXCEEDED :: int where "ERR_QUEUE_EXCEEDED = 1004"
definition ERR_ALREADY_CONNECTED :: int where "ERR_ALREADY_CONNECTED = 1005"
definition ERR_CON_LOST :: int where "ERR_CON_LOST = 1006"
definition ERR_AUTH :: int where "ERR_AUTH = 1007"
definition ERR_LOAD :: int where "ERR_LOAD = 1008"

datatype conn_state = C_CLOSED | C_CONNECTING | C_CONNECTED

record conn_params =
  max_unack_msgs :: u32
  max_unack_bytes :: u32

record conn_stats =
  unack_msgs :: "64 word"
  unack_bytes :: "64 word"
  recv_msgs :: "64 word"
  recv_bytes :: "64 word"
  sent_msgs :: "64 word"
  sent_bytes :: "64 word"

definition zero_stats :: conn_stats where
  "zero_stats = \<lparr>unack_msgs = 0, unack_bytes = 0, recv_msgs = 0, recv_bytes = 0, sent_msgs = 0, sent_bytes = 0\<rparr>"

record conn =
  c_state :: conn_state
  c_input :: bytes
  c_error :: int
  c_params :: conn_params
  c_stats :: conn_stats
  c_closing :: bool                  \<comment> \<open>\<open>uv_is_closing\<close> of the handle\<close>
  c_pending :: "output_msg list"     \<comment> \<open>writes given to libuv, oldest first, not yet reported\<close>

text \<open>The constructor; the address is its port here, the rest is only passed on to libuv.\<close>

definition connection_create :: "nat \<Rightarrow> conn_params \<Rightarrow> exn + conn" where
  "connection_create port p =
     (if port = 0 then Inl Ex_invalid_address
      else Inr
        \<lparr>c_state = C_CLOSED, c_input = [], c_error = 0,
         c_params =
           \<lparr>max_unack_msgs = (if max_unack_msgs p = 0 then 0xFFFFFFFF else max_unack_msgs p),
            max_unack_bytes = (if max_unack_bytes p = 0 then 0xFFFFFFFF else max_unack_bytes p)\<rparr>,
         c_stats = zero_stats, c_closing = False, c_pending = []\<rparr>)"

section \<open>Operations\<close>

definition disconnect :: "int \<Rightarrow> conn \<Rightarrow> conn" where
  "disconnect rc c =
     (if c_state c = C_CLOSED then c
      else
        let c1 = (if c_error c = 0 then c\<lparr>c_error := rc\<rparr> else c)
        in if \<not> c_closing c1 then c1\<lparr>c_closing := True\<rparr> else c1)"

text \<open>What libuv and the address lookup answer while a connection is started.\<close>

record uv_connect =
  uv_init_rc :: int
  uv_nodelay_rc :: int
  uv_addr_ok :: bool
  uv_connect_rc :: int

definition connect :: "uv_connect \<Rightarrow> (conn, unit) op" where
  "connect env c =
     (if c_state c \<noteq> C_CLOSED then (Inl Ex_not_closed, c)
      else
        let c1 = c\<lparr>c_state := C_CONNECTING, c_input := [], c_stats := zero_stats, c_error := 0\<rparr>
        in if uv_init_rc env \<noteq> 0 then (Inl Ex_uv_error, c1)
           else
             let c2 = c1\<lparr>c_closing := False, c_pending := []\<rparr>
             in if uv_nodelay_rc env \<noteq> 0 then (Inl Ex_uv_error, c2)
                else if \<not> uv_addr_ok env then (Inl Ex_uv_error, c2)
                else if uv_connect_rc env \<noteq> 0 then (Inl Ex_uv_error, c2)
                else (Inr (), c2))"

text \<open>\<open>msg->length()\<close>, widened from 32 bits.\<close>

definition msg_length :: "output_msg \<Rightarrow> 64 word" where
  "msg_length m = ucast (out_len m)"

definition conn_send :: "int \<Rightarrow> bytes \<Rightarrow> (conn, unit) op" where
  "conn_send write_rc content c =
     (if c_state c \<noteq> C_CONNECTED then (Inl Ex_not_established, c)
      else
        let m = output_msg_t content; len = msg_length m; st = c_stats c
        in if unack_msgs st \<ge> ucast (max_unack_msgs (c_params c)) then
             (Inr (), disconnect ERR_QUEUE_EXCEEDED c)
           else if unack_bytes st + len \<ge> ucast (max_unack_bytes (c_params c)) then
             (Inr (), disconnect ERR_QUEUE_EXCEEDED c)
           else if write_rc \<noteq> 0 then (Inr (), disconnect write_rc c)
           else
             (Inr (), c\<lparr>c_pending := c_pending c @ [m],
                c_stats := st\<lparr>unack_msgs := unack_msgs st + 1, unack_bytes := unack_bytes st + len\<rparr>\<rparr>))"

section \<open>Callbacks of libuv\<close>

text \<open>The oldest write is reported.  The result says whether the client is told of the delivery.\<close>

definition cb_tcp_write :: "int \<Rightarrow> conn \<Rightarrow> bool \<times> conn" where
  "cb_tcp_write status c =
     (case c_pending c of
        [] \<Rightarrow> (False, c)
      | m # ms \<Rightarrow>
          let st = c_stats c; len = msg_length m;
              c1 = c\<lparr>c_pending := ms,
                     c_stats := st\<lparr>unack_msgs := unack_msgs st - 1, unack_bytes := unack_bytes st - len,
                                   sent_msgs := sent_msgs st + 1, sent_bytes := sent_bytes st + len\<rparr>\<rparr>
          in if status < 0 then (False, disconnect status c1) else (True, c1))"

text \<open>The result says whether \<open>on_connection_established\<close> is called.\<close>

definition cb_tcp_connect :: "int \<Rightarrow> conn \<Rightarrow> bool \<times> conn" where
  "cb_tcp_connect status c =
     (if status < 0 then (False, disconnect status c) else (True, c\<lparr>c_state := C_CONNECTED\<rparr>))"

definition cb_tcp_close :: "conn \<Rightarrow> conn" where
  "cb_tcp_close c = c\<lparr>c_state := C_CLOSED\<rparr>"

text \<open>
  \<open>cb_tcp_read\<close> on a state of the world that holds the connection: \<open>upd\<close> changes the connection in
  it, \<open>h\<close> is \<open>on_msg_received\<close>.  The loop over \<open>m_input_msg\<close> has the buffer as an argument: the
  handler does not touch it.
\<close>

definition count_msg :: "nat \<Rightarrow> conn \<Rightarrow> conn" where
  "count_msg len c =
     c\<lparr>c_stats := (c_stats c)\<lparr>recv_msgs := recv_msgs (c_stats c) + 1,
                            recv_bytes := recv_bytes (c_stats c) + of_nat len\<rparr>\<rparr>"

lemma parse_Some_length: "parse_network_msg decode buf len = Some m \<Longrightarrow> 12 < len"
  by (auto simp: parse_eval split: if_split_asm)

function read_loop ::
    "decoder \<Rightarrow> (message \<Rightarrow> 'w \<Rightarrow> 'w) \<Rightarrow> ((conn \<Rightarrow> conn) \<Rightarrow> 'w \<Rightarrow> 'w) \<Rightarrow> bytes \<Rightarrow> 'w \<Rightarrow> 'w" where
  "read_loop decode h upd buf w =
     (if length buf < 4 then w
      else
        let len = unat (ntohl_ptr buf)
        in if length buf < len then w
           else
             case parse_network_msg decode buf len of
               None \<Rightarrow> upd (disconnect ERR_MSG_ERROR) w
             | Some m \<Rightarrow>
                 let w1 = h m (upd (count_msg len) w)
                 in read_loop decode h upd (drop len buf) (upd (\<lambda>c. c\<lparr>c_input := drop len buf\<rparr>) w1))"
  by pat_completeness auto
termination
  by (relation "measure (\<lambda>(_, _, _, buf, _). length buf)") (auto dest: parse_Some_length)

declare read_loop.simps [simp del]

definition cb_tcp_read ::
    "decoder \<Rightarrow> (message \<Rightarrow> 'w \<Rightarrow> 'w) \<Rightarrow> ((conn \<Rightarrow> conn) \<Rightarrow> 'w \<Rightarrow> 'w) \<Rightarrow> ('w \<Rightarrow> conn) \<Rightarrow>
     int \<Rightarrow> bytes option \<Rightarrow> 'w \<Rightarrow> 'w" where
  "cb_tcp_read decode h upd get nread base w =
     (if nread = 0 then w
      else if nread = -4095 \<or> base = None then upd (disconnect ERR_CLOSED_BY_PEER) w
      else if nread < 0 then upd (disconnect nread) w
      else
        let buf = c_input (get w) @ take (nat nread) (the base)
        in read_loop decode h upd buf (upd (\<lambda>c. c\<lparr>c_input := buf\<rparr>) w))"

end
