(* ===== verification/Nplex_Connection_Spec.thy ===== *)
theory Nplex_Connection_Spec
  imports Nplex_Connection
begin

text \<open>
  What a connection promises its client: the messages of a stream arrive once each and in order,
  however the network cuts the stream, and the counters of messages in flight are exact and within
  the limits configured.
\<close>

section \<open>Reassembly\<close>

text \<open>A client that only records what it is given, and the bytes of a stream fed piece by piece.\<close>

type_synonym observer = "conn \<times> message list"

definition observe :: "message \<Rightarrow> observer \<Rightarrow> observer" where
  "observe m w = (fst w, snd w @ [m])"

definition on_conn :: "(conn \<Rightarrow> conn) \<Rightarrow> observer \<Rightarrow> observer" where
  "on_conn f w = (f (fst w), snd w)"

definition feed_chunk :: "decoder \<Rightarrow> bytes \<Rightarrow> observer \<Rightarrow> observer" where
  "feed_chunk decode ch w = cb_tcp_read decode observe on_conn fst (int (length ch)) (Some ch) w"

definition feed_chunks :: "decoder \<Rightarrow> bytes list \<Rightarrow> observer \<Rightarrow> observer" where
  "feed_chunks decode chs w = fold (feed_chunk decode) chs w"

text \<open>Bytes that do not hold a whole message yet.\<close>

definition incomplete :: "bytes \<Rightarrow> bool" where
  "incomplete p \<longleftrightarrow> length p < 4 \<or> length p < unat (ntohl_ptr p)"

definition good_content :: "decoder \<Rightarrow> bytes \<Rightarrow> bool" where
  "good_content decode c \<longleftrightarrow> frame_size_ok c \<and> checked decode c \<noteq> None"

definition stream :: "bytes list \<Rightarrow> bytes" where
  "stream cs = concat (map frame cs)"

text \<open>The connection after \<open>n\<close> messages of \<open>b\<close> bytes in all, with \<open>p\<close> left over.\<close>

definition received :: "nat \<Rightarrow> nat \<Rightarrow> bytes \<Rightarrow> conn \<Rightarrow> conn" where
  "received n b p c =
     c\<lparr>c_input := p,
       c_stats := (c_stats c)\<lparr>recv_msgs := recv_msgs (c_stats c) + of_nat n,
                              recv_bytes := recv_bytes (c_stats c) + of_nat b\<rparr>\<rparr>"

lemma received_received: "received n b p (received m a q c) = received (m + n) (a + b) p c"
  by (simp add: received_def add.assoc)

lemma received_none: "received 0 0 p c = c\<lparr>c_input := p\<rparr>"
  by (simp add: received_def)

lemma ntohl_prefix: "4 \<le> length p \<Longrightarrow> ntohl_ptr (p @ q) = ntohl_ptr p"
  by (auto simp: ntohl_ptr_def nth_append)

lemma frame_ge_4: "4 \<le> length (frame c)"
  by (simp add: frame_length)

lemma frame_ntohl: "frame_size_ok c \<Longrightarrow> unat (ntohl_ptr (frame c @ rest)) = length c + 12"
  using unat_frame_len[of c] frame_header[of c rest] by simp

lemma read_incomplete: "incomplete buf \<Longrightarrow> read_loop decode h upd buf w = w"
  by (subst read_loop.simps) (auto simp: incomplete_def Let_def)

lemma read_frame:
  assumes "frame_size_ok c" "checked decode c = Some m"
  shows "read_loop decode h upd (frame c @ rest) w =
    read_loop decode h upd rest
      (upd (\<lambda>k. k\<lparr>c_input := rest\<rparr>) (h m (upd (count_msg (length c + 12)) w)))"
proof -
  have "length (frame c @ rest) = length c + 12 + length rest" by (simp add: frame_length)
  moreover have "drop (length c + 12) (frame c @ rest) = rest" by (simp add: frame_length)
  moreover have "parse_network_msg decode (frame c @ rest) (length c + 12) = Some m"
    using parse_frame[OF assms(1)] assms(2) by simp
  ultimately show ?thesis
    by (subst read_loop.simps) (simp add: Let_def frame_ntohl[OF assms(1)] del: append_assoc)
qed

lemma read_stream:
  assumes "list_all (good_content decode) cs" "incomplete p"
  shows "read_loop decode observe on_conn (stream cs @ p) (c\<lparr>c_input := stream cs @ p\<rparr>, log) =
    (received (length cs) (length (stream cs)) p c, log @ map (the \<circ> checked decode) cs)"
  using assms(1)
proof (induction cs arbitrary: c log)
  case Nil
  then show ?case using assms(2) by (simp add: stream_def read_incomplete received_none)
next
  case (Cons x xs)
  then obtain m where x: "frame_size_ok x" "checked decode x = Some m"
    by (auto simp: good_content_def)
  have s: "stream (x # xs) @ p = frame x @ (stream xs @ p)" by (simp add: stream_def)
  have l: "length (stream (x # xs)) = length x + 12 + length (stream xs)"
    by (simp add: stream_def frame_length)
  let ?c = "received 1 (length x + 12) [] c"
  have "read_loop decode observe on_conn (stream (x # xs) @ p) (c\<lparr>c_input := stream (x # xs) @ p\<rparr>, log) =
      read_loop decode observe on_conn (stream xs @ p) (?c\<lparr>c_input := stream xs @ p\<rparr>, log @ [m])"
    unfolding s read_frame[OF x]
    by (simp add: observe_def on_conn_def count_msg_def received_def)
  also have "\<dots> = (received (length xs) (length (stream xs)) p ?c, (log @ [m]) @ map (the \<circ> checked decode) xs)"
    using Cons by (intro Cons.IH) simp
  finally show ?case by (simp add: received_received l x(2))
qed

text \<open>Wherever a stream is cut, what came before the cut is whole messages and an incomplete rest.\<close>

lemma stream_cut:
  assumes "list_all (good_content decode) cs" "incomplete part" "pre @ suf = stream cs @ part"
  obtains cs1 cs2 p where "cs = cs1 @ cs2" "pre = stream cs1 @ p" "incomplete p"
    "p @ suf = stream cs2 @ part"
  using assms
proof (induction cs arbitrary: pre thesis)
  case Nil
  have "incomplete pre"
  proof (cases "length pre < 4")
    case True
    then show ?thesis by (simp add: incomplete_def)
  next
    case False
    have eq: "part = pre @ suf" using Nil.prems(4) by (simp add: stream_def)
    with False Nil.prems(3) have "unat (ntohl_ptr pre) = unat (ntohl_ptr part)" "length pre \<le> length part"
      "length part < unat (ntohl_ptr part)"
      using ntohl_prefix[of pre suf] by (auto simp: incomplete_def)
    then show ?thesis by (simp add: incomplete_def)
  qed
  then show ?case using Nil.prems(1)[of "[]" "[]" pre] Nil.prems(4) by (simp add: stream_def)
next
  case (Cons x xs)
  have eq: "pre @ suf = frame x @ (stream xs @ part)" using Cons.prems(4) by (simp add: stream_def)
  have size: "frame_size_ok x" using Cons.prems(2) by (simp add: good_content_def)
  show ?case
  proof (cases "length pre < length (frame x)")
    case True
    with eq have "\<exists>f. frame x = pre @ f" by (auto simp: append_eq_append_conv2 intro: sym)
    then obtain f where f: "frame x = pre @ f" by blast
    have "incomplete pre"
    proof (cases "length pre < 4")
      case False
      then have "unat (ntohl_ptr pre) = length (frame x)"
        using ntohl_prefix[of pre f] frame_ntohl[OF size, of "[]"] f frame_length[of x] by simp
      with True show ?thesis by (simp add: incomplete_def)
    qed (simp add: incomplete_def)
    then show ?thesis
      using Cons.prems(1)[of "[]" "x # xs" pre] Cons.prems(4) by (simp add: stream_def)
  next
    case False
    let ?n = "length (frame x)"
    define q where "q = drop ?n pre"
    have "take ?n (pre @ suf) = frame x" "drop ?n (pre @ suf) = stream xs @ part"
      unfolding eq by simp_all
    with False have "take ?n pre = frame x" "q @ suf = stream xs @ part" by (simp_all add: q_def)
    then have q: "pre = frame x @ q" "q @ suf = stream xs @ part"
      using append_take_drop_id[of ?n pre] by (simp_all add: q_def)
    have xs: "list_all (good_content decode) xs" using Cons.prems(2) by simp
    obtain cs1 cs2 p where "xs = cs1 @ cs2" "q = stream cs1 @ p" "incomplete p" "p @ suf = stream cs2 @ part"
      by (rule Cons.IH[OF _ xs Cons.prems(3) q(2)])
    then show ?thesis
      using Cons.prems(1)[of "x # cs1" cs2 p] q(1) by (simp add: stream_def)
  qed
qed

lemma feed_chunk_eval:
  "feed_chunk decode ch (c, log) =
     (if ch = [] then (c, log)
      else read_loop decode observe on_conn (c_input c @ ch) (c\<lparr>c_input := c_input c @ ch\<rparr>, log))"
  by (simp add: feed_chunk_def cb_tcp_read_def on_conn_def Let_def)

lemma feed_stream:
  assumes "list_all (good_content decode) cs" "incomplete part"
    and "incomplete (c_input c)" "c_input c @ concat chs = stream cs @ part"
  shows "feed_chunks decode chs (c, log) =
    (received (length cs) (length (stream cs)) part c, log @ map (the \<circ> checked decode) cs)"
  using assms
proof (induction chs arbitrary: c cs log)
  case Nil
  have "cs = []"
  proof (rule ccontr)
    assume "cs \<noteq> []"
    then obtain x xs where cs: "cs = x # xs" by (cases cs) auto
    then have "frame_size_ok x" "c_input c = frame x @ (stream xs @ part)"
      using Nil.prems by (simp_all add: stream_def good_content_def)
    then have "unat (ntohl_ptr (c_input c)) = length x + 12" "length x + 12 \<le> length (c_input c)"
      by (simp_all add: frame_ntohl frame_length del: append_assoc)
    with Nil.prems(3) show False by (simp add: incomplete_def)
  qed
  then show ?case using Nil.prems by (simp add: feed_chunks_def received_none stream_def)
next
  case (Cons ch chs)
  have cut: "(c_input c @ ch) @ concat chs = stream cs @ part" using Cons.prems(4) by simp
  obtain cs1 cs2 p where cut': "cs = cs1 @ cs2" "c_input c @ ch = stream cs1 @ p" "incomplete p"
    "p @ concat chs = stream cs2 @ part"
    by (rule stream_cut[OF Cons.prems(1,2) cut])
  have good: "list_all (good_content decode) cs1" "list_all (good_content decode) cs2"
    using Cons.prems(1) cut'(1) by simp_all
  let ?c = "received (length cs1) (length (stream cs1)) p c"
  let ?log = "log @ map (the \<circ> checked decode) cs1"
  have "feed_chunk decode ch (c, log) = (?c, ?log)"
  proof (cases "ch = []")
    case True
    have same: "c\<lparr>c_input := c_input c\<rparr> = c" by (cases c) simp
    have "read_loop decode observe on_conn (c_input c) (c, log) = (?c, ?log)"
      using read_stream[OF good(1) cut'(3), of c log, folded cut'(2)] True by (simp only: append_Nil2 same)
    then have "(c, log) = (?c, ?log)" using read_incomplete[OF Cons.prems(3)] by metis
    then show ?thesis using True by (simp only: feed_chunk_eval if_True simp_thms)
  next
    case False
    then show ?thesis
      using read_stream[OF good(1) cut'(3), of c log] cut'(2) by (simp add: feed_chunk_eval)
  qed
  moreover have "feed_chunks decode chs (?c, ?log) =
      (received (length cs2) (length (stream cs2)) part ?c, ?log @ map (the \<circ> checked decode) cs2)"
    using cut'(3,4) good(2) Cons.prems(2) by (intro Cons.IH) (simp_all add: received_def)
  ultimately show ?case
    by (simp add: feed_chunks_def received_received cut'(1) stream_def add.commute)
qed

text \<open>
  C13: A stream of frames reaches the client as its messages, each once and in order, wherever the
  network cuts the stream, even inside the length field: after the chunks have been read the client
  has the messages of all whole frames, the bytes of the unfinished one are kept, the counters are
  exact and nothing was disconnected.
\<close>

theorem stream_reassembly:
  assumes "\<forall>x \<in> set cs. x \<noteq> [] \<and> length x + 12 < 2 ^ 32 \<and>
      (\<exists>m. decode x = Some m \<and> verify_message m)"
    and "length part < 4 \<or> length part < unat (ntohl_ptr part)"
    and "c_input c = []" "concat chs = concat (map (\<lambda>x. wire (output_msg_t x)) cs) @ part"
  shows "feed_chunks decode chs (c, []) =
    (c\<lparr>c_input := part,
       c_stats := (c_stats c)\<lparr>recv_msgs := recv_msgs (c_stats c) + of_nat (length cs),
         recv_bytes := recv_bytes (c_stats c) + of_nat (length (concat (map (\<lambda>x. wire (output_msg_t x)) cs)))\<rparr>\<rparr>,
     map (\<lambda>x. the (decode x)) cs)"
proof -
  have good: "list_all (good_content decode) cs"
    using assms(1) by (auto simp: list_all_iff good_content_def frame_size_ok_def checked_def)
  have dec: "map (the \<circ> checked decode) cs = map (\<lambda>x. the (decode x)) cs"
    using assms(1) by (auto simp: checked_def)
  have "feed_chunks decode chs (c, []) =
      (received (length cs) (length (stream cs)) part c, [] @ map (the \<circ> checked decode) cs)"
    using assms good by (intro feed_stream) (simp_all add: incomplete_def stream_def)
  then show ?thesis by (simp only: dec received_def stream_def append_Nil)
qed

theorem stream_reassembly_witness:
  "\<forall>c. feed_chunks (\<lambda>x. if x = [1, 2] then Some ping_payload else None)
       [take 3 (wire (output_msg_t [1, 2])), drop 3 (wire (output_msg_t [1, 2])) @ [0, 0]] (c\<lparr>c_input := []\<rparr>, []) =
     (c\<lparr>c_input := [0, 0],
        c_stats := (c_stats c)\<lparr>recv_msgs := recv_msgs (c_stats c) + 1,
          recv_bytes := recv_bytes (c_stats c) + of_nat (length (wire (output_msg_t [1, 2])))\<rparr>\<rparr>,
      [ping_payload])"
proof -
  have ok: "verify_message ping_payload"
    by (simp add: ping_payload_def create_ping_msg_def verify_message_def verify_msg_content_def)
  have cut: "concat [take 3 (wire (output_msg_t [1, 2])), drop 3 (wire (output_msg_t [1, 2])) @ [0, 0]] =
      concat (map (\<lambda>x. wire (output_msg_t x)) [[1, 2]]) @ [0, 0]"
    by (simp add: append_assoc[symmetric] del: append_assoc)
  show ?thesis
  proof
    fix c
    show "feed_chunks (\<lambda>x. if x = [1, 2] then Some ping_payload else None)
         [take 3 (wire (output_msg_t [1, 2])), drop 3 (wire (output_msg_t [1, 2])) @ [0, 0]] (c\<lparr>c_input := []\<rparr>, []) =
       (c\<lparr>c_input := [0, 0],
          c_stats := (c_stats c)\<lparr>recv_msgs := recv_msgs (c_stats c) + 1,
            recv_bytes := recv_bytes (c_stats c) + of_nat (length (wire (output_msg_t [1, 2])))\<rparr>\<rparr>,
        [ping_payload])"
    using stream_reassembly[of "[[1, 2]]" "\<lambda>x. if x = [1, 2] then Some ping_payload else None"
        "[0, 0]" "c\<lparr>c_input := []\<rparr>", OF _ _ _ cut] ok
    by simp
  qed
qed

section \<open>Messages in flight\<close>

text \<open>
  The life of a connection: its operations in any order, with any answer of libuv.  What libuv
  documents is in the guard of \<open>close\<close>: the callback of \<open>uv_close\<close> comes after the callbacks of all
  writes.
\<close>

inductive conn_step :: "conn \<Rightarrow> conn \<Rightarrow> bool" where
  cs_connect: "conn_step c (snd (connect env c))"
| cs_connected: "conn_step c (snd (cb_tcp_connect status c))"
| cs_send: "conn_step c (snd (conn_send rc content c))"
| cs_written: "conn_step c (snd (cb_tcp_write status c))"
| cs_read: "conn_step c (fst (cb_tcp_read decode observe on_conn fst nread base (c, log)))"
| cs_disconnect: "conn_step c (disconnect rc c)"
| cs_close: "c_closing c \<Longrightarrow> c_pending c = [] \<Longrightarrow> conn_step c (cb_tcp_close c)"

inductive conn_run :: "conn \<Rightarrow> conn \<Rightarrow> bool" where
  cr_init: "conn_run c c"
| cr_step: "conn_run c c1 \<Longrightarrow> conn_step c1 c2 \<Longrightarrow> conn_run c c2"

definition pending_bytes :: "conn \<Rightarrow> nat" where
  "pending_bytes c = sum_list (map (unat \<circ> out_len) (c_pending c))"

definition accounts :: "conn \<Rightarrow> bool" where
  "accounts c \<longleftrightarrow>
     0 < max_unack_msgs (c_params c) \<and> 0 < max_unack_bytes (c_params c) \<and>
     unat (unack_msgs (c_stats c)) = length (c_pending c) \<and>
     unat (unack_bytes (c_stats c)) = pending_bytes c \<and>
     length (c_pending c) \<le> unat (max_unack_msgs (c_params c)) \<and>
     pending_bytes c < unat (max_unack_bytes (c_params c)) \<and>
     (c_state c = C_CLOSED \<longrightarrow> c_pending c = [])"

text \<open>What the counters do not depend on.\<close>

definition same_flight :: "conn \<Rightarrow> conn \<Rightarrow> bool" where
  "same_flight c d \<longleftrightarrow>
     c_params d = c_params c \<and> c_pending d = c_pending c \<and>
     unack_msgs (c_stats d) = unack_msgs (c_stats c) \<and> unack_bytes (c_stats d) = unack_bytes (c_stats c) \<and>
     c_state d = c_state c"

lemma same_flight_refl [simp]: "same_flight c c"
  by (simp add: same_flight_def)

lemma same_flight_trans [trans]: "same_flight a b \<Longrightarrow> same_flight b c \<Longrightarrow> same_flight a c"
  by (simp add: same_flight_def)

lemma accounts_same: "accounts c \<Longrightarrow> same_flight c d \<Longrightarrow> accounts d"
  by (simp add: same_flight_def accounts_def pending_bytes_def)

lemma disconnect_flight [simp]: "same_flight c (disconnect rc c)"
  by (simp add: disconnect_def same_flight_def Let_def)

lemma count_flight [simp]: "same_flight c (count_msg n c)" "same_flight c (c\<lparr>c_input := p\<rparr>)"
  by (simp_all add: count_msg_def same_flight_def)

lemma read_flight: "same_flight (fst w) (fst (read_loop decode observe on_conn buf w))"
proof (induction decode "observe" "on_conn :: (conn \<Rightarrow> conn) \<Rightarrow> observer \<Rightarrow> observer" buf w rule: read_loop.induct)
  case (1 decode buf w)
  show ?case
  proof (cases "length buf < 4 \<or> length buf < unat (ntohl_ptr buf)")
    case True
    then show ?thesis by (subst read_loop.simps) (auto simp: Let_def)
  next
    case enough: False
    show ?thesis
    proof (cases "parse_network_msg decode buf (unat (ntohl_ptr buf))")
      case None
      with enough show ?thesis by (subst read_loop.simps) (simp add: Let_def on_conn_def)
    next
      case (Some m)
      let ?n = "unat (ntohl_ptr buf)"
      let ?w = "on_conn (\<lambda>c. c\<lparr>c_input := drop ?n buf\<rparr>) (observe m (on_conn (count_msg ?n) w))"
      have "same_flight (fst w) (fst ?w)"
        by (simp add: on_conn_def observe_def count_msg_def same_flight_def)
      also have "same_flight (fst ?w) (fst (read_loop decode observe on_conn (drop ?n buf) ?w))"
        using 1[OF _ refl _ Some refl] enough by simp
      finally show ?thesis using enough Some by (subst read_loop.simps) (simp add: Let_def)
    qed
  qed
qed

lemma read_step_flight: "same_flight c (fst (cb_tcp_read decode observe on_conn fst nread base (c, log)))"
proof -
  let ?buf = "c_input c @ take (nat nread) (the base)"
  have "same_flight c (fst (read_loop decode observe on_conn ?buf (c\<lparr>c_input := ?buf\<rparr>, log)))"
    using read_flight[of "(c\<lparr>c_input := ?buf\<rparr>, log)"] same_flight_trans[OF count_flight(2)] by fastforce
  then show ?thesis by (simp add: cb_tcp_read_def on_conn_def Let_def)
qed

lemma accounts_create:
  assumes "connection_create port p = Inr c"
  shows "accounts c"
proof -
  show ?thesis
    using assms
    by (auto simp: connection_create_def accounts_def pending_bytes_def zero_stats_def word_neq_0_conv[symmetric] unat_gt_0
        split: if_split_asm)
qed

lemma accounts_connect: "accounts c \<Longrightarrow> accounts (snd (connect env c))"
  by (auto simp: connect_def accounts_def pending_bytes_def zero_stats_def Let_def unat_gt_0)

lemma u32_lt: "unat (a :: u32) < 4294967296"
  using unsigned_less[of a, where 'a = nat] by simp

lemma unat_u64 [simp]: "unat (ucast (a :: u32) :: 64 word) = unat a"
  using u32_lt[of a] by (simp add: unsigned_ucast_eq take_bit_nat_eq_self)

lemma u64_add_small:
  assumes "unat (x :: 64 word) < unat (a :: u32)"
  shows "unat (x + ucast (b :: u32)) = unat x + unat b"
  using assms u32_lt[of a] u32_lt[of b] by (simp add: unat_word_ariths)

lemma accounts_send: "accounts c \<Longrightarrow> accounts (snd (conn_send rc content c))"
proof -
  assume acc: "accounts c"
  let ?m = "output_msg_t content" and ?st = "c_stats c"
  have widths: "unat (unack_bytes ?st + msg_length ?m) = pending_bytes c + unat (out_len ?m)"
    "unat (ucast (max_unack_bytes (c_params c)) :: 64 word) = unat (max_unack_bytes (c_params c))"
    "unat (ucast (max_unack_msgs (c_params c)) :: 64 word) = unat (max_unack_msgs (c_params c))"
    using acc u64_add_small[of "unack_bytes ?st" "max_unack_bytes (c_params c)" "out_len ?m"]
    by (simp_all add: accounts_def msg_length_def)
  consider (off) "c_state c \<noteq> C_CONNECTED" | (msgs) "c_state c = C_CONNECTED" "unack_msgs ?st \<ge> ucast (max_unack_msgs (c_params c))"
    | (bytes) "c_state c = C_CONNECTED" "unack_bytes ?st + msg_length ?m \<ge> ucast (max_unack_bytes (c_params c))"
    | (fail) "c_state c = C_CONNECTED" "rc \<noteq> 0"
    | (sent) "c_state c = C_CONNECTED" "\<not> unack_msgs ?st \<ge> ucast (max_unack_msgs (c_params c))"
        "\<not> unack_bytes ?st + msg_length ?m \<ge> ucast (max_unack_bytes (c_params c))" "rc = 0"
    by blast
  then show ?thesis
  proof cases
    case sent
    then have lt: "length (c_pending c) < unat (max_unack_msgs (c_params c))"
      "pending_bytes c + unat (out_len ?m) < unat (max_unack_bytes (c_params c))"
      using acc widths by (simp_all add: accounts_def word_le_nat_alt)
    then have "unat (unack_msgs ?st + 1) = length (c_pending c) + 1"
      using acc u32_lt[of "max_unack_msgs (c_params c)"]
      by (simp add: accounts_def unat_word_ariths)
    then show ?thesis
      using sent acc lt widths
      by (simp add: conn_send_def Let_def accounts_def pending_bytes_def)
  qed (use acc in \<open>simp_all add: conn_send_def Let_def accounts_same\<close>)
qed

lemma accounts_written: "accounts c \<Longrightarrow> accounts (snd (cb_tcp_write status c))"
proof (cases "c_pending c")
  case (Cons m ms)
  assume acc: "accounts c"
  let ?st = "c_stats c"
  have "unack_msgs ?st \<noteq> 0" "msg_length m \<le> unack_bytes ?st"
    "unat (msg_length m) = unat (out_len m)"
    using acc Cons
    by (auto simp: accounts_def pending_bytes_def msg_length_def word_le_nat_alt)
  then have "unat (unack_msgs ?st - 1) = length ms"
    "unat (unack_bytes ?st - msg_length m) = sum_list (map (unat \<circ> out_len) ms)"
    using acc Cons by (simp_all add: accounts_def pending_bytes_def unat_sub unat_minus_one)
  then have "accounts (c\<lparr>c_pending := ms,
      c_stats := ?st\<lparr>unack_msgs := unack_msgs ?st - 1, unack_bytes := unack_bytes ?st - msg_length m,
        sent_msgs := n, sent_bytes := b\<rparr>\<rparr>)" for n b
    using acc Cons by (simp add: accounts_def pending_bytes_def)
  then show ?thesis using Cons by (simp add: cb_tcp_write_def Let_def accounts_same[OF _ disconnect_flight])
qed (simp add: cb_tcp_write_def)

lemma accounts_connected: "accounts c \<Longrightarrow> accounts (snd (cb_tcp_connect status c))"
proof (cases "status < 0")
  case False
  assume "accounts c"
  with False show ?thesis by (simp add: cb_tcp_connect_def accounts_def pending_bytes_def)
qed (simp add: cb_tcp_connect_def accounts_same)

lemma accounts_step: "conn_step c d \<Longrightarrow> accounts c \<Longrightarrow> accounts d"
proof (induction rule: conn_step.induct)
  case (cs_read c decode nread base log)
  then show ?case by (rule accounts_same[OF _ read_step_flight])
next
  case (cs_disconnect c rc)
  then show ?case by (rule accounts_same[OF _ disconnect_flight])
next
  case (cs_close c)
  then show ?case by (simp add: cb_tcp_close_def accounts_def pending_bytes_def)
qed (simp_all add: accounts_connect accounts_connected accounts_send accounts_written)

lemma accounts_run: "conn_run c d \<Longrightarrow> accounts c \<Longrightarrow> accounts d"
  by (induction rule: conn_run.induct) (auto intro: accounts_step)

text \<open>
  C14: The flow control of a connection is exact: over every history of its operations and of the
  callbacks of libuv, the counters of unacknowledged messages and bytes are those of the writes in
  flight, without wrapping; they stay within the limits configured, where a limit of 0 is the largest
  one; so the two assertions of the write callback hold whenever a write is reported, and a closed
  connection has nothing in flight.
\<close>

theorem flight_bounded:
  assumes "connection_create port p = Inr c0" and "conn_run c0 c"
  shows "unat (unack_msgs (c_stats c)) = length (c_pending c) \<and>
    unat (unack_bytes (c_stats c)) = sum_list (map (\<lambda>m. unat (out_len m)) (c_pending c)) \<and>
    unack_msgs (c_stats c) \<le> ucast (max_unack_msgs (c_params c)) \<and>
    unack_bytes (c_stats c) < ucast (max_unack_bytes (c_params c)) \<and>
    (\<forall>m ms. c_pending c = m # ms \<longrightarrow> 0 < unack_msgs (c_stats c) \<and> msg_length m \<le> unack_bytes (c_stats c)) \<and>
    (c_state c = C_CLOSED \<longrightarrow> c_pending c = [])"
  using accounts_run[OF assms(2) accounts_create[OF assms(1)]]
  by (auto simp: accounts_def pending_bytes_def msg_length_def word_le_nat_alt word_less_nat_alt
      comp_def)

definition uv_fine :: uv_connect where
  "uv_fine = \<lparr>uv_init_rc = 0, uv_nodelay_rc = 0, uv_addr_ok = True, uv_connect_rc = 0\<rparr>"

definition one_sent :: conn where
  "one_sent =
     snd (conn_send 0 [1, 2, 3] (snd (cb_tcp_connect 0 (snd (connect uv_fine
       (projr (connection_create 80 \<lparr>max_unack_msgs = 0, max_unack_bytes = 100\<rparr>)))))))"

theorem flight_bounded_witness:
  "unat (unack_bytes (c_stats one_sent)) = 15 \<and> c_pending one_sent = [output_msg_t [1, 2, 3]]"
proof -
  let ?c = "projr (connection_create 80 \<lparr>max_unack_msgs = 0, max_unack_bytes = 100\<rparr>)"
  have c: "connection_create 80 \<lparr>max_unack_msgs = 0, max_unack_bytes = 100\<rparr> = Inr ?c"
    by (simp add: connection_create_def)
  have "conn_run ?c (snd (connect uv_fine ?c))"
    by (rule cr_step[OF cr_init cs_connect])
  then have run: "conn_run ?c one_sent"
    unfolding one_sent_def by (rule cr_step[OF cr_step[OF _ cs_connected] cs_send])
  have pending: "c_pending one_sent = [output_msg_t [1, 2, 3]]"
    by (simp add: one_sent_def uv_fine_def connection_create_def connect_def cb_tcp_connect_def
        conn_send_def zero_stats_def msg_length_def Let_def)
  then show ?thesis using flight_bounded[OF c run] by simp
qed

end
