(* ===== verification/Nplex_Client.thy ===== *)
theory Nplex_Client
  imports Nplex_Connection
begin

text \<open>
  The client, \<open>src/client_impl.cpp\<close> and \<open>src/client_impl.hpp\<close>: its state, and what it does outside the
  treatment of messages (commands, connections, shutdown).  Transactions are shared objects: a
  \<open>tx_impl_ptr\<close> is an index into \<open>cl_heap\<close>.  Logging and the mutexes, which every operation holds
  as long as it uses what they protect, are not modelled; assertions are those of a release build.
\<close>

section \<open>State\<close>

datatype client_state =
    OFFLINE | CONNECTING | AUTHENTICATED | LOADING_SNAPSHOT | INITIALIZED | SYNCING | SYNCED | CLOSED

record session_t =
  s_user :: string
  s_address :: string
  s_code :: exit_code
  s_since :: millis_t
  s_until :: millis_t

text \<open>What the futures of \<open>ping\<close> and \<open>fetch_sessions\<close> hold.\<close>

datatype future_value = Latency nat | Sessions "session_t list"

text \<open>
  The subclasses of \<open>request_t\<close>: a transaction and \<open>force\<close>, a payload, \<open>enable_stream\<close>; a promise is an
  index into \<open>cl_futures\<close>.
\<close>

datatype req_kind = Submit_req nat bool | Ping_req string nat | Sessions_req bool nat

record request =
  rq_cid :: "64 word"
  rq_t0 :: nat
  rq_erev :: rev_t
  rq_kind :: req_kind

datatype command = Close_cmd | Request_cmd request

record client_params =
  p_user :: string
  p_password :: string
  p_servers :: "nat list"              \<comment> \<open>the port of each server; the host is only passed to libuv\<close>
  p_max_active_txs :: u32
  p_connection :: conn_params
  p_timeout :: "u32 \<Rightarrow> 64 word"        \<comment> \<open>the product with \<open>timeout_factor\<close>, of floating point, cast back\<close>

record timer =
  t_due :: nat
  t_repeat :: nat

record client =
  cl_user :: "user option"
  cl_store :: store
  cl_transactions :: "nat list"
  cl_params :: client_params
  cl_rev0 :: rev_t
  cl_connections :: "conn list"
  cl_con :: "nat option"
  cl_correlation :: "64 word"
  cl_data_cid :: "64 word"
  cl_sessions_cid :: "64 word"
  cl_initialized :: bool
  cl_running :: bool
  cl_state :: client_state
  cl_error :: "exn option"
  cl_commands :: "command list"
  cl_requests :: "request list"
  cl_accepted :: "request list"
  cl_timer_lost :: "timer option"
  cl_timer_reconnect :: "timer option"
  cl_async :: bool                     \<comment> \<open>\<open>uv_async_send\<close> was called and its callback has not run\<close>
  cl_stopped :: bool                   \<comment> \<open>\<open>uv_stop\<close> was called\<close>
  cl_now :: nat                        \<comment> \<open>the steady clock, in microseconds\<close>
  cl_heap :: "tx list"                 \<comment> \<open>every transaction created, by address\<close>
  cl_held :: "nat list"                \<comment> \<open>transactions the program still has a pointer to\<close>
  cl_futures :: "(exn + future_value) option list"

text \<open>Conversions of \<open>client_impl.cpp\<close>; a null string of the message is empty.\<close>

definition to_session_t :: "session_msg \<Rightarrow> session_t" where
  "to_session_t m =
     \<lparr>s_user = (case ses_user m of None \<Rightarrow> [] | Some s \<Rightarrow> s),
      s_address = (case ses_address m of None \<Rightarrow> [] | Some s \<Rightarrow> s),
      s_code = ses_code m, s_since = ses_since m, s_until = ses_until m\<rparr>"

section \<open>Shared objects\<close>

definition on_tx :: "nat \<Rightarrow> (tx, 'a) op \<Rightarrow> (client, 'a) op" where
  "on_tx i f c = (case f (cl_heap c ! i) of (r, t) \<Rightarrow> (r, c\<lparr>cl_heap := (cl_heap c)[i := t]\<rparr>))"

definition on_connection :: "nat \<Rightarrow> (conn, 'a) op \<Rightarrow> (client, 'a) op" where
  "on_connection i f c =
     (case f (cl_connections c ! i) of
        (r, k) \<Rightarrow> (r, c\<lparr>cl_connections := (cl_connections c)[i := k]\<rparr>))"

definition disconnect_con :: "int \<Rightarrow> nat \<Rightarrow> (client, unit) op" where
  "disconnect_con rc i = on_connection i (modify_op (disconnect rc))"

text \<open>\<open>m_con->disconnect\<close>.\<close>

definition disconnect_current :: "int \<Rightarrow> (client, unit) op" where
  "disconnect_current rc c =
     (case cl_con c of None \<Rightarrow> (Inl Ex_crash, c) | Some i \<Rightarrow> disconnect_con rc i c)"

definition satisfy_future :: "nat \<Rightarrow> exn + future_value \<Rightarrow> (client, unit) op" where
  "satisfy_future p r c =
     (case cl_futures c ! p of
        Some _ \<Rightarrow> (Inl Ex_promise_satisfied, c)
      | None \<Rightarrow> (Inr (), c\<lparr>cl_futures := (cl_futures c)[p := Some r]\<rparr>))"

text \<open>The destructor of a request: a promise it leaves unsatisfied is broken.\<close>

definition break_promise :: "nat \<Rightarrow> client \<Rightarrow> client" where
  "break_promise p c =
     (if cl_futures c ! p = None
      then c\<lparr>cl_futures := (cl_futures c)[p := Some (Inl Ex_broken_promise)]\<rparr> else c)"

definition drop_request :: "request \<Rightarrow> client \<Rightarrow> client" where
  "drop_request r c =
     (case rq_kind r of
        Submit_req i f \<Rightarrow> c
      | Ping_req s p \<Rightarrow> break_promise p c
      | Sessions_req b p \<Rightarrow> break_promise p c)"

definition drop_command :: "command \<Rightarrow> client \<Rightarrow> client" where
  "drop_command cmd c = (case cmd of Close_cmd \<Rightarrow> c | Request_cmd r \<Rightarrow> drop_request r c)"

text \<open>\<open>m_commands.clear()\<close>, \<open>m_requests.clear()\<close>, \<open>m_accepted.clear()\<close>.\<close>

definition clear_commands :: "client \<Rightarrow> client" where
  "clear_commands c = fold drop_command (cl_commands c) (c\<lparr>cl_commands := []\<rparr>)"

definition clear_requests :: "client \<Rightarrow> client" where
  "clear_requests c = fold drop_request (cl_requests c) (c\<lparr>cl_requests := []\<rparr>)"

definition clear_accepted :: "client \<Rightarrow> client" where
  "clear_accepted c = fold drop_request (cl_accepted c) (c\<lparr>cl_accepted := []\<rparr>)"

text \<open>The virtual \<open>cancel\<close> of a request.\<close>

definition cancel :: "request \<Rightarrow> (client, unit) op" where
  "cancel r =
     (case rq_kind r of
        Submit_req i f \<Rightarrow> on_tx i (set_submit_error Ex_canceled)
      | Ping_req s p \<Rightarrow> satisfy_future p (Inl Ex_canceled)
      | Sessions_req b p \<Rightarrow> satisfy_future p (Inl Ex_canceled))"

definition pop_request :: "client \<Rightarrow> client" where
  "pop_request c = c\<lparr>cl_requests := tl (cl_requests c)\<rparr>"

definition pop_accepted :: "client \<Rightarrow> client" where
  "pop_accepted c = c\<lparr>cl_accepted := tl (cl_accepted c)\<rparr>"

text \<open>Nothing that \<open>cancel\<close> calls pushes a request, so the loop runs over what is queued at its start.\<close>

definition cancel_requests :: "(client, unit) op" where
  "cancel_requests c =
     bind_op (each_op (\<lambda>r. bind_op (modify_op pop_request) (\<lambda>_.
         bind_op (cancel r) (\<lambda>_. modify_op (drop_request r)))) (cl_requests c)) (\<lambda>_.
       bind_op (each_op (\<lambda>r. bind_op (modify_op pop_accepted) (\<lambda>_.
         bind_op (cancel r) (\<lambda>_. modify_op (drop_request r)))) (cl_accepted c)) (\<lambda>_.
       return_op ())) c"

section \<open>The world around the client\<close>

text \<open>
  What the code gets from elsewhere: the bytes FlatBuffers makes of a message, what libuv answers, and
  the callbacks of manager and reactor.  A callback may use the client, so it is given and returns its
  state; \<^term>\<open>None\<close> as its result is an exception.  A client without a reactor has \<^term>\<open>None\<close>.
\<close>

record reactor =
  on_initial_data :: "client \<Rightarrow> unit option \<times> client"
  on_event_data :: "addr \<Rightarrow> change list \<Rightarrow> client \<Rightarrow> client"
  on_initial_sessions :: "session_t list \<Rightarrow> client \<Rightarrow> client"
  on_event_session :: "session_t \<Rightarrow> client \<Rightarrow> client"

record env =
  e_encode :: "message \<Rightarrow> bytes"
  e_write :: "bytes \<Rightarrow> int"
  e_connect :: "nat \<Rightarrow> uv_connect"
  e_established :: "nat \<Rightarrow> client \<Rightarrow> unit option \<times> client"
  e_lost :: "nat \<Rightarrow> client \<Rightarrow> bool option \<times> client"
  e_failed :: "client \<Rightarrow> int option \<times> client"
  e_reactor :: "reactor option"

section \<open>State changes and sending\<close>

definition client_set_state :: "client_state \<Rightarrow> client \<Rightarrow> client" where
  "client_set_state st c =
     (if cl_state c = st then c
      else
        let c1 = c\<lparr>cl_state := st\<rparr>
        in if st = CLOSED
           then clear_accepted (clear_requests (clear_commands (c1\<lparr>cl_transactions := []\<rparr>)))
           else c1)"

definition is_closed :: "client \<Rightarrow> bool" where
  "is_closed c \<longleftrightarrow> cl_state c = CLOSED"

definition send_on :: "env \<Rightarrow> nat \<Rightarrow> message \<Rightarrow> (client, unit) op" where
  "send_on env i m =
     on_connection i (conn_send (e_write env (e_encode env m)) (e_encode env m))"

definition client_send :: "env \<Rightarrow> message \<Rightarrow> (client, unit) op" where
  "client_send env m c =
     (case cl_con c of
        None \<Rightarrow> (Inr (), c)
      | Some i \<Rightarrow> if is_closed c then (Inr (), c) else send_on env i m c)"

definition client_abort :: "exn \<Rightarrow> client \<Rightarrow> client" where
  "client_abort e c =
     (if is_closed c then c
      else
        let c1 = c\<lparr>cl_error := Some e, cl_con := None, cl_data_cid := 0, cl_sessions_cid := 0,
                   cl_connections := map (disconnect ERR_CLOSED_BY_LOCAL) (cl_connections c),
                   cl_timer_lost := None, cl_timer_reconnect := None\<rparr>;
            c2 = clear_commands (client_set_state CLOSED c1)
        in c2\<lparr>cl_stopped := True\<rparr>)"

text \<open>\<open>uv_timer_again\<close> restarts a repeating timer; the time of the loop is in milliseconds.\<close>

definition timer_again :: "nat \<Rightarrow> timer \<Rightarrow> timer" where
  "timer_again now t = (if t_repeat t = 0 then t else t\<lparr>t_due := now div 1000 + t_repeat t\<rparr>)"

definition report_server_activity :: "client \<Rightarrow> client" where
  "report_server_activity c =
     (if cl_con c = None \<or> is_closed c then c
      else c\<lparr>cl_timer_lost := map_option (timer_again (cl_now c)) (cl_timer_lost c)\<rparr>)"

section \<open>Connections\<close>

definition try_to_connect :: "env \<Rightarrow> (client, unit) op" where
  "try_to_connect env c =
     (if is_closed c \<or> cl_state c \<noteq> OFFLINE then (Inr (), c)
      else
        let c1 = client_set_state CONNECTING (c\<lparr>cl_con := None, cl_timer_reconnect := None\<rparr>)
        in bind_op (each_op (\<lambda>i. on_connection i (connect (e_connect env i)))
             [0 ..< length (cl_connections c1)]) (\<lambda>_. return_op ()) c1)"

definition on_connection_established :: "env \<Rightarrow> nat \<Rightarrow> (client, unit) op" where
  "on_connection_established env i c =
     (if cl_con c \<noteq> None then disconnect_con ERR_ALREADY_CONNECTED i c
      else
        let cid = cl_correlation c + 1
        in send_on env i (create_login_msg cid (p_user (cl_params c)) (p_password (cl_params c)))
             (c\<lparr>cl_correlation := cid\<rparr>))"

definition are_all_connections_closed :: "conn list \<Rightarrow> bool" where
  "are_all_connections_closed cs = list_all (\<lambda>k. c_state k = C_CLOSED) cs"

definition schedule_reconnect :: "u32 \<Rightarrow> client \<Rightarrow> client" where
  "schedule_reconnect delay c =
     (if is_closed c then c
      else c\<lparr>cl_timer_reconnect := Some \<lparr>t_due = cl_now c div 1000 + unat delay, t_repeat = 0\<rparr>\<rparr>)"

definition connection_failed :: "env \<Rightarrow> client \<Rightarrow> client" where
  "connection_failed env c =
     (case e_failed env c of
        (None, c1) \<Rightarrow> client_abort Ex_closed_by_manager c1
      | (Some wait, c1) \<Rightarrow>
          if wait < 0 then client_abort Ex_closed_by_manager c1
          else schedule_reconnect (word_of_int wait) c1)"

definition current_lost :: "env \<Rightarrow> nat \<Rightarrow> (client, unit) op" where
  "current_lost env i c =
     (let c1 = (client_set_state OFFLINE c)\<lparr>cl_con := None, cl_data_cid := 0, cl_sessions_cid := 0\<rparr>
      in bind_op cancel_requests (\<lambda>_ c2.
           case e_lost env i (c2\<lparr>cl_timer_lost := None\<rparr>) of
             (Some True, c3) \<Rightarrow> try_to_connect env c3
           | (_, c3) \<Rightarrow> (Inr (), client_abort Ex_closed_by_manager c3)) c1)"

definition on_connection_closed :: "env \<Rightarrow> nat \<Rightarrow> (client, unit) op" where
  "on_connection_closed env i c =
     (if is_closed c then (Inr (), c)
      else if cl_con c = None \<and> are_all_connections_closed (cl_connections c) then
        (Inr (), connection_failed env c)
      else if cl_con c \<noteq> Some i then (Inr (), c)
      else current_lost env i c)"

definition on_connection_lost :: "(client, unit) op" where
  "on_connection_lost c =
     (case cl_con c of
        None \<Rightarrow> (Inr (), c\<lparr>cl_timer_lost := None\<rparr>)
      | Some i \<Rightarrow>
          bind_op (disconnect_con ERR_CON_LOST i) (\<lambda>_. modify_op (\<lambda>c. c\<lparr>cl_timer_lost := None\<rparr>)) c)"

definition on_msg_delivered :: "nat \<Rightarrow> client \<Rightarrow> client" where
  "on_msg_delivered i c = (if cl_con c \<noteq> Some i then c else report_server_activity c)"

end
