(* ===== verification/Nplex_Client_Messages.thy ===== *)
theory Nplex_Client_Messages
  imports Nplex_Client
begin

text \<open>
  The client's treatment of commands and of the messages of the server, \<open>src/client_impl.cpp\<close>, and the
  calls of its interface.  An exception ends the call it is thrown in and, where nothing catches it,
  the event loop.
\<close>

section \<open>Commands\<close>

definition push_command :: "command \<Rightarrow> (client, unit) op" where
  "push_command cmd c =
     (if is_closed c then (Inr (), drop_command cmd c)
      else if length (cl_commands c) \<ge> unat (p_max_active_txs (cl_params c) + 3) then
        (Inl Ex_queue_overflow, drop_command cmd c)
      else
        let c1 = c\<lparr>cl_commands := cl_commands c @ [cmd]\<rparr>
        in (Inr (), if length (cl_commands c1) = 1 then c1\<lparr>cl_async := True\<rparr> else c1))"

text \<open>
  The common end of the three requests: a new correlation id, the message, and the request is queued.
  When \<open>send\<close> throws, the request is destroyed.
\<close>

definition issue :: "env \<Rightarrow> request \<Rightarrow> (64 word \<Rightarrow> message) \<Rightarrow> (client, unit) op" where
  "issue env r msg c =
     (let cid = cl_correlation c; c1 = c\<lparr>cl_correlation := cid + 1\<rparr>
      in case client_send env (msg cid) c1 of
           (Inl e, c2) \<Rightarrow> (Inl e, drop_request r c2)
         | (Inr _, c2) \<Rightarrow> (Inr (), c2\<lparr>cl_requests := cl_requests c2 @ [r\<lparr>rq_cid := cid\<rparr>]\<rparr>))"

definition process_submit_cmd :: "env \<Rightarrow> request \<Rightarrow> nat \<Rightarrow> bool \<Rightarrow> (client, unit) op" where
  "process_submit_cmd env r i force c =
     (if cl_con c = None then on_tx i (set_submit_error Ex_not_connected) c
      else issue env r (\<lambda>cid. create_submit_msg cid (m_rev (cl_store c)) force (cl_heap c ! i)) c)"

definition process_ping_cmd :: "env \<Rightarrow> request \<Rightarrow> string \<Rightarrow> nat \<Rightarrow> (client, unit) op" where
  "process_ping_cmd env r payload p c =
     (if cl_con c = None then satisfy_future p (Inl Ex_not_connected) c
      else issue env r (\<lambda>cid. create_ping_msg cid payload) c)"

definition process_sessions_cmd :: "env \<Rightarrow> request \<Rightarrow> bool \<Rightarrow> nat \<Rightarrow> (client, unit) op" where
  "process_sessions_cmd env r stream p c =
     (if cl_con c = None then satisfy_future p (Inl Ex_not_connected) c
      else issue env r (\<lambda>cid. create_sessions_msg cid stream) c)"

definition process_close_cmd :: "client \<Rightarrow> client" where
  "process_close_cmd c = client_abort Ex_closed_by_user c"

definition process_command :: "env \<Rightarrow> command \<Rightarrow> (client, unit) op" where
  "process_command env cmd c =
     (case cmd of
        Close_cmd \<Rightarrow> (Inr (), process_close_cmd c)
      | Request_cmd r \<Rightarrow>
          (case rq_kind r of
             Submit_req i force \<Rightarrow> process_submit_cmd env r i force c
           | Ping_req payload p \<Rightarrow> process_ping_cmd env r payload p c
           | Sessions_req stream p \<Rightarrow> process_sessions_cmd env r stream p c))"

text \<open>
  The loop of \<open>process_commands\<close>.  Each turn takes a command off the queue and none puts one there, so
  as many turns as there are commands are enough (\<open>process_commands_drains\<close>).
\<close>

fun command_loop :: "nat \<Rightarrow> env \<Rightarrow> (client, unit) op" where
  "command_loop 0 env c = (Inr (), c)"
| "command_loop (Suc n) env c =
     (case cl_commands c of
        [] \<Rightarrow> (Inr (), c)
      | cmd # cmds \<Rightarrow>
          bind_op (process_command env cmd) (\<lambda>_. command_loop n env) (c\<lparr>cl_commands := cmds\<rparr>))"

definition process_commands :: "env \<Rightarrow> (client, unit) op" where
  "process_commands env c =
     (if is_closed c then (Inr (), c) else command_loop (length (cl_commands c)) env c)"

section \<open>Login\<close>

definition login_user :: "client_params \<Rightarrow> login_response \<Rightarrow> acl list \<Rightarrow> user" where
  "login_user p resp acls =
     \<lparr>user_name = p_user p, user_password = [], permissions = acls,
      can_force = lres_can_force resp, can_monitor = lres_can_monitor resp\<rparr>"

text \<open>The loop over the permissions dereferences rule and pattern.\<close>

definition login_acl :: "acl_msg option \<Rightarrow> exn + acl" where
  "login_acl a =
     (case a of
        None \<Rightarrow> Inl Ex_crash
      | Some m \<Rightarrow>
          (case aclm_pattern m of
             None \<Rightarrow> Inl Ex_crash
           | Some s \<Rightarrow> Inr \<lparr>acl_mode = aclm_mode m, acl_pattern = s\<rparr>))"

fun login_acls :: "acl_msg option list \<Rightarrow> exn + acl list" where
  "login_acls [] = Inr []"
| "login_acls (a # as) =
     (case login_acl a of
        Inl e \<Rightarrow> Inl e
      | Inr r \<Rightarrow> (case login_acls as of Inl e \<Rightarrow> Inl e | Inr rs \<Rightarrow> Inr (r # rs)))"

text \<open>The end of a login: a state, a new correlation id for the data, and the request for it.\<close>

definition request_data :: "env \<Rightarrow> client_state \<Rightarrow> (64 word \<Rightarrow> message) \<Rightarrow> (client, unit) op" where
  "request_data env st msg c =
     (let c1 = client_set_state st c; cid = cl_correlation c1
      in client_send env (msg cid) (c1\<lparr>cl_data_cid := cid, cl_correlation := cid + 1\<rparr>))"

definition start_sync :: "env \<Rightarrow> login_response \<Rightarrow> (client, unit) op" where
  "start_sync env resp c =
     (if cl_initialized c then
        request_data env SYNCING (\<lambda>cid. create_updates_msg cid (m_rev (cl_store c))) c
      else if cl_rev0 c = 0 then request_data env SYNCING (\<lambda>cid. create_updates_msg cid 0) c
      else
        let srev = (if cl_rev0 c \<le> lres_rev0 resp then lres_rev0 resp
                    else if cl_rev0 c \<le> lres_crev resp then cl_rev0 c else 0)
        in request_data env LOADING_SNAPSHOT (\<lambda>cid. create_snapshot_msg cid srev) c)"

definition start_keepalive :: "login_response \<Rightarrow> client \<Rightarrow> client" where
  "start_keepalive resp c =
     (if lres_keepalive resp = 0 then c
      else
        let t = unat (p_timeout (cl_params c) (lres_keepalive resp))
        in c\<lparr>cl_timer_lost := Some \<lparr>t_due = cl_now c div 1000 + t, t_repeat = t\<rparr>\<rparr>)"

text \<open>The other attempts are closed; all of them, when a callback has set \<open>m_con\<close> to null.\<close>

definition close_others :: "client \<Rightarrow> client" where
  "close_others c =
     c\<lparr>cl_connections :=
         map (\<lambda>(j, k). if Some j = cl_con c then k else disconnect ERR_ALREADY_CONNECTED k)
           (enumerate 0 (cl_connections c))\<rparr>"

definition logged_in :: "env \<Rightarrow> nat \<Rightarrow> login_response \<Rightarrow> user \<Rightarrow> (client, unit) op" where
  "logged_in env i resp u c =
     (let c1 = client_set_state AUTHENTICATED (c\<lparr>cl_con := Some i, cl_user := Some u\<rparr>);
          c2 = (case e_established env i c1 of
                  (Some _, c') \<Rightarrow> c'
                | (None, c') \<Rightarrow> client_abort Ex_manager_threw c')
      in start_sync env resp (close_others (start_keepalive resp c2)))"

definition process_login_resp :: "env \<Rightarrow> nat \<Rightarrow> login_response \<Rightarrow> (client, unit) op" where
  "process_login_resp env i resp c =
     (if cl_con c \<noteq> None then disconnect_con ERR_ALREADY_CONNECTED i c
      else if lres_code resp \<noteq> LC_AUTHORIZED then disconnect_con ERR_AUTH i c
      else
        case login_acls (vector (lres_permissions resp)) of
          Inl e \<Rightarrow> (Inl e, c)
        | Inr [] \<Rightarrow> disconnect_con ERR_AUTH i c
        | Inr acls \<Rightarrow> logged_in env i resp (login_user (cl_params c) resp acls) c)"

section \<open>Loading and synchronization\<close>

text \<open>An operation of the store; nothing undoes what it wrote before it throws.\<close>

definition on_store :: "(store, 'a) op \<Rightarrow> (client, 'a) op" where
  "on_store f c = (case f (cl_store c) of (r, s) \<Rightarrow> (r, c\<lparr>cl_store := s\<rparr>))"

definition initial_data :: "env \<Rightarrow> (client, bool) op" where
  "initial_data env c =
     (case e_reactor env of
        None \<Rightarrow> (Inr True, c)
      | Some r \<Rightarrow>
          (case on_initial_data r c of
             (Some _, c1) \<Rightarrow> (Inr True, c1)
           | (None, c1) \<Rightarrow>
               bind_op (disconnect_current ERR_CLOSED_BY_LOCAL)
                 (\<lambda>_ c2. (Inr False, client_abort Ex_initial_data c2)) c1))"

definition process_snapshot_resp :: "env \<Rightarrow> snapshot_response \<Rightarrow> (client, unit) op" where
  "process_snapshot_resp env resp c =
     (if cl_state c \<noteq> LOADING_SNAPSHOT \<or> sres_cid resp \<noteq> cl_data_cid c then
        disconnect_current ERR_MSG_UNEXPECTED c
      else if \<not> sres_accepted resp then disconnect_current ERR_LOAD c
      else
        bind_op (if sres_snapshot resp = None then return_op () else on_store (load (sres_snapshot resp)))
          (\<lambda>_. bind_op (initial_data env) (\<lambda>go.
             if \<not> go then return_op ()
             else (\<lambda>c1.
               let c2 = client_set_state INITIALIZED (c1\<lparr>cl_initialized := True\<rparr>)
               in request_data env SYNCING (\<lambda>cid. create_updates_msg cid (m_rev (cl_store c2))) c2))) c)"

definition process_updates_resp :: "updates_response \<Rightarrow> (client, unit) op" where
  "process_updates_resp resp c =
     (if cl_state c \<noteq> SYNCING \<or> ures_cid resp \<noteq> cl_data_cid c then
        disconnect_current ERR_MSG_UNEXPECTED c
      else if \<not> ures_accepted resp then disconnect_current ERR_LOAD c
      else
        let c1 = (if cl_rev0 c = 0 then
                    client_set_state INITIALIZED
                      (c\<lparr>cl_store := (cl_store c)\<lparr>m_rev := ures_crev resp\<rparr>, cl_initialized := True\<rparr>)
                  else c)
        in (Inr (), if m_rev (cl_store c1) = ures_crev resp then client_set_state SYNCED c1 else c1))"

section \<open>Responses\<close>

text \<open>The requests older than the response are destroyed, whatever their kind.\<close>

definition discard_older :: "64 word \<Rightarrow> client \<Rightarrow> client" where
  "discard_older cid c =
     (let old = takeWhile (\<lambda>r. rq_cid r < cid) (cl_requests c)
      in fold drop_request old (c\<lparr>cl_requests := drop (length old) (cl_requests c)\<rparr>))"

definition process_submit_resp :: "submit_response \<Rightarrow> (client, unit) op" where
  "process_submit_resp resp c =
     (let c1 = discard_older (sbres_cid resp) c
      in case cl_requests c1 of
           [] \<Rightarrow> (Inr (), c1)
         | r # rs \<Rightarrow>
             if rq_cid r \<noteq> sbres_cid resp then (Inr (), c1)
             else
               case rq_kind r of
                 Submit_req i force \<Rightarrow>
                   bind_op (on_tx i (set_submit_code (sbres_code resp)))
                     (\<lambda>_. modify_op (\<lambda>c2.
                        if sbres_code resp \<noteq> SC_ACCEPTED then c2
                        else c2\<lparr>cl_accepted := cl_accepted c2 @ [r\<lparr>rq_erev := sbres_erev resp\<rparr>]\<rparr>))
                     (pop_request c1)
               | _ \<Rightarrow> (Inl Ex_crash, pop_request c1))"

definition process_ping_resp :: "ping_response \<Rightarrow> (client, unit) op" where
  "process_ping_resp resp c =
     (case cl_requests c of
        [] \<Rightarrow> (Inr (), c)
      | r # rs \<Rightarrow>
          if rq_cid r \<noteq> pres_cid resp then (Inr (), c)
          else
            case rq_kind r of
              Ping_req payload p \<Rightarrow> satisfy_future p (Inr (Latency (cl_now c - rq_t0 r))) (pop_request c)
            | _ \<Rightarrow> (Inl Ex_crash, pop_request c))"

definition initial_sessions :: "env \<Rightarrow> session_t list \<Rightarrow> client \<Rightarrow> client" where
  "initial_sessions env ss c =
     (case e_reactor env of None \<Rightarrow> c | Some r \<Rightarrow> on_initial_sessions r ss c)"

definition process_sessions_resp :: "env \<Rightarrow> sessions_response \<Rightarrow> (client, unit) op" where
  "process_sessions_resp env resp c =
     (case cl_requests c of
        [] \<Rightarrow> (Inr (), c)
      | r # rs \<Rightarrow>
          if rq_cid r \<noteq> ssres_cid resp then (Inr (), c)
          else
            let c1 = pop_request c; found = vector (ssres_sessions resp)
            in case rq_kind r of
                 Sessions_req stream p \<Rightarrow>
                   if None \<in> set found then
                     bind_op (disconnect_current ERR_MSG_ERROR) (\<lambda>_. modify_op (drop_request r)) c1
                   else
                     let ss = map (to_session_t \<circ> the) found;
                         c2 = c1\<lparr>cl_sessions_cid := (if stream then rq_cid r else 0)\<rparr>
                     in bind_op (satisfy_future p (Inr (Sessions ss)))
                          (\<lambda>_. modify_op (initial_sessions env ss)) c2
               | _ \<Rightarrow>
                   bind_op (disconnect_current ERR_MSG_UNEXPECTED) (\<lambda>_. modify_op (drop_request r)) c1)"

section \<open>Updates\<close>

definition mentions :: "nat \<Rightarrow> request \<Rightarrow> bool" where
  "mentions i r = (case rq_kind r of Submit_req j force \<Rightarrow> j = i | _ \<Rightarrow> False)"

definition command_mentions :: "nat \<Rightarrow> command \<Rightarrow> bool" where
  "command_mentions i cmd = (case cmd of Close_cmd \<Rightarrow> False | Request_cmd r \<Rightarrow> mentions i r)"

text \<open>\<open>use_count() == 1\<close>: nothing but \<open>m_transactions\<close> has a pointer to the transaction.\<close>

definition unused :: "client \<Rightarrow> nat \<Rightarrow> bool" where
  "unused c i \<longleftrightarrow>
     i \<notin> set (cl_held c) \<and> \<not> list_ex (command_mentions i) (cl_commands c) \<and>
     \<not> list_ex (mentions i) (cl_requests c) \<and> \<not> list_ex (mentions i) (cl_accepted c)"

definition discardable :: "client \<Rightarrow> nat \<Rightarrow> bool" where
  "discardable c i \<longleftrightarrow> unused c i \<or> closed_state (tx_state (cl_heap c ! i))"

definition purge_unused_txs :: "client \<Rightarrow> client" where
  "purge_unused_txs c =
     c\<lparr>cl_transactions := filter (\<lambda>i. \<not> discardable c i) (cl_transactions c)\<rparr>"

text \<open>
  The loop of \<open>process_update\<close> over \<open>m_transactions\<close>: the ones kept, the number of the unused ones among
  them, and the client with the open ones told of the changes.
\<close>

fun notify_txs :: "change list \<Rightarrow> nat list \<Rightarrow> client \<Rightarrow> nat list \<times> nat \<times> client" where
  "notify_txs cs [] c = ([], 0, c)"
| "notify_txs cs (i # is) c =
     (if discardable c i then
        (case notify_txs cs is c of (kept, n, c') \<Rightarrow> (i # kept, Suc n, c'))
      else
        case tx_state (cl_heap c ! i) of
          OPEN \<Rightarrow>
            (case notify_txs cs is (c\<lparr>cl_heap := (cl_heap c)[i := tx_update cs (cl_heap c ! i)]\<rparr>) of
               (kept, n, c') \<Rightarrow> (i # kept, n, c'))
        | SUBMITTED \<Rightarrow> (case notify_txs cs is c of (kept, n, c') \<Rightarrow> (i # kept, n, c'))
        | ACCEPTED \<Rightarrow> (case notify_txs cs is c of (kept, n, c') \<Rightarrow> (i # kept, n, c'))
        | _ \<Rightarrow> notify_txs cs is c)"

definition update_transactions :: "change list \<Rightarrow> client \<Rightarrow> client" where
  "update_transactions cs c =
     (case notify_txs cs (cl_transactions c) c of
        (kept, n, c1) \<Rightarrow>
          let c2 = c1\<lparr>cl_transactions := kept\<rparr>
          in if n > 0 then purge_unused_txs c2 else c2)"

definition discard_accepted :: "rev_t \<Rightarrow> (client, unit) op" where
  "discard_accepted rv c =
     bind_op (each_op (\<lambda>r. bind_op (modify_op pop_accepted) (\<lambda>_.
         case rq_kind r of
           Submit_req i force \<Rightarrow> on_tx i (set_submit_error Ex_unexpected_update)
         | _ \<Rightarrow> raise_op Ex_crash)) (takeWhile (\<lambda>r. rq_erev r < rv) (cl_accepted c)))
       (\<lambda>_. return_op ()) c"

definition confirm_accepted :: "rev_t \<Rightarrow> (client, unit) op" where
  "confirm_accepted rv c =
     (case cl_accepted c of
        [] \<Rightarrow> (Inr (), c)
      | r # rs \<Rightarrow>
          if rq_erev r \<noteq> rv then (Inr (), c)
          else
            case rq_kind r of
              Submit_req i force \<Rightarrow> on_tx i confirm_commit (pop_accepted c)
            | _ \<Rightarrow> (Inl Ex_crash, pop_accepted c))"

definition react_to_data :: "env \<Rightarrow> addr \<Rightarrow> change list \<Rightarrow> client \<Rightarrow> client" where
  "react_to_data env a cs c =
     (case e_reactor env of None \<Rightarrow> c | Some r \<Rightarrow> on_event_data r a cs c)"

definition process_update :: "env \<Rightarrow> update_msg option \<Rightarrow> (client, unit) op" where
  "process_update env upd c =
     bind_op (on_store (update upd)) (\<lambda>(cs, meta).
       case meta of
         None \<Rightarrow> raise_op Ex_crash
       | Some a \<Rightarrow>
           (\<lambda>c1.
             let rv = meta_rev (heap (cl_store c1) ! a)
             in bind_op (discard_accepted rv) (\<lambda>_.
                bind_op (modify_op (update_transactions cs)) (\<lambda>_.
                bind_op (confirm_accepted rv) (\<lambda>_. modify_op (react_to_data env a cs)))) c1)) c"

section \<open>Pushes\<close>

definition push_update :: "env \<Rightarrow> rev_t \<Rightarrow> update_msg option \<Rightarrow> (client, unit) op" where
  "push_update env crev upd =
     bind_op (process_update env upd) (\<lambda>_. modify_op (\<lambda>c.
       if cl_state c = SYNCING \<and> upd_rev (the upd) = crev then client_set_state SYNCED c else c))"

definition process_updates_push :: "env \<Rightarrow> updates_push \<Rightarrow> (client, unit) op" where
  "process_updates_push env resp c =
     (if upush_cid resp \<noteq> cl_data_cid c then disconnect_current ERR_MSG_UNEXPECTED c
      else
        bind_op (each_op (push_update env (upush_crev resp)) (vector (upush_updates resp)))
          (\<lambda>_. return_op ()) c)"

definition process_sessions_push :: "env \<Rightarrow> sessions_push \<Rightarrow> (client, unit) op" where
  "process_sessions_push env resp c =
     (if spush_cid resp = 0 \<or> spush_cid resp \<noteq> cl_sessions_cid c then
        disconnect_current ERR_MSG_UNEXPECTED c
      else
        case spush_session resp of
          None \<Rightarrow> disconnect_current ERR_MSG_ERROR c
        | Some m \<Rightarrow>
            (Inr (), case e_reactor env of None \<Rightarrow> c | Some r \<Rightarrow> on_event_session r (to_session_t m) c))"

definition process_keepalive_push :: "keepalive_push \<Rightarrow> (client, unit) op" where
  "process_keepalive_push resp = return_op ()"

definition on_msg_received :: "env \<Rightarrow> nat \<Rightarrow> message \<Rightarrow> (client, unit) op" where
  "on_msg_received env i m c =
     (case msg_content m of
        None \<Rightarrow> disconnect_con ERR_MSG_ERROR i c
      | Some (LOGIN_RESPONSE resp) \<Rightarrow> process_login_resp env i resp c
      | Some content \<Rightarrow>
          if cl_con c \<noteq> Some i then disconnect_con ERR_ALREADY_CONNECTED i c
          else
            let c1 = report_server_activity c
            in case content of
                 SUBMIT_RESPONSE resp \<Rightarrow> process_submit_resp resp c1
               | SNAPSHOT_RESPONSE resp \<Rightarrow> process_snapshot_resp env resp c1
               | UPDATES_RESPONSE resp \<Rightarrow> process_updates_resp resp c1
               | UPDATES_PUSH resp \<Rightarrow> process_updates_push env resp c1
               | KEEPALIVE_PUSH resp \<Rightarrow> process_keepalive_push resp c1
               | PING_RESPONSE resp \<Rightarrow> process_ping_resp resp c1
               | SESSIONS_RESPONSE resp \<Rightarrow> process_sessions_resp env resp c1
               | SESSIONS_PUSH resp \<Rightarrow> process_sessions_push env resp c1
               | _ \<Rightarrow> disconnect_con ERR_MSG_ERROR i c1)"

end
