(* ===== verification/Nplex_Client_Loop.thy ===== *)
theory Nplex_Client_Loop
  imports Nplex_Client_Messages
begin

text \<open>
  The interface of the client and its event loop, \<open>src/client_impl.cpp\<close>: construction, the calls a
  program makes, the callbacks libuv makes, and what \<open>run\<close> does before and after the loop.
\<close>

section \<open>Construction\<close>

fun create_connections :: "nat list \<Rightarrow> conn_params \<Rightarrow> exn + conn list" where
  "create_connections [] p = Inr []"
| "create_connections (port # ports) p =
     (case connection_create port p of
        Inl e \<Rightarrow> Inl e
      | Inr k \<Rightarrow> (case create_connections ports p of Inl e \<Rightarrow> Inl e | Inr ks \<Rightarrow> Inr (k # ks)))"

text \<open>The constructor; \<open>uv_ok\<close> is what the calls that initialize the loop and its handles return.\<close>

definition new_client :: "bool \<Rightarrow> nat \<Rightarrow> client_params \<Rightarrow> exn + client" where
  "new_client uv_ok now p =
     (if p_servers p = [] then Inl Ex_no_servers
      else if \<not> uv_ok then Inl Ex_uv_error
      else
        let p1 = (if p_max_active_txs p = 0 then p\<lparr>p_max_active_txs := 0xFFFFFFFF\<rparr> else p)
        in case create_connections (p_servers p) (p_connection p) of
             Inl e \<Rightarrow> Inl e
           | Inr ks \<Rightarrow> Inr
               \<lparr>cl_user = None, cl_store = empty_store, cl_transactions = [], cl_params = p1,
                cl_rev0 = 0xFFFFFFFFFFFFFFFF, cl_connections = ks, cl_con = None, cl_correlation = 0,
                cl_data_cid = 0, cl_sessions_cid = 0, cl_initialized = False, cl_running = False,
                cl_state = OFFLINE, cl_error = None, cl_commands = [], cl_requests = [],
                cl_accepted = [], cl_timer_lost = None, cl_timer_reconnect = None, cl_async = False,
                cl_stopped = False, cl_now = now, cl_heap = [], cl_held = [], cl_futures = []\<rparr>)"

definition set_initial_rev :: "rev_t \<Rightarrow> (client, unit) op" where
  "set_initial_rev r c =
     (if cl_running c then (Inl Ex_running, c) else (Inr (), c\<lparr>cl_rev0 := r\<rparr>))"

text \<open>Manager and reactor are part of the environment; null gives the manager that does nothing.\<close>

definition default_manager :: "env \<Rightarrow> env" where
  "default_manager env =
     env\<lparr>e_established := (\<lambda>i c. (Some (), c)), e_lost := (\<lambda>i c. (Some False, c)),
         e_failed := (\<lambda>c. (Some (- 1), c))\<rparr>"

definition set_manager :: "env option \<Rightarrow> client \<Rightarrow> env \<Rightarrow> exn + env" where
  "set_manager mngr c env =
     (if cl_running c then Inl Ex_running
      else
        case mngr of
          None \<Rightarrow> Inr (default_manager env)
        | Some m \<Rightarrow>
            Inr (env\<lparr>e_established := e_established m, e_lost := e_lost m, e_failed := e_failed m\<rparr>))"

definition set_reactor :: "reactor option \<Rightarrow> client \<Rightarrow> env \<Rightarrow> exn + env" where
  "set_reactor rct c env =
     (if cl_running c then Inl Ex_running else Inr (env\<lparr>e_reactor := rct\<rparr>))"

section \<open>Waiting\<close>

text \<open>
  \<open>m_cv.wait_for\<close> evaluates its predicate when it starts, each time it is woken and when the time is
  over; the first argument lists the client at these moments.  A predicate answers, throws or goes on.
\<close>

fun wait_for :: "(client \<Rightarrow> (exn + bool)) \<Rightarrow> client list \<Rightarrow> exn + bool" where
  "wait_for P [] = Inr False"
| "wait_for P (c # cs) =
     (case P c of Inl e \<Rightarrow> Inl e | Inr True \<Rightarrow> Inr True | Inr False \<Rightarrow> wait_for P cs)"

definition wait_for_populated :: "client \<Rightarrow> client list \<Rightarrow> exn + bool" where
  "wait_for_populated c cs =
     (if is_closed c then Inl Ex_client_closed
      else wait_for (\<lambda>d. if cl_state d = CLOSED then Inl Ex_client_closed else Inr (cl_initialized d)) cs)"

definition wait_for_synced :: "client \<Rightarrow> client list \<Rightarrow> exn + bool" where
  "wait_for_synced c cs =
     (if is_closed c then Inl Ex_client_closed
      else wait_for (\<lambda>d. if cl_state d = CLOSED then Inl Ex_client_closed
                         else Inr (cl_state d = SYNCED)) cs)"

definition wait_for_closed :: "client \<Rightarrow> client list \<Rightarrow> exn + bool" where
  "wait_for_closed c cs =
     (if is_closed c then Inr True else wait_for (\<lambda>d. Inr (cl_state d = CLOSED)) cs)"

section \<open>Calls of the program\<close>

definition create_tx :: "isolation \<Rightarrow> bool \<Rightarrow> (client, nat) op" where
  "create_tx level ro c =
     (if is_closed c then (Inl Ex_client_closed, c)
      else
        let c1 = purge_unused_txs c
        in if length (cl_transactions c1) \<ge> unat (p_max_active_txs (cl_params c1)) then
             (Inl Ex_too_many_txs, c1)
           else
             case new_tx_client (Some (Some (cl_store c1), cl_user c1)) level ro of
               Inl e \<Rightarrow> (Inl e, c1)
             | Inr t \<Rightarrow>
                 let i = length (cl_heap c1)
                 in (Inr i, c1\<lparr>cl_heap := cl_heap c1 @ [t], cl_held := i # cl_held c1,
                              cl_transactions := cl_transactions c1 @ [i]\<rparr>))"

definition new_request :: "client \<Rightarrow> req_kind \<Rightarrow> request" where
  "new_request c k = \<lparr>rq_cid = 0, rq_t0 = cl_now c, rq_erev = 0, rq_kind = k\<rparr>"

text \<open>In the thread of the loop a request is processed at once, elsewhere it is queued.\<close>

definition ping :: "env \<Rightarrow> bool \<Rightarrow> string \<Rightarrow> (client, nat) op" where
  "ping env in_loop payload c =
     (if is_closed c then (Inl Ex_client_closed, c)
      else
        let p = length (cl_futures c); r = new_request c (Ping_req payload p)
        in bind_op (if in_loop then process_ping_cmd env r payload p else push_command (Request_cmd r))
             (\<lambda>_. return_op p) (c\<lparr>cl_futures := cl_futures c @ [None]\<rparr>))"

definition fetch_sessions :: "env \<Rightarrow> bool \<Rightarrow> bool \<Rightarrow> (client, nat) op" where
  "fetch_sessions env in_loop stream c =
     (if cl_state c \<in> {OFFLINE, CONNECTING, CLOSED} then (Inl Ex_not_connected, c)
      else if cl_user c = None \<or> \<not> can_monitor (the (cl_user c)) then (Inl Ex_no_monitor, c)
      else
        let p = length (cl_futures c); r = new_request c (Sessions_req stream p)
        in bind_op (if in_loop then process_sessions_cmd env r stream p else push_command (Request_cmd r))
             (\<lambda>_. return_op p) (c\<lparr>cl_futures := cl_futures c @ [None]\<rparr>))"

definition close :: "(client, unit) op" where
  "close = push_command Close_cmd"

text \<open>
  \<open>submit\<close> of a transaction the program holds: \<open>push_command\<close> is called where the transaction reaches
  it, and the transaction is told what that threw.
\<close>

definition submit_tx :: "nat \<Rightarrow> bool \<Rightarrow> (client, nat) op" where
  "submit_tx i force c =
     (let cmd = Request_cmd (new_request c (Submit_req i force));
          (pushed, c1) = push_command cmd c;
          thrown = (case pushed of Inl e \<Rightarrow> Some e | Inr _ \<Rightarrow> None);
          t = cl_heap c ! i;
          (r, t') = submit (Some thrown) force t;
          c2 = (if tx_state t = OPEN \<and> tx_state t' = SUBMITTED then c1 else c)
      in (r, c2\<lparr>cl_heap := (cl_heap c2)[i := t']\<rparr>))"

text \<open>Any other operation of a transaction, and the end of the last pointer to it.\<close>

definition use_tx :: "nat \<Rightarrow> (store \<Rightarrow> (tx, 'a) op) \<Rightarrow> (client, 'a) op" where
  "use_tx i f c = on_tx i (f (cl_store c)) c"

definition release_tx :: "nat \<Rightarrow> client \<Rightarrow> client" where
  "release_tx i c = c\<lparr>cl_held := removeAll i (cl_held c)\<rparr>"

section \<open>The event loop\<close>

text \<open>What libuv can report.\<close>

datatype event =
    Ev_connected nat int
  | Ev_written nat int
  | Ev_read nat int "bytes option"
  | Ev_closed nat
  | Ev_timer_lost
  | Ev_timer_reconnect
  | Ev_async
  | Ev_signal

text \<open>
  The state of a callback that may have thrown: after an exception nothing more of it runs.
\<close>

type_synonym outcome = "(exn + unit) \<times> client"

definition unless_thrown :: "(client, unit) op \<Rightarrow> outcome \<Rightarrow> outcome" where
  "unless_thrown f w = (case w of (Inl e, c) \<Rightarrow> (Inl e, c) | (Inr _, c) \<Rightarrow> f c)"

definition update_con :: "nat \<Rightarrow> (conn \<Rightarrow> conn) \<Rightarrow> client \<Rightarrow> client" where
  "update_con i f c = c\<lparr>cl_connections := (cl_connections c)[i := f (cl_connections c ! i)]\<rparr>"

definition con_connected :: "env \<Rightarrow> nat \<Rightarrow> int \<Rightarrow> (client, unit) op" where
  "con_connected env i status c =
     (let (told, k) = cb_tcp_connect status (cl_connections c ! i);
          c1 = update_con i (\<lambda>_. k) c
      in if told then on_connection_established env i c1 else (Inr (), c1))"

definition con_written :: "nat \<Rightarrow> int \<Rightarrow> client \<Rightarrow> client" where
  "con_written i status c =
     (let (told, k) = cb_tcp_write status (cl_connections c ! i);
          c1 = update_con i (\<lambda>_. k) c
      in if told then on_msg_delivered i c1 else c1)"

definition con_read :: "decoder \<Rightarrow> env \<Rightarrow> nat \<Rightarrow> int \<Rightarrow> bytes option \<Rightarrow> (client, unit) op" where
  "con_read decode env i nread base c =
     cb_tcp_read decode (\<lambda>m. unless_thrown (on_msg_received env i m))
       (\<lambda>f. unless_thrown (modify_op (update_con i f))) (\<lambda>w. cl_connections (snd w) ! i)
       nread base (Inr (), c)"

definition con_closed :: "env \<Rightarrow> nat \<Rightarrow> (client, unit) op" where
  "con_closed env i c = on_connection_closed env i (update_con i cb_tcp_close c)"

text \<open>When an event can occur: handles open or closing, writes in flight, timers due.\<close>

definition due :: "nat \<Rightarrow> timer option \<Rightarrow> bool" where
  "due now t = (case t of None \<Rightarrow> False | Some x \<Rightarrow> t_due x \<le> now div 1000)"

definition enabled :: "event \<Rightarrow> client \<Rightarrow> bool" where
  "enabled ev c =
     (case ev of
        Ev_connected i status \<Rightarrow>
          i < length (cl_connections c) \<and> c_state (cl_connections c ! i) = C_CONNECTING \<and>
          (c_closing (cl_connections c ! i) \<longrightarrow> status < 0)
      | Ev_written i status \<Rightarrow>
          i < length (cl_connections c) \<and> c_pending (cl_connections c ! i) \<noteq> []
      | Ev_read i nread base \<Rightarrow>
          i < length (cl_connections c) \<and> c_state (cl_connections c ! i) = C_CONNECTED \<and>
          \<not> c_closing (cl_connections c ! i) \<and>
          (case base of None \<Rightarrow> True | Some b \<Rightarrow> nread \<le> int (length b))
      | Ev_closed i \<Rightarrow>
          i < length (cl_connections c) \<and> c_closing (cl_connections c ! i) \<and>
          c_state (cl_connections c ! i) \<noteq> C_CLOSED \<and> c_pending (cl_connections c ! i) = []
      | Ev_timer_lost \<Rightarrow> due (cl_now c) (cl_timer_lost c)
      | Ev_timer_reconnect \<Rightarrow> due (cl_now c) (cl_timer_reconnect c)
      | Ev_async \<Rightarrow> cl_async c
      | Ev_signal \<Rightarrow> True)"

text \<open>libuv stops a timer that does not repeat before its callback and restarts one that does.\<close>

definition handle_event :: "decoder \<Rightarrow> env \<Rightarrow> event \<Rightarrow> (client, unit) op" where
  "handle_event decode env ev c =
     (case ev of
        Ev_connected i status \<Rightarrow> con_connected env i status c
      | Ev_written i status \<Rightarrow> (Inr (), con_written i status c)
      | Ev_read i nread base \<Rightarrow> con_read decode env i nread base c
      | Ev_closed i \<Rightarrow> con_closed env i c
      | Ev_timer_lost \<Rightarrow>
          on_connection_lost (c\<lparr>cl_timer_lost := map_option (timer_again (cl_now c)) (cl_timer_lost c)\<rparr>)
      | Ev_timer_reconnect \<Rightarrow> try_to_connect env (c\<lparr>cl_timer_reconnect := None\<rparr>)
      | Ev_async \<Rightarrow> process_commands env (c\<lparr>cl_async := False\<rparr>)
      | Ev_signal \<Rightarrow> (Inr (), client_abort Ex_signal c))"

section \<open>Running\<close>

text \<open>Before the loop, with the assertion of \<open>run\<close> compiled out; the result says whether to go on.\<close>

definition run_begin :: "env \<Rightarrow> (client, bool) op" where
  "run_begin env c =
     (if cl_running c \<or> cl_state c \<noteq> OFFLINE then (Inr False, c)
      else
        bind_op (try_to_connect env) (\<lambda>_. return_op True)
          (c\<lparr>cl_running := True, cl_error := None, cl_con := None\<rparr>))"

text \<open>
  After the loop, which returned or threw.  The callbacks that close the remaining handles find the
  client closed.  \<open>cl_con\<close> is a pointer into the connections that are cleared.
\<close>

definition run_end :: "(exn + unit) \<Rightarrow> client \<Rightarrow> client" where
  "run_end result c =
     (let c1 = (case result of Inl e \<Rightarrow> c\<lparr>cl_error := Some e\<rparr> | Inr _ \<Rightarrow> c);
          (r, c2) = bind_op cancel_requests
             (\<lambda>_. modify_op (\<lambda>d. d\<lparr>cl_connections := map (disconnect ERR_CLOSED_BY_LOCAL) (cl_connections d)\<rparr>))
             (client_set_state CLOSED c1);
          c3 = (case r of Inl e \<Rightarrow> c2\<lparr>cl_error := Some e\<rparr> | Inr _ \<Rightarrow> c2)
      in (clear_accepted (clear_requests (clear_commands
           (c3\<lparr>cl_transactions := [], cl_connections := []\<rparr>))))
         \<lparr>cl_con := None, cl_timer_lost := None, cl_timer_reconnect := None, cl_running := False\<rparr>)"

end
