(* ===== verification/Nplex_Client_Futures.thy ===== *)
theory Nplex_Client_Futures
  imports Nplex_Client_Loop Nplex_Transaction_Life "HOL-Library.Multiset"
begin

text \<open>
  The futures of \<open>ping\<close> and \<open>fetch_sessions\<close>: the promise of each one that is not satisfied belongs to
  exactly one command or request in the queues of the client, over every history of the program, so no
  future is forgotten.
\<close>

section \<open>Triples\<close>

text \<open>
  What an operation guarantees when it returns and when it throws; after a null pointer was dereferenced
  nothing is left to guarantee.
\<close>

definition triple :: "('s \<Rightarrow> bool) \<Rightarrow> ('s, 'a) op \<Rightarrow> ('a \<Rightarrow> 's \<Rightarrow> bool) \<Rightarrow> ('s \<Rightarrow> bool) \<Rightarrow> bool" where
  "triple P m Q E \<longleftrightarrow>
     (\<forall>s. P s \<longrightarrow> (case m s of (Inl e, t) \<Rightarrow> e = Ex_crash \<or> E t | (Inr a, t) \<Rightarrow> Q a t))"

lemma tripleI:
  assumes "\<And>s e t. P s \<Longrightarrow> m s = (Inl e, t) \<Longrightarrow> e \<noteq> Ex_crash \<Longrightarrow> E t"
    "\<And>s a t. P s \<Longrightarrow> m s = (Inr a, t) \<Longrightarrow> Q a t"
  shows "triple P m Q E"
  unfolding triple_def using assms by (fastforce split: prod.split sum.split)

lemma triple_Inr: "triple P m Q E \<Longrightarrow> P s \<Longrightarrow> m s = (Inr a, t) \<Longrightarrow> Q a t"
  by (fastforce simp: triple_def)

lemma triple_Inl: "triple P m Q E \<Longrightarrow> P s \<Longrightarrow> m s = (Inl e, t) \<Longrightarrow> e \<noteq> Ex_crash \<Longrightarrow> E t"
  by (fastforce simp: triple_def)

lemma triple_bind:
  assumes "triple P m Q E" "\<And>a. triple (Q a) (f a) R E"
  shows "triple P (bind_op m f) R E"
  unfolding triple_def
proof (intro allI impI)
  fix s assume "P s"
  obtain r t where m: "m s = (r, t)" by fastforce
  show "case bind_op m f s of (Inl e, t) \<Rightarrow> e = Ex_crash \<or> E t | (Inr a, t) \<Rightarrow> R a t"
  proof (cases r)
    case (Inl e)
    then show ?thesis using triple_Inl[OF assms(1) \<open>P s\<close>] m by (auto simp: bind_op_def)
  next
    case (Inr a)
    with triple_Inr[OF assms(1) \<open>P s\<close>] m have "Q a t" by blast
    with assms(2)[of a] Inr m show ?thesis by (simp add: bind_op_def triple_def)
  qed
qed

lemma triple_modify: "(\<And>s. P s \<Longrightarrow> Q () (f s)) \<Longrightarrow> triple P (modify_op f) Q E"
  by (simp add: triple_def)

lemma triple_return: "(\<And>s. P s \<Longrightarrow> Q a s) \<Longrightarrow> triple P (return_op a) Q E"
  by (simp add: triple_def)

lemma triple_crash: "triple P (raise_op Ex_crash) Q E"
  by (simp add: triple_def)

lemma triple_conseq:
  "triple P m Q E \<Longrightarrow> (\<And>s. P' s \<Longrightarrow> P s) \<Longrightarrow> (\<And>a s. Q a s \<Longrightarrow> Q' a s) \<Longrightarrow> (\<And>s. E s \<Longrightarrow> E' s) \<Longrightarrow> triple P' m Q' E'"
  unfolding triple_def by (fastforce split: prod.splits sum.splits)

lemma each_op_bind:
  "each_op f (x # xs) = bind_op (f x) (\<lambda>a. bind_op (each_op f xs) (\<lambda>as. return_op (a # as)))"
  by (rule ext) (simp add: bind_op_def split: prod.split sum.split)

lemma triple_start: "triple P' m Q E \<Longrightarrow> (\<And>s. P s \<Longrightarrow> P' (g s)) \<Longrightarrow> triple P (\<lambda>s. m (g s)) Q E"
  by (simp add: triple_def)

lemma triple_cond:
  "triple P m Q E \<Longrightarrow> triple P n Q E \<Longrightarrow> triple P (\<lambda>s. if b s then m s else n s) Q E"
  by (simp add: triple_def)

lemma triple_depend: "(\<And>u. triple P (m u) Q E) \<Longrightarrow> triple P (\<lambda>s. m (f s) s) Q E"
  by (simp add: triple_def)

lemma triple_total: "(\<And>s. P s \<Longrightarrow> P (snd (m s))) \<Longrightarrow> triple P m (\<lambda>_. P) P"
  by (rule tripleI) (metis snd_conv)+

lemma triple_throw: "(\<And>s. P s \<Longrightarrow> E s) \<Longrightarrow> triple P (\<lambda>s. (Inl e, s)) Q E"
  by (simp add: triple_def)

lemma triple_done: "(\<And>s. P s \<Longrightarrow> Q a (f s)) \<Longrightarrow> triple P (\<lambda>s. (Inr a, f s)) Q E"
  by (simp add: triple_def)

lemma triple_each:
  "(\<And>x. x \<in> set xs \<Longrightarrow> triple P (f x) (\<lambda>_. P) E) \<Longrightarrow> triple P (each_op f xs) (\<lambda>_. P) E"
proof (induction xs)
  case Nil
  show ?case by (simp add: triple_def)
next
  case (Cons x xs)
  then have "triple P (f x) (\<lambda>_. P) E" "triple P (each_op f xs) (\<lambda>_. P) E" by simp_all
  then show ?case unfolding each_op_bind by (intro triple_bind triple_return)
qed

text \<open>A loop over a queue of which every turn handles the head.\<close>

lemma triple_each_queue:
  assumes "\<And>x ys. triple (\<lambda>s. P s \<and> q s = x # ys) (f x) (\<lambda>_ s. P s \<and> q s = ys) E"
  shows "triple (\<lambda>s. P s \<and> q s = xs @ ys) (each_op f xs) (\<lambda>_ s. P s \<and> q s = ys) E"
proof (induction xs)
  case Nil
  show ?case by (simp add: triple_def)
next
  case (Cons x xs)
  from assms[of x "xs @ ys"] Cons.IH show ?case
    unfolding each_op_bind append_Cons by (intro triple_bind triple_return)
qed

section \<open>Programs\<close>

text \<open>What a program does with its client, in a callback (\<open>in_loop\<close>) or in a thread of its own.\<close>

inductive api_step :: "client \<Rightarrow> client \<Rightarrow> bool" where
  api_create: "create_tx level ro c = (r, c') \<Longrightarrow> api_step c c'"
| api_submit: "i \<in> set (cl_held c) \<Longrightarrow> submit_tx i force c = (r, c') \<Longrightarrow> api_step c c'"
| api_use:
    "i \<in> set (cl_held c) \<Longrightarrow> user_step (cl_store c) UNIV (cl_heap c ! i) t \<Longrightarrow>
       api_step c (c\<lparr>cl_heap := (cl_heap c)[i := t]\<rparr>)"
| api_type:
    "i \<in> set (cl_held c) \<Longrightarrow> api_step c (c\<lparr>cl_heap := (cl_heap c)[i := set_type n (cl_heap c ! i)]\<rparr>)"
| api_discard:
    "i \<in> set (cl_held c) \<Longrightarrow> api_step c (c\<lparr>cl_heap := (cl_heap c)[i := discard (cl_heap c ! i)]\<rparr>)"
| api_release: "api_step c (release_tx i c)"
| api_ping: "ping env in_loop payload c = (r, c') \<Longrightarrow> api_step c c'"
| api_sessions: "fetch_sessions env in_loop stream c = (r, c') \<Longrightarrow> api_step c c'"
| api_close: "close c = (r, c') \<Longrightarrow> api_step c c'"
| api_time: "api_step c (c\<lparr>cl_now := cl_now c + n\<rparr>)"

abbreviation api_run :: "client \<Rightarrow> client \<Rightarrow> bool" where
  "api_run \<equiv> api_step\<^sup>*\<^sup>*"

text \<open>Callbacks are programs.\<close>

definition reactor_ok :: "reactor \<Rightarrow> bool" where
  "reactor_ok r \<longleftrightarrow>
     (\<forall>c. api_run c (snd (on_initial_data r c))) \<and> (\<forall>a cs c. api_run c (on_event_data r a cs c)) \<and>
     (\<forall>ss c. api_run c (on_initial_sessions r ss c)) \<and> (\<forall>s c. api_run c (on_event_session r s c))"

definition env_ok :: "env \<Rightarrow> bool" where
  "env_ok env \<longleftrightarrow>
     (\<forall>i c. api_run c (snd (e_established env i c))) \<and> (\<forall>i c. api_run c (snd (e_lost env i c))) \<and>
     (\<forall>c. api_run c (snd (e_failed env c))) \<and>
     (case e_reactor env of None \<Rightarrow> True | Some r \<Rightarrow> reactor_ok r)"

text \<open>
  The states a program sees: \<open>reach (Inr ()) c\<close> while the client has not run or its loop goes on, and
  \<open>reach (Inl e) c\<close> when the loop was left by an exception.  Only the updates a message can hold are
  decoded.
\<close>

definition small_message :: "message \<Rightarrow> bool" where
  "small_message m \<longleftrightarrow>
     (case msg_content m of
        Some (UPDATES_PUSH p) \<Rightarrow>
          (\<forall>u. Some u \<in> set (vector (upush_updates p)) \<longrightarrow> small_update u)
      | Some (SNAPSHOT_RESPONSE p) \<Rightarrow>
          (case sres_snapshot p of None \<Rightarrow> True | Some s \<Rightarrow> small_snapshot s)
      | _ \<Rightarrow> True)"

definition small_decoder :: "decoder \<Rightarrow> bool" where
  "small_decoder decode \<longleftrightarrow> (\<forall>c m. decode c = Some m \<longrightarrow> small_message m)"

inductive reach :: "decoder \<Rightarrow> exn + unit \<Rightarrow> client \<Rightarrow> bool" for decode where
  reach_new: "new_client uv_ok now p = Inr c \<Longrightarrow> reach decode (Inr ()) c"
| reach_rev: "reach decode (Inr ()) c \<Longrightarrow> set_initial_rev r c = (q, c') \<Longrightarrow> reach decode (Inr ()) c'"
| reach_begin_stop:
    "reach decode (Inr ()) c \<Longrightarrow> env_ok env \<Longrightarrow> run_begin env c = (Inl e, c') \<Longrightarrow> reach decode (Inl e) c'"
| reach_begin:
    "reach decode (Inr ()) c \<Longrightarrow> env_ok env \<Longrightarrow> run_begin env c = (Inr go, c') \<Longrightarrow> reach decode (Inr ()) c'"
| reach_api: "reach decode (Inr ()) c \<Longrightarrow> api_step c c' \<Longrightarrow> reach decode (Inr ()) c'"
| reach_event:
    "reach decode (Inr ()) c \<Longrightarrow> cl_running c \<Longrightarrow> env_ok env \<Longrightarrow> enabled ev c \<Longrightarrow>
       handle_event decode env ev c = (r, c') \<Longrightarrow> reach decode r c'"

section \<open>Who owns a promise\<close>

definition req_promises :: "request \<Rightarrow> nat list" where
  "req_promises r =
     (case rq_kind r of Submit_req i f \<Rightarrow> [] | Ping_req s p \<Rightarrow> [p] | Sessions_req b p \<Rightarrow> [p])"

definition cmd_promises :: "command \<Rightarrow> nat list" where
  "cmd_promises cmd = (case cmd of Close_cmd \<Rightarrow> [] | Request_cmd r \<Rightarrow> req_promises r)"

definition queued :: "client \<Rightarrow> nat list" where
  "queued c = concat (map cmd_promises (cl_commands c)) @ concat (map req_promises (cl_requests c))"

definition unsatisfied :: "client \<Rightarrow> nat set" where
  "unsatisfied c = {p. p < length (cl_futures c) \<and> cl_futures c ! p = None}"

text \<open>
  \<open>h\<close> are the promises a step has in hand, taken from a queue or not yet put into one.  What waits in
  \<open>m_accepted\<close> has no promise of its own.
\<close>

definition owned :: "nat list \<Rightarrow> client \<Rightarrow> bool" where
  "owned h c \<longleftrightarrow>
     distinct (h @ queued c) \<and> set (h @ queued c) = unsatisfied c \<and>
     (\<forall>r \<in> set (cl_accepted c). req_promises r = [])"

lemma owned_frame:
  "cl_commands c' = cl_commands c \<Longrightarrow> cl_requests c' = cl_requests c \<Longrightarrow>
   cl_accepted c' = cl_accepted c \<Longrightarrow> cl_futures c' = cl_futures c \<Longrightarrow> owned h c' = owned h c"
  by (simp add: owned_def queued_def unsatisfied_def)

lemma owned_perm: "mset h = mset h' \<Longrightarrow> owned h c = owned h' c"
  unfolding owned_def by (metis distinct_append mset_eq_imp_distinct_iff set_append set_mset_mset)

section \<open>Operations that leave the queues alone\<close>

definition same_queues :: "client \<Rightarrow> client \<Rightarrow> bool" where
  "same_queues c c' \<longleftrightarrow>
     cl_commands c' = cl_commands c \<and> cl_requests c' = cl_requests c \<and>
     cl_accepted c' = cl_accepted c \<and> cl_futures c' = cl_futures c"

lemma same_queues_refl [simp]: "same_queues c c"
  by (simp add: same_queues_def)

lemma same_queues_owned: "same_queues c c' \<Longrightarrow> owned h c' = owned h c"
  by (rule owned_frame) (simp_all add: same_queues_def)

lemma owned_frameI: "owned h c \<Longrightarrow> same_queues c c' \<Longrightarrow> owned h c'"
  by (simp add: same_queues_owned)

abbreviation keeps_owned :: "(client, 'a) op \<Rightarrow> bool" where
  "keeps_owned m \<equiv> triple (owned []) m (\<lambda>_. owned []) (owned [])"

lemma triple_same:
  "(\<And>c. same_queues c (snd (m c))) \<Longrightarrow> triple (owned h) m (\<lambda>_. owned h) (owned h)"
  by (rule tripleI) (metis same_queues_owned snd_conv)+

lemma on_connection_same: "same_queues c (snd (on_connection i f c))"
  by (simp add: on_connection_def same_queues_def split: prod.split)

lemma on_tx_same: "same_queues c (snd (on_tx i f c))"
  by (simp add: on_tx_def same_queues_def split: prod.split)

lemma on_store_same: "same_queues c (snd (on_store f c))"
  by (simp add: on_store_def same_queues_def split: prod.split)

lemma disconnect_same: "same_queues c (snd (disconnect_con rc i c))"
  by (simp add: disconnect_con_def on_connection_same)

lemma current_same: "same_queues c (snd (disconnect_current rc c))"
  by (simp add: disconnect_current_def disconnect_same split: option.split)

lemma send_same: "same_queues c (snd (send_on env i m c))"
  by (simp add: send_on_def on_connection_same)

lemma client_send_same: "same_queues c (snd (client_send env m c))"
  by (simp add: client_send_def send_same split: option.split)

lemmas same_ops = on_connection_same on_tx_same on_store_same disconnect_same current_same send_same
  client_send_same

lemmas owned_same_ops [inv_intros] = same_ops[THEN triple_same]

lemmas owned_snd [simp] = same_ops[THEN owned_frameI[rotated]]

lemma keeps_owned_ops:
  "keeps_owned (on_store f)" "keeps_owned (disconnect_con rc i)" "keeps_owned (disconnect_current rc)"
  "keeps_owned (on_tx i g)"
  by (rule triple_total, simp)+

lemma report_same: "same_queues c (report_server_activity c)"
  by (simp add: report_server_activity_def same_queues_def)

lemma update_con_same: "same_queues c (update_con i f c)"
  by (simp add: update_con_def same_queues_def)

section \<open>Satisfying and breaking promises\<close>

lemma owned_put:
  assumes "owned (p # h) c"
  shows "cl_futures c ! p = None" "owned h (c\<lparr>cl_futures := (cl_futures c)[p := Some r]\<rparr>)"
proof -
  have p: "p \<in> unsatisfied c" "p \<notin> set (h @ queued c)" using assms by (auto simp: owned_def)
  then show "cl_futures c ! p = None" by (simp add: unsatisfied_def)
  have "unsatisfied (c\<lparr>cl_futures := (cl_futures c)[p := Some r]\<rparr>) = unsatisfied c - {p}"
    using p(1) by (auto simp: unsatisfied_def nth_list_update split: if_split_asm)
  then show "owned h (c\<lparr>cl_futures := (cl_futures c)[p := Some r]\<rparr>)"
    using assms p by (auto simp: owned_def queued_def)
qed

lemma satisfy_owned:
  assumes "owned (p # h) c"
  shows "satisfy_future p r c = (Inr (), c\<lparr>cl_futures := (cl_futures c)[p := Some r]\<rparr>)"
  using owned_put(1)[OF assms] by (simp add: satisfy_future_def)

lemma break_owned: "owned (p # h) c \<Longrightarrow> owned h (break_promise p c)"
  using owned_put by (simp add: break_promise_def)

lemma drop_owned: "owned (req_promises r @ h) c \<Longrightarrow> owned h (drop_request r c)"
  by (cases "rq_kind r") (simp_all add: drop_request_def req_promises_def break_owned)

lemma drop_command_owned: "owned (cmd_promises cmd @ h) c \<Longrightarrow> owned h (drop_command cmd c)"
  by (cases cmd) (simp_all add: drop_command_def cmd_promises_def drop_owned)

lemma drop_all_owned:
  "owned (concat (map req_promises rs) @ h) c \<Longrightarrow> owned h (fold drop_request rs c)"
  by (induction rs arbitrary: c) (simp_all add: drop_owned)

lemma drop_commands_owned:
  "owned (concat (map cmd_promises cmds) @ h) c \<Longrightarrow> owned h (fold drop_command cmds c)"
  by (induction cmds arbitrary: c) (simp_all add: drop_command_owned)

lemma drop_satisfied: "\<forall>p \<in> set (req_promises r). cl_futures c ! p \<noteq> None \<Longrightarrow> drop_request r c = c"
  by (cases "rq_kind r") (auto simp: drop_request_def req_promises_def break_promise_def)

text \<open>Taking from a queue and putting into one.\<close>

lemma owned_take_requests:
  "owned h c \<Longrightarrow> cl_requests c = rs @ rs' \<Longrightarrow>
     owned (concat (map req_promises rs) @ h) (c\<lparr>cl_requests := rs'\<rparr>)"
  by (auto simp: owned_def queued_def unsatisfied_def)

lemma owned_take_request:
  "owned h c \<Longrightarrow> cl_requests c = r # rs \<Longrightarrow> owned (req_promises r @ h) (c\<lparr>cl_requests := rs\<rparr>)"
  using owned_take_requests[of h c "[r]" rs] by simp

lemma owned_take_command:
  "owned h c \<Longrightarrow> cl_commands c = cmd # cmds \<Longrightarrow> owned (cmd_promises cmd @ h) (c\<lparr>cl_commands := cmds\<rparr>)"
  by (auto simp: owned_def queued_def unsatisfied_def)

lemma owned_add_request:
  "owned (req_promises r @ h) c \<Longrightarrow> owned h (c\<lparr>cl_requests := cl_requests c @ [r]\<rparr>)"
  by (auto simp: owned_def queued_def unsatisfied_def)

lemma owned_add_command:
  "owned (cmd_promises cmd @ h) c \<Longrightarrow> owned h (c\<lparr>cl_commands := cl_commands c @ [cmd]\<rparr>)"
  by (auto simp: owned_def queued_def unsatisfied_def)

lemma owned_new_future: "owned h c \<Longrightarrow> owned (length (cl_futures c) # h) (c\<lparr>cl_futures := cl_futures c @ [None]\<rparr>)"
proof -
  assume o: "owned h c"
  have "unsatisfied (c\<lparr>cl_futures := cl_futures c @ [None]\<rparr>) = insert (length (cl_futures c)) (unsatisfied c)"
    by (auto simp: unsatisfied_def nth_append less_Suc_eq split: if_split_asm)
  moreover have "length (cl_futures c) \<notin> unsatisfied c" by (simp add: unsatisfied_def)
  ultimately show ?thesis using o by (auto simp: owned_def queued_def)
qed

text \<open>Clearing the queues.\<close>

lemma clear_commands_owned: "owned h c \<Longrightarrow> owned h (clear_commands c)"
  unfolding clear_commands_def
  by (rule drop_commands_owned) (auto simp: owned_def queued_def unsatisfied_def)

lemma clear_requests_owned: "owned h c \<Longrightarrow> owned h (clear_requests c)"
  unfolding clear_requests_def
  by (rule drop_all_owned) (auto simp: owned_def queued_def unsatisfied_def)

lemma drop_accepted: "\<forall>r \<in> set rs. req_promises r = [] \<Longrightarrow> fold drop_request rs c = c"
  by (induction rs) (simp_all add: drop_satisfied)

lemma clear_accepted_owned: "owned h c \<Longrightarrow> owned h (clear_accepted c)"
  unfolding clear_accepted_def
  by (subst drop_accepted) (auto simp: owned_def queued_def unsatisfied_def)

lemma drop_request_fields [simp]:
  "cl_commands (drop_request r c) = cl_commands c" "cl_requests (drop_request r c) = cl_requests c"
  "cl_accepted (drop_request r c) = cl_accepted c" "cl_state (drop_request r c) = cl_state c"
  "cl_transactions (drop_request r c) = cl_transactions c" "cl_con (drop_request r c) = cl_con c"
  by (simp_all add: drop_request_def break_promise_def split: req_kind.split)

lemma drop_fields [simp]:
  "cl_commands (fold drop_request rs c) = cl_commands c" "cl_requests (fold drop_request rs c) = cl_requests c"
  "cl_accepted (fold drop_request rs c) = cl_accepted c" "cl_state (fold drop_request rs c) = cl_state c"
  "cl_transactions (fold drop_request rs c) = cl_transactions c" "cl_con (fold drop_request rs c) = cl_con c"
  by (induction rs arbitrary: c) simp_all

lemma set_state_owned: "owned h c \<Longrightarrow> owned h (client_set_state st c)"
proof -
  assume o: "owned h c"
  have "owned h (c\<lparr>cl_state := st\<rparr>)" "owned h (c\<lparr>cl_state := st, cl_transactions := []\<rparr>)"
    using owned_frameI[OF o] by (simp_all add: same_queues_def)
  then show ?thesis
    unfolding client_set_state_def Let_def
    by (auto intro: o clear_commands_owned clear_requests_owned clear_accepted_owned)
qed

lemma abort_owned: "owned h c \<Longrightarrow> owned h (client_abort e c)"
proof (cases "is_closed c")
  case False
  let ?c = "c\<lparr>cl_error := Some e, cl_con := None, cl_data_cid := 0, cl_sessions_cid := 0,
    cl_connections := map (disconnect ERR_CLOSED_BY_LOCAL) (cl_connections c),
    cl_timer_lost := None, cl_timer_reconnect := None\<rparr>"
  assume "owned h c"
  then have "owned h ?c" by (rule owned_frameI) (simp add: same_queues_def)
  then have "owned h (clear_commands (client_set_state CLOSED ?c))"
    by (intro clear_commands_owned set_state_owned)
  then have "owned h ((clear_commands (client_set_state CLOSED ?c))\<lparr>cl_stopped := True\<rparr>)"
    by (rule owned_frameI) (simp add: same_queues_def)
  then show ?thesis using False by (simp add: client_abort_def Let_def)
qed (simp add: client_abort_def)

section \<open>Calls of the program\<close>

lemma push_command_owned:
  assumes "owned (cmd_promises cmd @ h) c" "push_command cmd c = (r, c')"
  shows "owned h c'"
proof (cases "is_closed c \<or> length (cl_commands c) \<ge> unat (p_max_active_txs (cl_params c) + 3)")
  case True
  then have "c' = drop_command cmd c" using assms(2) by (auto simp: push_command_def split: if_split_asm)
  then show ?thesis using drop_command_owned[OF assms(1)] by simp
next
  case False
  let ?c = "c\<lparr>cl_commands := cl_commands c @ [cmd]\<rparr>"
  have "c' = ?c \<or> c' = ?c\<lparr>cl_async := True\<rparr>"
    using assms(2) False by (auto simp: push_command_def Let_def split: if_split_asm)
  then have "same_queues ?c c'" by (auto simp: same_queues_def)
  with owned_add_command[OF assms(1)] show ?thesis by (rule owned_frameI)
qed

lemma req_promises_cid [simp]: "req_promises (r\<lparr>rq_cid := n\<rparr>) = req_promises r"
  by (simp add: req_promises_def)

lemma issue_owned:
  assumes "owned (req_promises r @ h) c" "issue env r msg c = (q, c')"
  shows "owned h c'"
proof -
  let ?c1 = "c\<lparr>cl_correlation := cl_correlation c + 1\<rparr>"
  obtain s c2 where s: "client_send env (msg (cl_correlation c)) ?c1 = (s, c2)" by fastforce
  have "same_queues c c2"
    using client_send_same[of ?c1 env "msg (cl_correlation c)"] s by (simp add: same_queues_def)
  then have o: "owned (req_promises r @ h) c2" using assms(1) by (simp add: owned_frameI)
  show ?thesis
  proof (cases s)
    case (Inl e)
    then have "c' = drop_request r c2" using assms(2) s by (simp add: issue_def Let_def)
    then show ?thesis using drop_owned[OF o] by simp
  next
    case (Inr u)
    then have "c' = c2\<lparr>cl_requests := cl_requests c2 @ [r\<lparr>rq_cid := cl_correlation c\<rparr>]\<rparr>"
      using assms(2) s by (simp add: issue_def Let_def)
    then show ?thesis using owned_add_request[of "r\<lparr>rq_cid := cl_correlation c\<rparr>" h c2] o by simp
  qed
qed

lemma process_ping_owned:
  "owned (req_promises r @ h) c \<Longrightarrow> rq_kind r = Ping_req s p \<Longrightarrow> process_ping_cmd env r s p c = (q, c') \<Longrightarrow>
     owned h c'"
  using satisfy_owned[of p h c] owned_put(2)[of p h c] issue_owned[of r h c env]
  by (auto simp: process_ping_cmd_def req_promises_def split: if_split_asm)

lemma process_sessions_owned:
  "owned (req_promises r @ h) c \<Longrightarrow> rq_kind r = Sessions_req b p \<Longrightarrow>
     process_sessions_cmd env r b p c = (q, c') \<Longrightarrow> owned h c'"
  using satisfy_owned[of p h c] owned_put(2)[of p h c] issue_owned[of r h c env]
  by (auto simp: process_sessions_cmd_def req_promises_def split: if_split_asm)

lemma process_submit_owned:
  assumes "owned (req_promises r @ h) c" "rq_kind r = Submit_req i f" "process_submit_cmd env r i f c = (q, c')"
  shows "owned h c'"
proof (cases "cl_con c = None")
  case True
  then have "c' = snd (on_tx i (set_submit_error Ex_not_connected) c)"
    using assms(3) by (simp add: process_submit_cmd_def)
  then show ?thesis using assms(1,2) owned_frameI[OF _ on_tx_same] by (simp add: req_promises_def)
next
  case False
  then show ?thesis using assms by (auto simp: process_submit_cmd_def intro: issue_owned)
qed

lemma bind_return_snd: "snd (bind_op m (\<lambda>_. return_op p) c) = snd (m c)"
  by (simp add: bind_op_def split: prod.split sum.split)

lemma submit_tx_owned:
  assumes "owned h c" "submit_tx i force c = (r, c')"
  shows "owned h c'"
proof -
  let ?cmd = "Request_cmd (new_request c (Submit_req i force))"
  obtain pushed c1 where p: "push_command ?cmd c = (pushed, c1)" by fastforce
  have "cmd_promises ?cmd = []" by (simp add: cmd_promises_def req_promises_def new_request_def)
  then have "owned h c1" using push_command_owned[OF _ p, of h] assms(1) by simp
  moreover have "\<exists>d \<in> {c, c1}. c' = d\<lparr>cl_heap := cl_heap c'\<rparr>"
    using assms(2) p by (auto simp: submit_tx_def Let_def split: prod.splits)
  moreover have "owned h (d\<lparr>cl_heap := hp\<rparr>) = owned h d" for d hp by (rule owned_frame) simp_all
  ultimately show ?thesis using assms(1) by (metis insertE singletonD)
qed

lemma request_call_owned:
  assumes "owned h c" "r = new_request c k" "req_promises r = [length (cl_futures c)]"
    and "\<And>c1 q c2. owned (req_promises r @ h) c1 \<Longrightarrow> m c1 = (q, c2) \<Longrightarrow> owned h c2"
    and "bind_op m (\<lambda>_. return_op p) (c\<lparr>cl_futures := cl_futures c @ [None]\<rparr>) = (x, c')"
  shows "owned h c'"
proof -
  let ?c = "c\<lparr>cl_futures := cl_futures c @ [None]\<rparr>"
  have "c' = snd (m ?c)" using bind_return_snd[of m p ?c] assms(5) by simp
  moreover have "owned (req_promises r @ h) ?c" using owned_new_future[OF assms(1)] assms(3) by simp
  ultimately show ?thesis using assms(4)[of ?c] by (metis prod.collapse)
qed

lemma ping_owned:
  assumes "owned h c" "ping env in_loop payload c = (x, c')"
  shows "owned h c'"
proof (cases "is_closed c")
  case True
  then show ?thesis using assms by (simp add: ping_def)
next
  case False
  let ?r = "new_request c (Ping_req payload (length (cl_futures c)))"
  let ?m = "if in_loop then process_ping_cmd env ?r payload (length (cl_futures c)) else push_command (Request_cmd ?r)"
  have r: "req_promises ?r = [length (cl_futures c)]" "rq_kind ?r = Ping_req payload (length (cl_futures c))"
    "cmd_promises (Request_cmd ?r) = req_promises ?r"
    by (simp_all add: req_promises_def new_request_def cmd_promises_def)
  have step: "owned h c2" if "owned (req_promises ?r @ h) c1" "?m c1 = (q, c2)" for c1 q c2
    using that process_ping_owned[OF that(1) r(2)] push_command_owned[of "Request_cmd ?r" h c1] r(3)
    by (auto split: if_split_asm)
  have "bind_op ?m (\<lambda>_. return_op (length (cl_futures c))) (c\<lparr>cl_futures := cl_futures c @ [None]\<rparr>) = (x, c')"
    using assms(2) False by (simp add: ping_def Let_def)
  from request_call_owned[OF assms(1) refl r(1) step this] show ?thesis .
qed

lemma fetch_owned:
  assumes "owned h c" "fetch_sessions env in_loop stream c = (x, c')"
  shows "owned h c'"
proof (cases "cl_state c \<in> {OFFLINE, CONNECTING, CLOSED} \<or> cl_user c = None \<or> \<not> can_monitor (the (cl_user c))")
  case True
  then show ?thesis using assms by (auto simp: fetch_sessions_def split: if_split_asm)
next
  case False
  let ?r = "new_request c (Sessions_req stream (length (cl_futures c)))"
  let ?m = "if in_loop then process_sessions_cmd env ?r stream (length (cl_futures c)) else push_command (Request_cmd ?r)"
  have r: "req_promises ?r = [length (cl_futures c)]" "rq_kind ?r = Sessions_req stream (length (cl_futures c))"
    "cmd_promises (Request_cmd ?r) = req_promises ?r"
    by (simp_all add: req_promises_def new_request_def cmd_promises_def)
  have step: "owned h c2" if "owned (req_promises ?r @ h) c1" "?m c1 = (q, c2)" for c1 q c2
    using that process_sessions_owned[OF that(1) r(2)] push_command_owned[of "Request_cmd ?r" h c1] r(3)
    by (auto split: if_split_asm)
  have "bind_op ?m (\<lambda>_. return_op (length (cl_futures c))) (c\<lparr>cl_futures := cl_futures c @ [None]\<rparr>) = (x, c')"
    using assms(2) False by (auto simp: fetch_sessions_def Let_def)
  from request_call_owned[OF assms(1) refl r(1) step this] show ?thesis .
qed

lemma create_tx_same: "create_tx level ro c = (r, c') \<Longrightarrow> same_queues c c'"
  by (auto simp: create_tx_def purge_unused_txs_def same_queues_def Let_def split: if_split_asm sum.splits)

lemma api_owned: "api_step c c' \<Longrightarrow> owned h c \<Longrightarrow> owned h c'"
proof (induction rule: api_step.induct)
  case (api_create level ro c r c')
  then show ?case using create_tx_same owned_frameI by blast
next
  case (api_close c r c')
  then show ?case
    using push_command_owned[of Close_cmd h c] by (simp add: close_def cmd_promises_def)
qed (auto intro: submit_tx_owned ping_owned fetch_owned elim: owned_frameI simp: same_queues_def release_tx_def)

lemma api_run_owned: "api_run c c' \<Longrightarrow> owned h c \<Longrightarrow> owned h c'"
  by (induction rule: rtranclp_induct) (auto intro: api_owned)

section \<open>The loop\<close>

text \<open>\<open>cancel\<close> satisfies the promise of its request, so destroying the request breaks nothing.\<close>

lemma satisfied_dropped:
  assumes "owned (p # h) c" "req_promises r = [p]"
  shows "drop_request r (c\<lparr>cl_futures := (cl_futures c)[p := Some x]\<rparr>) =
    c\<lparr>cl_futures := (cl_futures c)[p := Some x]\<rparr>"
proof (rule drop_satisfied)
  have "p < length (cl_futures c)" using assms(1) by (auto simp: owned_def unsatisfied_def)
  then show "\<forall>q \<in> set (req_promises r). cl_futures (c\<lparr>cl_futures := (cl_futures c)[p := Some x]\<rparr>) ! q \<noteq> None"
    by (simp add: assms(2))
qed

lemma cancel_promise_owned:
  assumes "req_promises r = [p]"
  shows "triple (owned (req_promises r)) (bind_op (satisfy_future p x) (\<lambda>_. modify_op (drop_request r)))
     (\<lambda>_. owned []) (owned [])"
  unfolding assms
  by (rule tripleI) (auto simp: bind_op_def satisfy_owned satisfied_dropped[OF _ assms] owned_put(2))

lemma cancel_owned:
  "triple (owned (req_promises r)) (bind_op (cancel r) (\<lambda>_. modify_op (drop_request r)))
     (\<lambda>_. owned []) (owned [])"
proof (cases "rq_kind r")
  case (Submit_req i f)
  then have "cancel r = on_tx i (set_submit_error Ex_canceled)" "req_promises r = []"
    by (simp_all add: cancel_def req_promises_def)
  then show ?thesis
    by (auto intro!: triple_bind[OF owned_same_ops(2)] triple_modify simp: drop_satisfied)
next
  case (Ping_req s p)
  then show ?thesis using cancel_promise_owned[of r p "Inl Ex_canceled"] by (simp add: cancel_def req_promises_def)
next
  case (Sessions_req b p)
  then show ?thesis using cancel_promise_owned[of r p "Inl Ex_canceled"] by (simp add: cancel_def req_promises_def)
qed

lemma cancel_fields:
  "cancel r c = (q, c') \<Longrightarrow> cl_requests c' = cl_requests c \<and> cl_accepted c' = cl_accepted c"
  by (auto simp: cancel_def on_tx_def satisfy_future_def split: req_kind.splits prod.splits option.splits)

text \<open>One turn of a loop of \<open>cancel_requests\<close>, over the queue \<open>q\<close>; \<open>I\<close> holds of the other queue.\<close>

lemma cancel_turn_owned:
  assumes "\<And>c. owned [] c \<and> I c \<and> q c = r # rs \<Longrightarrow> owned (req_promises r) (pop c) \<and> I (pop c) \<and> q (pop c) = rs"
    and "\<And>c u d. cancel r c = (u, d) \<Longrightarrow> I c \<Longrightarrow> I (drop_request r d) \<and> q (drop_request r d) = q c"
  shows "triple (\<lambda>c. (owned [] c \<and> I c) \<and> q c = r # rs)
      (bind_op (modify_op pop) (\<lambda>_. bind_op (cancel r) (\<lambda>_. modify_op (drop_request r))))
      (\<lambda>_ c. (owned [] c \<and> I c) \<and> q c = rs) (owned [])"
proof (rule triple_bind[where Q = "\<lambda>_ c. owned (req_promises r) c \<and> I c \<and> q c = rs"])
  show "triple (\<lambda>c. owned (req_promises r) c \<and> I c \<and> q c = rs)
     (bind_op (cancel r) (\<lambda>_. modify_op (drop_request r))) (\<lambda>_ c. (owned [] c \<and> I c) \<and> q c = rs) (owned [])"
  proof (rule tripleI)
    fix c e d
    assume "owned (req_promises r) c \<and> I c \<and> q c = rs" "e \<noteq> Ex_crash"
      "bind_op (cancel r) (\<lambda>_. modify_op (drop_request r)) c = (Inl e, d)"
    then show "owned [] d" using triple_Inl[OF cancel_owned] by blast
  next
    fix c u d
    assume c: "owned (req_promises r) c \<and> I c \<and> q c = rs"
      "bind_op (cancel r) (\<lambda>_. modify_op (drop_request r)) c = (Inr u, d)"
    have "I d \<and> q d = rs"
      using c assms(2) by (auto elim!: bind_op_InrE)
    with triple_Inr[OF cancel_owned _ c(2)] c(1) show "(owned [] d \<and> I d) \<and> q d = rs" by blast
  qed
qed (use assms(1) in \<open>auto intro!: triple_modify\<close>)

lemma cancel_requests_owned: "keeps_owned cancel_requests"
proof -
  let ?f = "\<lambda>r. bind_op (modify_op pop_request) (\<lambda>_. bind_op (cancel r) (\<lambda>_. modify_op (drop_request r)))"
  let ?g = "\<lambda>r. bind_op (modify_op pop_accepted) (\<lambda>_. bind_op (cancel r) (\<lambda>_. modify_op (drop_request r)))"
  have f: "triple (\<lambda>c. (owned [] c \<and> cl_accepted c = as) \<and> cl_requests c = rs)
      (each_op ?f rs) (\<lambda>_ c. (owned [] c \<and> cl_accepted c = as) \<and> cl_requests c = []) (owned [])" for rs as
  proof (rule triple_each_queue[of _ cl_requests _ _ rs "[]", unfolded append_Nil2], rule cancel_turn_owned)
    fix r ys c
    assume "owned [] c \<and> cl_accepted c = as \<and> cl_requests c = r # ys"
    then show "owned (req_promises r) (pop_request c) \<and> cl_accepted (pop_request c) = as \<and>
        cl_requests (pop_request c) = ys"
      using owned_take_request[of "[]" c r ys] by (simp add: pop_request_def)
  qed (auto dest!: cancel_fields)
  have g: "triple (\<lambda>c. (owned [] c \<and> True) \<and> cl_accepted c = as)
      (each_op ?g as) (\<lambda>_ c. (owned [] c \<and> True) \<and> cl_accepted c = []) (owned [])" for as
  proof (rule triple_each_queue[of _ cl_accepted _ _ as "[]", unfolded append_Nil2], rule cancel_turn_owned)
    fix r ys c
    assume "owned [] c \<and> True \<and> cl_accepted c = r # ys"
    then show "owned (req_promises r) (pop_accepted c) \<and> True \<and> cl_accepted (pop_accepted c) = ys"
      by (simp add: pop_accepted_def owned_def queued_def unsatisfied_def)
  qed (auto dest!: cancel_fields)
  have g': "triple (\<lambda>c. (owned [] c \<and> cl_accepted c = as) \<and> cl_requests c = [])
      (each_op ?g as) (\<lambda>_. owned []) (owned [])" for as
    by (rule triple_conseq[OF g]) auto
  have "triple (\<lambda>c. (owned [] c \<and> cl_accepted c = as) \<and> cl_requests c = rs)
      (bind_op (each_op ?f rs) (\<lambda>_. bind_op (each_op ?g as) (\<lambda>_. return_op ()))) (\<lambda>_. owned []) (owned [])" for rs as
    by (rule triple_bind[OF f], rule triple_bind[OF g']) (auto intro: triple_return)
  then show ?thesis
    unfolding triple_def cancel_requests_def by simp
qed

text \<open>Commands.\<close>

lemma process_command_owned:
  assumes "owned (cmd_promises cmd @ h) c" "process_command env cmd c = (r, c')"
  shows "owned h c'"
proof (cases cmd)
  case Close_cmd
  then show ?thesis using assms
    by (auto simp: process_command_def process_close_cmd_def cmd_promises_def intro: abort_owned)
next
  case (Request_cmd q)
  then have o: "owned (req_promises q @ h) c" using assms(1) by (simp add: cmd_promises_def)
  show ?thesis
  proof (cases "rq_kind q")
    case (Submit_req i f)
    then show ?thesis using process_submit_owned[OF o] assms(2) Request_cmd by (simp add: process_command_def)
  next
    case (Ping_req s p)
    then show ?thesis using process_ping_owned[OF o] assms(2) Request_cmd by (simp add: process_command_def)
  next
    case (Sessions_req b p)
    then show ?thesis using process_sessions_owned[OF o] assms(2) Request_cmd by (simp add: process_command_def)
  qed
qed

lemma command_loop_owned: "owned [] c \<Longrightarrow> command_loop n env c = (r, c') \<Longrightarrow> owned [] c'"
proof (induction n env c arbitrary: r rule: command_loop.induct)
  case (2 n env c)
  show ?case
  proof (cases "cl_commands c")
    case (Cons cmd cmds)
    let ?c = "c\<lparr>cl_commands := cmds\<rparr>"
    obtain q d where d: "process_command env cmd ?c = (q, d)" by fastforce
    have "owned [] d"
      using process_command_owned[OF _ d, of "[]"] owned_take_command[OF "2.prems"(1) Cons] by simp
    moreover have "(case q of Inl e \<Rightarrow> (Inl e, d) | Inr _ \<Rightarrow> command_loop n env d) = (r, c')"
      using "2.prems"(2) Cons d by (simp add: bind_op_def)
    ultimately show ?thesis using "2.IH"[OF Cons] d by (auto split: sum.splits)
  qed (use 2 in simp)
qed simp

lemma process_commands_owned: "owned [] c \<Longrightarrow> process_commands env c = (r, c') \<Longrightarrow> owned [] c'"
  by (auto simp: process_commands_def intro: command_loop_owned split: if_split_asm)

lemma keeps_ownedI: "(\<And>c r c'. owned [] c \<Longrightarrow> m c = (r, c') \<Longrightarrow> owned [] c') \<Longrightarrow> keeps_owned m"
  by (rule tripleI) blast+

text \<open>Connections.\<close>

lemma try_to_connect_owned: "keeps_owned (try_to_connect env)"
proof -
  have "keeps_owned (bind_op (each_op (\<lambda>i. on_connection i (connect (e_connect env i))) is) (\<lambda>_. return_op ()))" for "is"
    by (rule triple_bind[where Q = "\<lambda>_. owned []"], rule triple_each, rule owned_same_ops)
      (simp add: triple_return)
  moreover have "owned [] c \<Longrightarrow>
      owned [] (client_set_state CONNECTING (c\<lparr>cl_con := None, cl_timer_reconnect := None\<rparr>))" for c
    by (intro set_state_owned) (auto elim: owned_frameI simp: same_queues_def)
  ultimately show ?thesis
    unfolding try_to_connect_def triple_def Let_def by auto
qed

lemma callback_owned: "api_run c (snd p) \<Longrightarrow> p = (r, c') \<Longrightarrow> owned [] c \<Longrightarrow> owned [] c'"
  using api_run_owned by simp

lemmas keeps_owned_snd = triple_total[where P = "owned []"]

lemma schedule_same: "same_queues c (schedule_reconnect d c)"
  by (simp add: schedule_reconnect_def same_queues_def)

lemma connection_failed_owned:
  assumes "env_ok env" "owned [] c"
  shows "owned [] (connection_failed env c)"
proof -
  obtain w d where d: "e_failed env c = (w, d)" by fastforce
  have "owned [] d" using callback_owned[OF _ d assms(2)] assms(1) by (simp add: env_ok_def)
  then show ?thesis
    using d abort_owned owned_frameI[OF _ schedule_same]
    by (auto simp: connection_failed_def split: option.split)
qed

lemma current_lost_owned: "env_ok env \<Longrightarrow> keeps_owned (current_lost env i)"
proof -
  assume env: "env_ok env"
  have rest: "keeps_owned (\<lambda>c. case e_lost env i (c\<lparr>cl_timer_lost := None\<rparr>) of
      (Some True, c3) \<Rightarrow> try_to_connect env c3
    | (_, c3) \<Rightarrow> (Inr (), client_abort Ex_closed_by_manager c3))"
    unfolding triple_def
  proof (intro allI impI)
    fix c assume "owned [] c"
    then have o: "owned [] (c\<lparr>cl_timer_lost := None\<rparr>)" by (rule owned_frameI) (simp add: same_queues_def)
    obtain w d where d: "e_lost env i (c\<lparr>cl_timer_lost := None\<rparr>) = (w, d)" by fastforce
    have "owned [] d" using callback_owned[OF _ d o] env by (simp add: env_ok_def)
    then show "case case e_lost env i (c\<lparr>cl_timer_lost := None\<rparr>) of
        (Some True, c3) \<Rightarrow> try_to_connect env c3
      | (_, c3) \<Rightarrow> (Inr (), client_abort Ex_closed_by_manager c3) of
        (Inl e, t) \<Rightarrow> e = Ex_crash \<or> owned [] t | (Inr a, t) \<Rightarrow> owned [] t"
      using d abort_owned try_to_connect_owned[of env]
      by (auto simp: triple_def split: option.split bool.split)
  qed
  have start: "owned [] ((client_set_state OFFLINE c)\<lparr>cl_con := None, cl_data_cid := 0, cl_sessions_cid := 0\<rparr>)"
    if "owned [] c" for c
    using set_state_owned[OF that] by (rule owned_frameI) (simp add: same_queues_def)
  have "current_lost env i = (\<lambda>c. bind_op cancel_requests (\<lambda>_ c2.
      case e_lost env i (c2\<lparr>cl_timer_lost := None\<rparr>) of
        (Some True, c3) \<Rightarrow> try_to_connect env c3
      | (_, c3) \<Rightarrow> (Inr (), client_abort Ex_closed_by_manager c3))
      ((client_set_state OFFLINE c)\<lparr>cl_con := None, cl_data_cid := 0, cl_sessions_cid := 0\<rparr>))"
    by (rule ext) (simp add: current_lost_def Let_def)
  then show ?thesis
    using triple_start[OF triple_bind[OF cancel_requests_owned rest] start] by simp
qed

lemma on_connection_closed_owned: "env_ok env \<Longrightarrow> keeps_owned (on_connection_closed env i)"
  using current_lost_owned[of env i] connection_failed_owned[of env]
  by (auto simp: triple_def on_connection_closed_def)

lemma on_connection_lost_owned: "keeps_owned on_connection_lost"
proof -
  have "keeps_owned (bind_op (disconnect_con rc i) (\<lambda>_. modify_op (\<lambda>c. c\<lparr>cl_timer_lost := None\<rparr>)))" for rc i
    by (rule triple_bind[OF owned_same_ops(4)], rule triple_modify)
      (auto elim: owned_frameI simp: same_queues_def)
  moreover have "owned [] c \<Longrightarrow> owned [] (c\<lparr>cl_timer_lost := None\<rparr>)" for c
    by (auto elim: owned_frameI simp: same_queues_def)
  ultimately show ?thesis unfolding on_connection_lost_def triple_def by (auto split: option.split)
qed

lemma established_snd: "owned [] c \<Longrightarrow> owned [] (snd (on_connection_established env i c))"
proof -
  assume "owned [] c"
  then have "owned [] (snd (disconnect_con ERR_ALREADY_CONNECTED i c))"
    "owned [] (c\<lparr>cl_correlation := n\<rparr>)" for n
    by (auto elim: owned_frameI simp: same_queues_def disconnect_same[unfolded same_queues_def])
  then show ?thesis
    by (simp add: on_connection_established_def Let_def)
qed

text \<open>Messages.\<close>

lemma request_data_snd: "owned [] c \<Longrightarrow> owned [] (snd (request_data env st msg c))"
proof -
  assume "owned [] c"
  then have "owned [] (client_set_state st c)" by (rule set_state_owned)
  then have "owned [] ((client_set_state st c)\<lparr>cl_data_cid := n, cl_correlation := m\<rparr>)" for n m
    by (rule owned_frameI) (simp add: same_queues_def)
  then show ?thesis by (simp add: request_data_def Let_def)
qed

lemmas request_data_owned = keeps_owned_snd[OF request_data_snd]

lemma start_sync_owned: "keeps_owned (start_sync env resp)"
  by (rule keeps_owned_snd) (simp add: start_sync_def Let_def request_data_snd)

lemma close_others_same: "same_queues c (close_others c)"
  by (simp add: close_others_def same_queues_def)

lemma keepalive_same: "same_queues c (start_keepalive resp c)"
  by (simp add: start_keepalive_def same_queues_def Let_def)

lemma logged_in_owned: "env_ok env \<Longrightarrow> keeps_owned (logged_in env i resp u)"
proof -
  assume env: "env_ok env"
  define est where "est c =
      (case e_established env i (client_set_state AUTHENTICATED (c\<lparr>cl_con := Some i, cl_user := Some u\<rparr>)) of
         (Some _, c') \<Rightarrow> c' | (None, c') \<Rightarrow> client_abort Ex_manager_threw c')" for c
  have "owned [] (close_others (start_keepalive resp (est c)))" if "owned [] c" for c
  proof -
    let ?c1 = "client_set_state AUTHENTICATED (c\<lparr>cl_con := Some i, cl_user := Some u\<rparr>)"
    have "owned [] (c\<lparr>cl_con := Some i, cl_user := Some u\<rparr>)"
      using that by (rule owned_frameI) (simp add: same_queues_def)
    then have o: "owned [] ?c1" by (rule set_state_owned)
    obtain w d where d: "e_established env i ?c1 = (w, d)" by fastforce
    have "owned [] d" using callback_owned[OF _ d o] env by (simp add: env_ok_def)
    then have "owned [] (est c)" using d abort_owned by (auto simp: est_def split: option.split)
    then show ?thesis by (intro owned_frameI[OF _ close_others_same] owned_frameI[OF _ keepalive_same])
  qed
  then show ?thesis
    using triple_start[OF start_sync_owned[of env resp], of "owned []"]
    by (simp add: logged_in_def[abs_def] Let_def est_def)
qed

lemma process_login_owned: "env_ok env \<Longrightarrow> keeps_owned (process_login_resp env i resp)"
proof -
  assume env: "env_ok env"
  have "keeps_owned (\<lambda>c. case login_acls (vector (lres_permissions resp)) of
      Inl e \<Rightarrow> (Inl e, c)
    | Inr [] \<Rightarrow> disconnect_con ERR_AUTH i c
    | Inr acls \<Rightarrow> logged_in env i resp (login_user (cl_params c) resp acls) c)"
  proof (cases "login_acls (vector (lres_permissions resp))")
    case (Inl e)
    then show ?thesis by (simp add: triple_throw)
  next
    case (Inr acls)
    have "keeps_owned (\<lambda>c. logged_in env i resp (login_user (cl_params c) resp acls) c)"
      by (rule triple_depend) (rule logged_in_owned[OF env])
    with Inr show ?thesis by (cases acls) (simp_all add: keeps_owned_ops)
  qed
  then show ?thesis
    unfolding process_login_resp_def[abs_def] by (intro triple_cond owned_same_ops)
qed

lemma initial_data_owned: "env_ok env \<Longrightarrow> keeps_owned (initial_data env)"
proof (rule keeps_owned_snd)
  fix c assume env: "env_ok env" and o: "owned [] c"
  show "owned [] (snd (initial_data env c))"
  proof (cases "e_reactor env")
    case None
    with o show ?thesis by (simp add: initial_data_def)
  next
    case (Some r)
    obtain w d where d: "on_initial_data r c = (w, d)" by fastforce
    have "owned [] d" using callback_owned[OF _ d o] env Some by (simp add: env_ok_def reactor_ok_def)
    moreover from this have "owned [] (snd (disconnect_current ERR_CLOSED_BY_LOCAL d))"
      using owned_frameI[OF _ current_same] by blast
    ultimately show ?thesis using Some d abort_owned
      by (cases w; cases "disconnect_current ERR_CLOSED_BY_LOCAL d")
        (auto simp: initial_data_def bind_op_def split: sum.split)
  qed
qed

lemma process_snapshot_owned: "env_ok env \<Longrightarrow> keeps_owned (process_snapshot_resp env resp)"
proof -
  assume env: "env_ok env"
  have last: "keeps_owned (\<lambda>c1.
      let c2 = client_set_state INITIALIZED (c1\<lparr>cl_initialized := True\<rparr>)
      in request_data env SYNCING (\<lambda>cid. create_updates_msg cid (m_rev (cl_store c2))) c2)"
    unfolding Let_def
  proof (rule keeps_owned_snd)
    fix c assume o: "owned [] c"
    have "owned [] (c\<lparr>cl_initialized := True\<rparr>)"
      using o by (rule owned_frameI) (simp add: same_queues_def)
    then have "owned [] (client_set_state INITIALIZED (c\<lparr>cl_initialized := True\<rparr>))" by (rule set_state_owned)
    then show "owned [] (snd (request_data env SYNCING (\<lambda>cid. create_updates_msg cid
        (m_rev (cl_store (client_set_state INITIALIZED (c\<lparr>cl_initialized := True\<rparr>)))))
        (client_set_state INITIALIZED (c\<lparr>cl_initialized := True\<rparr>))))"
      by (rule request_data_snd)
  qed
  have load: "keeps_owned (if sres_snapshot resp = None then return_op () else on_store (load (sres_snapshot resp)))"
    by (simp add: triple_return keeps_owned_ops)
  have more: "keeps_owned (\<lambda>c. bind_op (if sres_snapshot resp = None then return_op () else on_store (load (sres_snapshot resp)))
      (\<lambda>_. bind_op (initial_data env) (\<lambda>go. if \<not> go then return_op () else (\<lambda>c1.
         let c2 = client_set_state INITIALIZED (c1\<lparr>cl_initialized := True\<rparr>)
         in request_data env SYNCING (\<lambda>cid. create_updates_msg cid (m_rev (cl_store c2))) c2))) c)"
    using last by (intro triple_bind[OF load] triple_bind[OF initial_data_owned[OF env]])
      (simp add: triple_return)
  then show ?thesis
    unfolding process_snapshot_resp_def[abs_def] by (intro triple_cond owned_same_ops)
qed

lemma process_updates_resp_owned: "keeps_owned (process_updates_resp resp)"
proof -
  have init: "owned [] (client_set_state INITIALIZED (c\<lparr>cl_store := s, cl_initialized := True\<rparr>))"
    if "owned [] c" for c s
    by (rule set_state_owned, rule owned_frameI[OF that]) (simp add: same_queues_def)
  show ?thesis
    unfolding process_updates_resp_def[abs_def] Let_def
    by (intro triple_cond owned_same_ops triple_done) (simp add: init set_state_owned)
qed

lemma discard_older_owned: "owned h c \<Longrightarrow> owned h (discard_older cid c)"
proof -
  let ?old = "takeWhile (\<lambda>r. rq_cid r < cid) (cl_requests c)"
  assume "owned h c"
  then have "owned (concat (map req_promises ?old) @ h)
      (c\<lparr>cl_requests := dropWhile (\<lambda>r. rq_cid r < cid) (cl_requests c)\<rparr>)"
    by (rule owned_take_requests) simp
  then show ?thesis
    unfolding discard_older_def Let_def by (intro drop_all_owned) (simp add: dropWhile_eq_drop)
qed

lemma pop_request_owned: "owned h c \<Longrightarrow> cl_requests c = r # rs \<Longrightarrow> owned (req_promises r @ h) (pop_request c)"
  using owned_take_request by (simp add: pop_request_def)

lemma process_submit_resp_owned: "keeps_owned (process_submit_resp resp)"
proof (rule tripleI)
  have step: "e = Ex_crash \<or> owned [] c'"
    if o: "owned [] c" and run: "process_submit_resp resp c = (q, c')" and e: "q = Inl e \<or> q = Inr u"
    for c q c' e and u :: unit
  proof -
    let ?d = "discard_older (sbres_cid resp) c"
    have d: "owned [] ?d" by (rule discard_older_owned[OF o])
    show ?thesis
    proof (cases "cl_requests ?d")
      case Nil
      then show ?thesis using d run by (simp add: process_submit_resp_def Let_def)
    next
      case (Cons r rs)
      show ?thesis
      proof (cases "rq_cid r = sbres_cid resp")
        case False
        then show ?thesis using d run Cons by (simp add: process_submit_resp_def Let_def)
      next
        case cid: True
        show ?thesis
        proof (cases "rq_kind r")
          case (Submit_req i force)
          have p: "owned [] (pop_request ?d)"
            using pop_request_owned[OF d Cons] Submit_req by (simp add: req_promises_def)
          obtain x t where t: "on_tx i (set_submit_code (sbres_code resp)) (pop_request ?d) = (x, t)" by fastforce
          have "owned [] t" using owned_frameI[OF p on_tx_same[of "pop_request ?d" i "set_submit_code (sbres_code resp)"]] t by simp
          moreover have "owned [] (t\<lparr>cl_accepted := cl_accepted t @ [r\<lparr>rq_erev := sbres_erev resp\<rparr>]\<rparr>)" if "owned [] t"
            using that Submit_req by (auto simp: owned_def queued_def unsatisfied_def req_promises_def)
          ultimately show ?thesis
            using run Cons cid Submit_req t
            by (auto simp: process_submit_resp_def Let_def bind_op_def split: sum.splits if_split_asm)
        qed (use run e Cons cid in \<open>auto simp: process_submit_resp_def Let_def\<close>)
      qed
    qed
  qed
  fix c c' q e u
  show "owned [] c \<Longrightarrow> process_submit_resp resp c = (Inl e, c') \<Longrightarrow> e \<noteq> Ex_crash \<Longrightarrow> owned [] c'"
    using step by blast
  show "owned [] c \<Longrightarrow> process_submit_resp resp c = (Inr u, c') \<Longrightarrow> owned [] c'"
    using step[of c "Inr u" c' Ex_logic_error u] by simp
qed

lemma process_ping_resp_owned: "keeps_owned (process_ping_resp resp)"
proof -
  have "process_ping_resp resp c = (q, c') \<Longrightarrow> owned [] c \<Longrightarrow> q = Inl Ex_crash \<or> owned [] c'" for c q c'
  proof (cases "cl_requests c")
    case (Cons r rs)
    assume run: "process_ping_resp resp c = (q, c')" and o: "owned [] c"
    note p = pop_request_owned[OF o Cons]
    show ?thesis
    proof (cases "rq_kind r")
      case (Ping_req s f)
      then have "owned [f] (pop_request c)" using p by (simp add: req_promises_def)
      then show ?thesis
        using run o Cons Ping_req satisfy_owned owned_put(2)
        by (auto simp: process_ping_resp_def split: if_split_asm)
    qed (use run o Cons in \<open>auto simp: process_ping_resp_def split: if_split_asm\<close>)
  qed (auto simp: process_ping_resp_def)
  then show ?thesis by (intro tripleI) blast+
qed

lemma reactor_runs:
  assumes "env_ok env"
  shows "api_run c (initial_sessions env ss c)" "api_run c (react_to_data env a cs c)"
    "api_run c (case e_reactor env of None \<Rightarrow> c | Some r \<Rightarrow> on_event_session r x c)"
  using assms by (cases "e_reactor env"; simp add: initial_sessions_def react_to_data_def env_ok_def reactor_ok_def)+

lemma drop_after_disconnect:
  assumes "owned (req_promises r) c" "bind_op (disconnect_current rc) (\<lambda>_. modify_op (drop_request r)) c = (q, c')"
  shows "q = Inl Ex_crash \<or> owned [] c'"
proof -
  obtain x d where d: "disconnect_current rc c = (x, d)" by fastforce
  have "owned (req_promises r @ []) d" using owned_frameI[OF assms(1) current_same[of c rc]] d by simp
  then have "owned [] (drop_request r d)" by (rule drop_owned)
  moreover have "x = Inl Ex_crash \<or> x = Inr ()"
    using d by (auto simp: disconnect_current_def disconnect_con_def on_connection_def split: option.splits)
  ultimately show ?thesis using assms(2) d by (auto simp: bind_op_def)
qed

lemma process_sessions_resp_owned: "env_ok env \<Longrightarrow> keeps_owned (process_sessions_resp env resp)"
proof -
  assume env: "env_ok env"
  have "process_sessions_resp env resp c = (q, c') \<Longrightarrow> owned [] c \<Longrightarrow> q = Inl Ex_crash \<or> owned [] c'" for c q c'
  proof (cases "cl_requests c")
    case (Cons r rs)
    assume run: "process_sessions_resp env resp c = (q, c')" and o: "owned [] c"
    have p: "owned (req_promises r) (pop_request c)" using pop_request_owned[OF o Cons] by simp
    let ?unexpected = "bind_op (disconnect_current ERR_MSG_UNEXPECTED) (\<lambda>_. modify_op (drop_request r)) (pop_request c)"
    show ?thesis
    proof (cases "rq_cid r = ssres_cid resp")
      case False
      then show ?thesis using run o Cons by (simp add: process_sessions_resp_def)
    next
      case cid: True
      show ?thesis
      proof (cases "rq_kind r")
        case (Sessions_req stream f)
        show ?thesis
        proof (cases "None \<in> set (vector (ssres_sessions resp))")
          case True
          then show ?thesis
            using run Cons cid Sessions_req drop_after_disconnect[OF p]
            by (simp add: process_sessions_resp_def Let_def)
        next
          case False
          have "owned [f] (pop_request c)" using p Sessions_req by (simp add: req_promises_def)
          then have f: "owned [f] ((pop_request c)\<lparr>cl_sessions_cid := n\<rparr>)" for n
            by (rule owned_frameI) (simp add: same_queues_def)
          from run Cons cid Sessions_req False show ?thesis
            using satisfy_owned[OF f] owned_put(2)[OF f] api_run_owned[OF reactor_runs(1)[OF env]]
            by (auto simp: process_sessions_resp_def Let_def bind_op_def)
        qed
      next
        case (Submit_req i f)
        then have "?unexpected = (q, c')" using run Cons cid by (simp add: process_sessions_resp_def Let_def)
        then show ?thesis by (rule drop_after_disconnect[OF p])
      next
        case (Ping_req s f)
        then have "?unexpected = (q, c')" using run Cons cid by (simp add: process_sessions_resp_def Let_def)
        then show ?thesis by (rule drop_after_disconnect[OF p])
      qed
    qed
  qed (auto simp: process_sessions_resp_def)
  then show ?thesis by (intro tripleI) blast+
qed

text \<open>Updates.\<close>

lemma discard_accepted_owned: "keeps_owned (discard_accepted rv)"
proof -
  have pop: "owned [] (pop_accepted c)" if "owned [] c" for c
    using that by (cases "cl_accepted c")
      (auto simp: pop_accepted_def owned_def queued_def unsatisfied_def)
  have turn: "keeps_owned (bind_op (modify_op pop_accepted) (\<lambda>_. case rq_kind r of
      Submit_req i force \<Rightarrow> on_tx i (set_submit_error Ex_unexpected_update) | _ \<Rightarrow> raise_op Ex_crash))" for r
    by (rule triple_bind[where Q = "\<lambda>_. owned []"], rule triple_modify, erule pop)
      (auto simp: keeps_owned_ops triple_crash split: req_kind.split)
  have loop: "keeps_owned (bind_op (each_op (\<lambda>r. bind_op (modify_op pop_accepted) (\<lambda>_. case rq_kind r of
      Submit_req i force \<Rightarrow> on_tx i (set_submit_error Ex_unexpected_update) | _ \<Rightarrow> raise_op Ex_crash)) rs)
      (\<lambda>_. return_op ()))" for rs
    by (rule triple_bind[where Q = "\<lambda>_. owned []"], rule triple_each, rule turn) (simp add: triple_return)
  show ?thesis unfolding discard_accepted_def[abs_def] by (rule triple_depend) (rule loop)
qed

lemma confirm_accepted_owned: "keeps_owned (confirm_accepted rv)"
proof -
  have "confirm_accepted rv c = (q, c') \<Longrightarrow> owned [] c \<Longrightarrow> q = Inl Ex_crash \<or> owned [] c'" for c q c'
  proof (cases "cl_accepted c")
    case (Cons r rs)
    assume run: "confirm_accepted rv c = (q, c')" and o: "owned [] c"
    have p: "owned [] (pop_accepted c)" using o Cons
      by (auto simp: pop_accepted_def owned_def queued_def unsatisfied_def)
    then have "owned [] (snd (on_tx i confirm_commit (pop_accepted c)))" for i by simp
    then show ?thesis
      using run o Cons
      by (cases "rq_kind r") (auto simp: confirm_accepted_def split: if_split_asm, metis snd_conv)
  qed (auto simp: confirm_accepted_def)
  then show ?thesis by (intro tripleI) blast+
qed

lemma notify_same: "notify_txs cs is c = (kept, n, c') \<Longrightarrow> same_queues c c'"
proof (induction cs "is" c arbitrary: kept n rule: notify_txs.induct)
  case (2 cs i "is" c)
  then show ?case
    by (auto simp: same_queues_def split: if_split_asm tx_state_e.splits prod.splits)
qed simp

lemma update_transactions_same: "same_queues c (update_transactions cs c)"
proof -
  obtain kept n d where d: "notify_txs cs (cl_transactions c) c = (kept, n, d)"
    by (cases "notify_txs cs (cl_transactions c) c") auto
  with notify_same[OF d] show ?thesis
    by (simp add: update_transactions_def same_queues_def purge_unused_txs_def Let_def)
qed

lemma process_update_owned: "env_ok env \<Longrightarrow> keeps_owned (process_update env upd)"
proof -
  assume env: "env_ok env"
  have tail: "keeps_owned (bind_op (discard_accepted rv) (\<lambda>_.
      bind_op (modify_op (update_transactions cs)) (\<lambda>_.
      bind_op (confirm_accepted rv) (\<lambda>_. modify_op (react_to_data env a cs)))))" for rv a cs
    by (rule triple_bind[OF discard_accepted_owned], rule triple_bind[where Q = "\<lambda>_. owned []"],
        rule triple_modify, erule owned_frameI[OF _ update_transactions_same],
        rule triple_bind[OF confirm_accepted_owned], rule triple_modify)
      (erule api_run_owned[OF reactor_runs(2)[OF env]])
  have mid: "keeps_owned (case p of (cs, meta) \<Rightarrow> (case meta of None \<Rightarrow> raise_op Ex_crash
      | Some a \<Rightarrow> (\<lambda>c1.
          let rv = meta_rev (heap (cl_store c1) ! a)
          in bind_op (discard_accepted rv) (\<lambda>_.
             bind_op (modify_op (update_transactions cs)) (\<lambda>_.
             bind_op (confirm_accepted rv) (\<lambda>_. modify_op (react_to_data env a cs)))) c1)))" for p
    unfolding Let_def
    by (cases p; cases "snd p") (auto simp: triple_crash intro: triple_depend tail)
  show ?thesis
    unfolding process_update_def[abs_def] by (rule triple_bind[OF keeps_owned_ops(1) mid])
qed

lemma push_update_owned: "env_ok env \<Longrightarrow> keeps_owned (push_update env crev upd)"
  unfolding push_update_def
  by (rule triple_bind[OF process_update_owned], assumption, rule triple_modify) (simp add: set_state_owned)

lemma process_updates_push_owned: "env_ok env \<Longrightarrow> keeps_owned (process_updates_push env resp)"
proof -
  assume env: "env_ok env"
  have "keeps_owned (bind_op (each_op (push_update env crev) us) (\<lambda>_. return_op ()))" for crev us
    by (rule triple_bind[where Q = "\<lambda>_. owned []"], rule triple_each, rule push_update_owned[OF env])
      (simp add: triple_return)
  then show ?thesis
    unfolding process_updates_push_def[abs_def] by (intro triple_cond owned_same_ops)
qed

lemma process_sessions_push_owned: "env_ok env \<Longrightarrow> keeps_owned (process_sessions_push env resp)"
proof -
  assume env: "env_ok env"
  have "keeps_owned (\<lambda>c. case spush_session resp of None \<Rightarrow> disconnect_current ERR_MSG_ERROR c
      | Some m \<Rightarrow> (Inr (), case e_reactor env of None \<Rightarrow> c | Some r \<Rightarrow> on_event_session r (to_session_t m) c))"
  proof (cases "spush_session resp")
    case (Some m)
    have "keeps_owned (\<lambda>c. (Inr (), case e_reactor env of None \<Rightarrow> c | Some r \<Rightarrow> on_event_session r (to_session_t m) c))"
      by (rule triple_done) (rule api_run_owned[OF reactor_runs(3)[OF env]])
    with Some show ?thesis by simp
  qed (simp add: keeps_owned_ops)
  then show ?thesis
    unfolding process_sessions_push_def[abs_def] by (intro triple_cond owned_same_ops)
qed

lemma on_msg_received_owned: "env_ok env \<Longrightarrow> keeps_owned (on_msg_received env i m)"
proof -
  assume env: "env_ok env"
  note ops = process_submit_resp_owned process_snapshot_owned[OF env] process_updates_resp_owned
    process_updates_push_owned[OF env] process_ping_resp_owned process_sessions_resp_owned[OF env]
    process_sessions_push_owned[OF env] keeps_owned_ops
  have report: "owned [] (report_server_activity c)" if "owned [] c" for c
    using that report_same by (rule owned_frameI)
  have keep: "keeps_owned (process_keepalive_push resp)" for resp
    unfolding process_keepalive_push_def by (rule triple_return)
  have main: "keeps_owned (\<lambda>c. if cl_con c \<noteq> Some i then disconnect_con ERR_ALREADY_CONNECTED i c
      else h (report_server_activity c))" if "keeps_owned h" for h :: "(client, unit) op"
    by (intro triple_cond keeps_owned_ops triple_start[OF that report])
  show ?thesis
  proof (cases "msg_content m")
    case None
    then show ?thesis unfolding on_msg_received_def[abs_def] by (simp add: keeps_owned_ops)
  next
    case (Some content)
    then show ?thesis
      unfolding on_msg_received_def[abs_def] Let_def
      by (cases content) (simp_all add: main[OF keep] ops[THEN main] process_login_owned[OF env]
          cong del: if_weak_cong)
  qed
qed

section \<open>Events\<close>

text \<open>What holds after a callback, thrown or not.\<close>

definition sane :: "outcome \<Rightarrow> bool" where
  "sane w \<longleftrightarrow> fst w = Inl Ex_crash \<or> owned [] (snd w)"

lemma triple_sane:
  assumes "keeps_owned m" "owned [] c"
  shows "sane (m c)"
proof -
  obtain r t where m: "m c = (r, t)" by fastforce
  show ?thesis
  proof (cases r)
    case (Inl e)
    then show ?thesis using triple_Inl[OF assms] m by (auto simp: sane_def)
  next
    case (Inr a)
    then show ?thesis using triple_Inr[OF assms] m by (simp add: sane_def)
  qed
qed

lemma unless_thrown_sane: "keeps_owned f \<Longrightarrow> sane w \<Longrightarrow> sane (unless_thrown f w)"
  using triple_sane[of f "snd w"]
  by (cases w; cases "fst w") (auto simp: unless_thrown_def sane_def)

lemma update_con_sane: "sane w \<Longrightarrow> sane (unless_thrown (modify_op (update_con i f)) w)"
  by (rule unless_thrown_sane, rule triple_modify) (rule owned_frameI[OF _ update_con_same])

text \<open>The loop over the buffer keeps what its handler and the updates of the connection keep.\<close>

lemma parsed_decoded: "parse_network_msg decode buf n = Some m \<Longrightarrow> \<exists>x. decode x = Some m"
  by (auto simp: parse_network_msg_def split: if_split_asm option.splits)

lemma read_loop_keeps:
  "(\<And>m w. \<exists>x. decode x = Some m \<Longrightarrow> P w \<Longrightarrow> P (h m w)) \<Longrightarrow> (\<And>f w. P w \<Longrightarrow> P (upd f w)) \<Longrightarrow> P w \<Longrightarrow>
     P (read_loop decode h upd buf w)"
proof (induction decode h upd buf w rule: read_loop.induct)
  case (1 decode h upd buf w)
  show ?case
  proof (cases "length buf < 4 \<or> length buf < unat (ntohl_ptr buf)")
    case True
    then show ?thesis using "1.prems" by (subst read_loop.simps) (auto simp: Let_def)
  next
    case enough: False
    show ?thesis
    proof (cases "parse_network_msg decode buf (unat (ntohl_ptr buf))")
      case None
      with enough "1.prems" show ?thesis by (subst read_loop.simps) (simp add: Let_def)
    next
      case (Some m)
      let ?n = "unat (ntohl_ptr buf)"
      have "P (read_loop decode h upd (drop ?n buf)
          (upd (\<lambda>c. c\<lparr>c_input := drop ?n buf\<rparr>) (h m (upd (count_msg ?n) w))))"
        using enough "1.prems" parsed_decoded[OF Some] by (intro "1.IH"[OF _ refl _ Some refl]) simp_all
      with enough Some show ?thesis by (subst read_loop.simps) (simp add: Let_def)
    qed
  qed
qed

lemma cb_tcp_read_keeps:
  assumes "\<And>m w. \<exists>x. decode x = Some m \<Longrightarrow> P w \<Longrightarrow> P (h m w)" "\<And>f w. P w \<Longrightarrow> P (upd f w)" "P w"
  shows "P (cb_tcp_read decode h upd get nread base w)"
proof -
  note upd = assms(2)
  have "P (read_loop decode h upd buf (upd f w))" for buf f
    by (rule read_loop_keeps[of decode P h upd, OF assms(1) upd upd[OF assms(3)]])
  then show ?thesis using upd[OF assms(3)] assms(3) by (simp add: cb_tcp_read_def Let_def)
qed

lemma con_read_sane:
  assumes "env_ok env" "owned [] c"
  shows "sane (con_read decode env i nread base c)"
  unfolding con_read_def
proof (rule cb_tcp_read_keeps)
  show "sane (unless_thrown (on_msg_received env i m) w)" if "sane w" for m w
    using on_msg_received_owned[OF assms(1)] that by (rule unless_thrown_sane)
  show "sane (unless_thrown (modify_op (update_con i f)) w)" if "sane w" for f w
    using that by (rule update_con_sane)
  show "sane (Inr (), c)" using assms(2) by (simp add: sane_def)
qed

lemma con_connected_owned: "keeps_owned (con_connected env i status)"
proof (rule keeps_owned_snd)
  fix c assume o: "owned [] c"
  obtain told k where k: "cb_tcp_connect status (cl_connections c ! i) = (told, k)" by fastforce
  have "owned [] (update_con i (\<lambda>_. k) c)" using o update_con_same by (rule owned_frameI)
  then show "owned [] (snd (con_connected env i status c))"
    using k established_snd by (simp add: con_connected_def Let_def)
qed

lemma con_written_same: "same_queues c (con_written i status c)"
proof -
  obtain told k where "cb_tcp_write status (cl_connections c ! i) = (told, k)" by fastforce
  then show ?thesis
    by (simp add: con_written_def on_msg_delivered_def report_server_activity_def update_con_def
        same_queues_def Let_def)
qed

lemma handle_event_sane:
  assumes "env_ok env" "owned [] c"
  shows "sane (handle_event decode env ev c)"
proof (cases ev)
  case (Ev_connected i status)
  then show ?thesis using triple_sane[OF con_connected_owned assms(2)] by (simp add: handle_event_def)
next
  case (Ev_written i status)
  then show ?thesis using owned_frameI[OF assms(2) con_written_same] by (simp add: handle_event_def sane_def)
next
  case (Ev_read i nread base)
  then show ?thesis using con_read_sane[OF assms] by (simp add: handle_event_def)
next
  case (Ev_closed i)
  have "owned [] (update_con i cb_tcp_close c)" using assms(2) update_con_same by (rule owned_frameI)
  from triple_sane[OF on_connection_closed_owned[OF assms(1)] this] Ev_closed
  show ?thesis by (simp add: handle_event_def con_closed_def)
next
  case Ev_timer_lost
  have "owned [] (c\<lparr>cl_timer_lost := t\<rparr>)" for t
    using assms(2) by (rule owned_frameI) (simp add: same_queues_def)
  from triple_sane[OF on_connection_lost_owned this] Ev_timer_lost show ?thesis by (simp add: handle_event_def)
next
  case Ev_timer_reconnect
  have "owned [] (c\<lparr>cl_timer_reconnect := t\<rparr>)" for t
    using assms(2) by (rule owned_frameI) (simp add: same_queues_def)
  from triple_sane[OF try_to_connect_owned this] Ev_timer_reconnect show ?thesis by (simp add: handle_event_def)
next
  case Ev_async
  have "owned [] (c\<lparr>cl_async := False\<rparr>)"
    using assms(2) by (rule owned_frameI) (simp add: same_queues_def)
  then have "owned [] (snd (process_commands env (c\<lparr>cl_async := False\<rparr>)))"
    by (rule process_commands_owned) (rule prod.collapse[symmetric])
  then show ?thesis using Ev_async by (simp add: handle_event_def sane_def)
next
  case Ev_signal
  then show ?thesis using abort_owned[OF assms(2)] by (simp add: handle_event_def sane_def)
qed

lemma run_begin_sane: "env_ok env \<Longrightarrow> owned [] c \<Longrightarrow> sane (case run_begin env c of (r, c') \<Rightarrow> (map_sum id (\<lambda>_. ()) r, c'))"
proof (cases "cl_running c \<or> cl_state c \<noteq> OFFLINE")
  case True
  assume "owned [] c"
  with True show ?thesis by (simp add: run_begin_def sane_def)
next
  case False
  assume "owned [] c"
  then have "owned [] (c\<lparr>cl_running := True, cl_error := None, cl_con := None\<rparr>)"
    by (rule owned_frameI) (simp add: same_queues_def)
  from triple_sane[OF try_to_connect_owned this, of env] False show ?thesis
    by (auto simp: run_begin_def sane_def bind_op_def split: prod.split sum.split)
qed

section \<open>The properties\<close>

lemma new_client_owned: "new_client uv_ok now p = Inr c \<Longrightarrow> owned [] c"
  by (auto simp: new_client_def owned_def queued_def unsatisfied_def Let_def split: if_split_asm sum.splits)

lemma reach_owned: "reach decode r c \<Longrightarrow> r = Inl Ex_crash \<or> owned [] c"
proof (induction rule: reach.induct)
  case (reach_new uv_ok now p c)
  then show ?case using new_client_owned by blast
next
  case (reach_rev c r q c')
  then show ?case
    by (auto simp: set_initial_rev_def same_queues_def elim!: owned_frameI split: if_split_asm)
next
  case (reach_begin_stop c env e c')
  then show ?case using run_begin_sane[of env c] by (auto simp: sane_def)
next
  case (reach_begin c env go c')
  then show ?case using run_begin_sane[of env c] by (auto simp: sane_def)
next
  case (reach_api c c')
  then show ?case using api_owned by blast
next
  case (reach_event c env ev r c')
  then show ?case using handle_event_sane[of env c decode ev] by (auto simp: sane_def)
qed

lemma each_op_no_crash:
  "(\<And>x s d. f x s \<noteq> (Inl Ex_crash, d)) \<Longrightarrow> each_op f xs s \<noteq> (Inl Ex_crash, d)"
proof (induction xs arbitrary: s)
  case (Cons x xs)
  obtain r t where "f x s = (r, t)" by fastforce
  with Cons show ?case by (cases r) (auto split: prod.split sum.split)
qed simp

lemma cancel_no_crash: "cancel r c \<noteq> (Inl Ex_crash, d)"
  by (auto simp: cancel_def on_tx_def satisfy_future_def set_submit_error_def satisfy_def
      split: req_kind.splits prod.splits option.splits if_split_asm)

lemma cancel_turn_no_crash:
  "bind_op (modify_op pop) (\<lambda>_. bind_op (cancel r) (\<lambda>_. modify_op (drop_request r))) s \<noteq> (Inl Ex_crash, d)"
  using cancel_no_crash[of r "pop s" d] by (auto simp: bind_op_def split: prod.splits sum.splits)

lemma cancel_requests_no_crash: "cancel_requests c \<noteq> (Inl Ex_crash, d)"
proof -
  have loop: "each_op (\<lambda>r. bind_op (modify_op pop) (\<lambda>_. bind_op (cancel r) (\<lambda>_. modify_op (drop_request r)))) rs s \<noteq>
      (Inl Ex_crash, d)" for pop rs s
    by (rule each_op_no_crash) (rule cancel_turn_no_crash)
  show ?thesis
    using loop[of pop_request "cl_requests c" c] loop[of pop_accepted "cl_accepted c"]
    by (auto simp: cancel_requests_def bind_op_def[of "each_op _ _"] split: prod.splits sum.splits)
qed

lemma clear_all_fields:
  "cl_commands (clear_accepted (clear_requests (clear_commands c))) = [] \<and>
   cl_requests (clear_accepted (clear_requests (clear_commands c))) = []"
proof -
  have "cl_commands (fold drop_command cs d) = cl_commands d \<and> cl_requests (fold drop_command cs d) = cl_requests d"
    for cs d
    by (induction cs arbitrary: d) (simp_all add: drop_command_def split: command.split)
  then show ?thesis by (simp add: clear_accepted_def clear_requests_def clear_commands_def)
qed

lemma run_end_owned:
  assumes "owned [] c"
  shows "owned [] (run_end r c)" "queued (run_end r c) = []"
proof -
  let ?c1 = "case r of Inl e \<Rightarrow> c\<lparr>cl_error := Some e\<rparr> | Inr _ \<Rightarrow> c"
  let ?m = "bind_op cancel_requests
     (\<lambda>_. modify_op (\<lambda>d. d\<lparr>cl_connections := map (disconnect ERR_CLOSED_BY_LOCAL) (cl_connections d)\<rparr>))"
  have "owned [] ?c1"
    using assms by (cases r) (auto elim: owned_frameI simp: same_queues_def)
  then have start: "owned [] (client_set_state CLOSED ?c1)" by (rule set_state_owned)
  obtain q c2 where m: "?m (client_set_state CLOSED ?c1) = (q, c2)" by fastforce
  have tr: "keeps_owned ?m"
    by (rule triple_bind[OF cancel_requests_owned], rule triple_modify)
      (auto elim: owned_frameI simp: same_queues_def)
  have "q \<noteq> Inl Ex_crash"
    using m cancel_requests_no_crash by (auto simp: bind_op_def split: prod.splits sum.splits)
  then have "owned [] c2" using triple_sane[OF tr start] m by (simp add: sane_def)
  moreover define c3 where "c3 = (case q of Inl e \<Rightarrow> c2\<lparr>cl_error := Some e\<rparr> | Inr _ \<Rightarrow> c2)"
  ultimately have "owned [] (c3\<lparr>cl_transactions := [], cl_connections := []\<rparr>)"
    by (cases q) (auto elim: owned_frameI simp: same_queues_def)
  then have all: "owned [] (clear_accepted (clear_requests (clear_commands
      (c3\<lparr>cl_transactions := [], cl_connections := []\<rparr>))))" (is "owned [] ?d")
    by (intro clear_accepted_owned clear_requests_owned clear_commands_owned)
  have e: "run_end r c = ?d\<lparr>cl_con := None, cl_timer_lost := None, cl_timer_reconnect := None, cl_running := False\<rparr>"
    unfolding run_end_def Let_def m prod.case c3_def ..
  show "owned [] (run_end r c)"
    unfolding e using all by (rule owned_frameI) (simp add: same_queues_def)
  show "queued (run_end r c) = []"
    unfolding e using clear_all_fields[of "c3\<lparr>cl_transactions := [], cl_connections := []\<rparr>"]
    by (simp add: queued_def)
qed

text \<open>
  C7: No future of \<open>ping\<close> or \<open>fetch_sessions\<close> is forgotten: in every history of a program, its callbacks
  included, and also where an exception has ended the event loop, each promise that is not satisfied
  belongs to exactly one command or request in the queues, each promise queued is not satisfied, and
  when \<open>run\<close> returns every future has its value or an exception.
\<close>

theorem futures_owned:
  assumes "reach decode r c" "r \<noteq> Inl Ex_crash"
  shows "distinct (queued c) \<and>
    (\<forall>p. p \<in> set (queued c) \<longleftrightarrow> p < length (cl_futures c) \<and> cl_futures c ! p = None) \<and>
    (\<forall>p < length (cl_futures (run_end r c)). cl_futures (run_end r c) ! p \<noteq> None)"
proof -
  have o: "owned [] c" using reach_owned[OF assms(1)] assms(2) by simp
  then have "distinct (queued c)" "set (queued c) = unsatisfied c" by (simp_all add: owned_def)
  moreover have "unsatisfied (run_end r c) = {}" using run_end_owned[OF o] by (simp add: owned_def)
  ultimately show ?thesis by (auto simp: unsatisfied_def)
qed

text \<open>A world that answers every call and calls nothing back, and a client for it.\<close>

definition idle_env :: env where
  "idle_env =
     \<lparr>e_encode = (\<lambda>m. [1, 2, 3]), e_write = (\<lambda>c. 0), e_connect = (\<lambda>i. \<lparr>uv_init_rc = 0, uv_nodelay_rc = 0,
        uv_addr_ok = True, uv_connect_rc = 0\<rparr>),
      e_established = (\<lambda>i c. (Some (), c)), e_lost = (\<lambda>i c. (Some False, c)),
      e_failed = (\<lambda>c. (Some 500, c)), e_reactor = None\<rparr>"

definition sample_params :: client_params where
  "sample_params =
     \<lparr>p_user = ''ann'', p_password = ''secret'', p_servers = [14022], p_max_active_txs = 0,
      p_connection = \<lparr>max_unack_msgs = 0, max_unack_bytes = 0\<rparr>, p_timeout = (\<lambda>k. 2 * ucast k)\<rparr>"

definition sample_client :: client where
  "sample_client = projr (new_client True 0 sample_params)"

lemma idle_env_ok: "env_ok idle_env"
  by (simp add: env_ok_def idle_env_def)

lemma sample_client_new: "new_client True 0 sample_params = Inr sample_client"
  by (simp add: sample_client_def new_client_def sample_params_def connection_create_def Let_def)

lemma sample_client_reach: "reach decode (Inr ()) sample_client"
  by (rule reach_new[OF sample_client_new])

theorem futures_owned_witness:
  "\<exists>c. ping idle_env False ''x'' sample_client = (Inr 0, c) \<and> cl_futures c = [None] \<and> set (queued c) = {0} \<and>
     (\<forall>p < length (cl_futures (run_end (Inr ()) c)). cl_futures (run_end (Inr ()) c) ! p \<noteq> None)"
proof -
  obtain c where c: "ping idle_env False ''x'' sample_client = (Inr 0, c)" "cl_futures c = [None]"
    by (simp add: ping_def push_command_def sample_client_def new_client_def sample_params_def
        connection_create_def Let_def is_closed_def bind_op_def)
  have reach: "reach (\<lambda>_. None) (Inr ()) c"
    by (rule reach_api[OF sample_client_reach], rule api_ping, rule c(1))
  note P = futures_owned[OF reach]
  then have "set (queued c) = {0}" using c(2) by auto
  with P c show ?thesis by blast
qed

end
