(* ===== verification/Nplex_Client_Faults.thy ===== *)
theory Nplex_Client_Faults
  imports Nplex_Client_Futures
begin

text \<open>
  Where the client does not do what its documentation says: what happens after no server could be
  reached, what a submission is told when the client closes, how many commands a client without limit
  accepts, and what a reconnection does to a client that started without a snapshot.
\<close>

section \<open>No server\<close>

text \<open>What the events of connections and timers can still do, and whether they can occur.\<close>

definition only_user :: "client \<Rightarrow> bool" where
  "only_user c \<longleftrightarrow> (\<forall>ev. enabled ev c \<longrightarrow> ev = Ev_async \<or> ev = Ev_signal)"

lemma closed_no_events:
  assumes "\<forall>k \<in> set (cl_connections c). c_state k = C_CLOSED \<and> c_pending k = []"
    "cl_timer_lost c = None" "cl_timer_reconnect c = None"
  shows "only_user c"
  unfolding only_user_def
proof (intro allI impI)
  fix ev assume "enabled ev c"
  moreover have "c_state (cl_connections c ! i) = C_CLOSED \<and> c_pending (cl_connections c ! i) = []"
    if "i < length (cl_connections c)" for i
    using that assms(1) by simp
  ultimately show "ev = Ev_async \<or> ev = Ev_signal"
    using assms(2,3) by (cases ev) (auto simp: enabled_def due_def)
qed

text \<open>
  C37: After every server has refused, a manager that answers with a time to wait is told in vain: the
  reconnect timer is started, but the state stays \<open>CONNECTING\<close>, and when the timer fires
  \<open>try_to_connect\<close> leaves every connection as it is.  From then on no event of a connection or a timer
  can occur; only the program or a signal can still end the client.
\<close>

theorem retry_never_connects:
  assumes "cl_state c = CONNECTING" "cl_con c = None" "cl_timer_lost c = None"
    and "\<forall>k \<in> set (cl_connections c). c_state k = C_CLOSED \<and> c_pending k = []"
    and "e_failed env c = (Some wait, c)" "0 \<le> wait" "wait < 2 ^ 31"
  shows "\<exists>c1. on_connection_closed env i c = (Inr (), c1) \<and>
    cl_timer_reconnect c1 = Some \<lparr>t_due = cl_now c div 1000 + nat wait, t_repeat = 0\<rparr> \<and>
    (\<forall>n env'. let (r, c2) = handle_event decode env' Ev_timer_reconnect (c1\<lparr>cl_now := n\<rparr>)
       in r = Inr () \<and> cl_connections c2 = cl_connections c \<and> cl_state c2 = CONNECTING \<and> only_user c2)"
proof -
  let ?t = "\<lparr>t_due = cl_now c div 1000 + nat wait, t_repeat = 0\<rparr>"
  have open_c: "\<not> is_closed c" using assms(1) by (simp add: is_closed_def)
  have all: "are_all_connections_closed (cl_connections c)"
    using assms(4) by (simp add: are_all_connections_closed_def list_all_iff)
  have "unat (word_of_int wait :: u32) = nat wait"
    using assms(6,7) by (simp add: unsigned_of_int take_bit_int_eq_self)
  then have closed: "on_connection_closed env i c = (Inr (), c\<lparr>cl_timer_reconnect := Some ?t\<rparr>)"
    using assms(2,5,6) open_c all
    by (simp add: on_connection_closed_def connection_failed_def schedule_reconnect_def)
  have "let (r, c2) = handle_event decode env' Ev_timer_reconnect (c\<lparr>cl_timer_reconnect := Some ?t, cl_now := n\<rparr>)
       in r = Inr () \<and> cl_connections c2 = cl_connections c \<and> cl_state c2 = CONNECTING \<and> only_user c2" for n env'
    using assms(1,3,4) by (auto simp: handle_event_def try_to_connect_def intro!: closed_no_events)
  with closed show ?thesis by (intro exI[of _ "c\<lparr>cl_timer_reconnect := Some ?t\<rparr>"]) simp
qed

text \<open>The sample client tries its server and is refused.\<close>

definition refused_client :: client where
  "refused_client =
     update_con 0 cb_tcp_close (snd (handle_event (\<lambda>_. None) idle_env (Ev_connected 0 (- 111))
       (snd (run_begin idle_env sample_client))))"

lemmas sample_evals = run_begin_def try_to_connect_def sample_client_def new_client_def
  connection_create_def sample_params_def idle_env_def handle_event_def con_connected_def
  cb_tcp_connect_def on_connection_def connect_def bind_op_def update_con_def disconnect_def
  client_set_state_def is_closed_def cb_tcp_close_def zero_stats_def

lemma refused_eval:
  "cl_state refused_client = CONNECTING" "cl_con refused_client = None"
  "cl_timer_lost refused_client = None" "cl_now refused_client = 0"
  "map (\<lambda>k. (c_state k, c_pending k)) (cl_connections refused_client) = [(C_CLOSED, [])]"
  by (simp_all add: refused_client_def sample_evals Let_def)

theorem retry_never_connects_witness:
  "\<exists>c1. on_connection_closed idle_env 0 refused_client = (Inr (), c1) \<and>
     cl_timer_reconnect c1 = Some \<lparr>t_due = 500, t_repeat = 0\<rparr>"
proof -
  have k: "\<forall>k \<in> set (cl_connections refused_client). c_state k = C_CLOSED \<and> c_pending k = []"
    using refused_eval(5) by auto
  have "e_failed idle_env refused_client = (Some 500, refused_client)" by (simp add: idle_env_def)
  from retry_never_connects[OF refused_eval(1-3) k this, of 0] refused_eval(4) show ?thesis by fastforce
qed

section \<open>Submissions when the client closes\<close>

lemma fold_drop_heap [simp]:
  "cl_heap (drop_request r c) = cl_heap c" "cl_heap (fold drop_request rs c) = cl_heap c"
  "cl_heap (drop_command cmd c) = cl_heap c" "cl_heap (fold drop_command cmds c) = cl_heap c"
proof -
  show 1: "cl_heap (drop_request r c) = cl_heap c" for r c
    by (simp add: drop_request_def break_promise_def split: req_kind.split)
  show 2: "cl_heap (drop_command cmd c) = cl_heap c" for cmd c
    using 1 by (simp add: drop_command_def split: command.split)
  show "cl_heap (fold drop_request rs c) = cl_heap c"
    by (induction rs arbitrary: c) (simp_all add: 1)
  show "cl_heap (fold drop_command cmds c) = cl_heap c"
    by (induction cmds arbitrary: c) (simp_all add: 2)
qed

lemma fold_command_fields [simp]:
  "cl_requests (fold drop_command cmds c) = cl_requests c" "cl_accepted (fold drop_command cmds c) = cl_accepted c"
  "cl_commands (fold drop_command cmds c) = cl_commands c" "cl_state (fold drop_command cmds c) = cl_state c"
proof -
  have 1: "cl_requests (drop_command cmd c) = cl_requests c \<and> cl_accepted (drop_command cmd c) = cl_accepted c \<and>
      cl_commands (drop_command cmd c) = cl_commands c \<and> cl_state (drop_command cmd c) = cl_state c" for cmd c
    by (simp add: drop_command_def split: command.split)
  have "cl_requests (fold drop_command cmds c) = cl_requests c \<and> cl_accepted (fold drop_command cmds c) = cl_accepted c \<and>
      cl_commands (fold drop_command cmds c) = cl_commands c \<and> cl_state (fold drop_command cmds c) = cl_state c"
    by (induction cmds arbitrary: c) (simp_all add: 1)
  then show "cl_requests (fold drop_command cmds c) = cl_requests c" "cl_accepted (fold drop_command cmds c) = cl_accepted c"
    "cl_commands (fold drop_command cmds c) = cl_commands c" "cl_state (fold drop_command cmds c) = cl_state c"
    by simp_all
qed

definition no_queue :: "client \<Rightarrow> bool" where
  "no_queue c \<longleftrightarrow> cl_commands c = [] \<and> cl_requests c = [] \<and> cl_accepted c = []"

lemma set_closed:
  assumes "cl_state c \<noteq> CLOSED"
  shows "no_queue (client_set_state CLOSED c)" "cl_heap (client_set_state CLOSED c) = cl_heap c"
    "cl_state (client_set_state CLOSED c) = CLOSED"
  using assms
  by (simp_all add: client_set_state_def no_queue_def clear_accepted_def clear_requests_def
      clear_commands_def Let_def)

lemma abort_closed:
  assumes "cl_state c \<noteq> CLOSED"
  shows "no_queue (client_abort e c)" "cl_heap (client_abort e c) = cl_heap c" "cl_state (client_abort e c) = CLOSED"
proof -
  let ?c = "c\<lparr>cl_error := Some e, cl_con := None, cl_data_cid := 0, cl_sessions_cid := 0,
    cl_connections := map (disconnect ERR_CLOSED_BY_LOCAL) (cl_connections c),
    cl_timer_lost := None, cl_timer_reconnect := None\<rparr>"
  have "cl_state ?c \<noteq> CLOSED" using assms by simp
  note S = set_closed[OF this]
  show "no_queue (client_abort e c)" "cl_heap (client_abort e c) = cl_heap c" "cl_state (client_abort e c) = CLOSED"
    using S assms by (simp_all add: client_abort_def is_closed_def clear_commands_def no_queue_def Let_def)
qed

lemma cancel_requests_empty: "no_queue c \<Longrightarrow> cancel_requests c = (Inr (), c)"
  by (simp add: cancel_requests_def no_queue_def bind_op_def)

lemma run_end_heap:
  assumes "cl_state c \<noteq> CLOSED \<or> no_queue c"
  shows "cl_heap (run_end r c) = cl_heap c" "no_queue (run_end r c)"
proof -
  let ?c1 = "case r of Inl e \<Rightarrow> c\<lparr>cl_error := Some e\<rparr> | Inr _ \<Rightarrow> c"
  let ?s = "client_set_state CLOSED ?c1"
  have s: "no_queue ?s" "cl_heap ?s = cl_heap c"
  proof -
    have f: "cl_state ?c1 = cl_state c" "cl_heap ?c1 = cl_heap c" "no_queue ?c1 = no_queue c"
      by (cases r; simp add: no_queue_def)+
    show "no_queue ?s" "cl_heap ?s = cl_heap c"
      using assms f set_closed[of ?c1] by (cases "cl_state c = CLOSED"; simp add: client_set_state_def)+
  qed
  show "cl_heap (run_end r c) = cl_heap c" "no_queue (run_end r c)"
    using s by (simp_all add: run_end_def Let_def bind_op_def cancel_requests_empty
        clear_accepted_def clear_requests_def clear_commands_def no_queue_def)
qed


definition written_tx :: tx where
  "written_tx = snd (upsert empty_store (Some ''b'') ''9'' (new_tx SERIALIZABLE False None empty_store))"

lemma written_tx_eval:
  "tx_state written_tx = OPEN" "\<not> tx_read_only written_tx" "\<not> tx_dirty written_tx"
  "list_ex (\<lambda>(_, e). is_modification e) (tx_items written_tx)" "p_result (tx_promise written_tx) = None"
  unfolding written_tx_def by code_simp+

definition waiting_client :: client where
  "waiting_client =
     sample_client\<lparr>cl_state := SYNCED, cl_heap := [set_state SUBMITTED written_tx], cl_held := [0], cl_transactions := [0],
       cl_requests := [\<lparr>rq_cid = 7, rq_t0 = 0, rq_erev = 0, rq_kind = Submit_req 0 False\<rparr>]\<rparr>"


section \<open>The command queue\<close>

text \<open>
  A client holds up to \<open>max_active_txs + 3\<close> commands, the sum taken in 32 bits: with no limit on
  transactions, which the constructor writes as \<open>UINT32_MAX\<close>, the sum wraps and the queue is full with
  two commands, although any number of transactions may be active.  A submission that finds the queue
  full throws and leaves its transaction submitted for good: no command knows it, and it can neither be
  submitted again nor changed.
\<close>

theorem unlimited_queue_holds_two:
  assumes "new_client uv_ok now p = Inr c0" "p_max_active_txs p \<in> {0, 0xFFFFFFFF}"
    and "cl_params c = cl_params c0" "cl_state c \<noteq> CLOSED" "length (cl_commands c) \<ge> 2"
    and "i < length (cl_heap c)" "tx_state (cl_heap c ! i) = OPEN" "\<not> tx_read_only (cl_heap c ! i)"
      "\<not> tx_dirty (cl_heap c ! i)" "list_ex (\<lambda>(_, e). is_modification e) (tx_items (cl_heap c ! i))"
  shows "(\<forall>cmd. fst (push_command cmd c) = Inl Ex_queue_overflow) \<and>
    (\<exists>c1. submit_tx i False c = (Inl Ex_queue_overflow, c1) \<and> tx_state (cl_heap c1 ! i) = SUBMITTED \<and>
       p_result (tx_promise (cl_heap c1 ! i)) = p_result (tx_promise (cl_heap c ! i)) \<and>
       cl_commands c1 = cl_commands c \<and> fst (submit_tx i force c1) = Inl Ex_not_open)"
proof -
  let ?t = "cl_heap c ! i"
  have "p_max_active_txs (cl_params c0) = 0xFFFFFFFF"
    using assms(1,2) by (auto simp: new_client_def Let_def split: if_split_asm sum.splits)
  then have full: "unat (p_max_active_txs (cl_params c) + 3) = 2" using assms(3) by simp
  have push: "push_command cmd c = (Inl Ex_queue_overflow, drop_command cmd c)" for cmd
    using assms(4,5) full by (simp add: push_command_def is_closed_def)
  have sub: "submit (Some (Some e)) False ?t = (Inl e, set_state SUBMITTED ?t)" for e
    using assms(7-10) by (simp add: submit_def Let_def)
  have st: "tx_state (set_state SUBMITTED ?t) = SUBMITTED" "tx_promise (set_state SUBMITTED ?t) = tx_promise ?t"
    using assms(7) by (simp_all add: set_state_def closed_state_def)
  let ?cmd = "Request_cmd (new_request c (Submit_req i False))"
  have "drop_command ?cmd c = c" by (simp add: drop_command_def drop_request_def new_request_def)
  then have run: "submit_tx i False c = (Inl Ex_queue_overflow, c\<lparr>cl_heap := (cl_heap c)[i := set_state SUBMITTED ?t]\<rparr>)"
    using push[of ?cmd] sub by (simp add: submit_tx_def Let_def)
  let ?c1 = "c\<lparr>cl_heap := (cl_heap c)[i := set_state SUBMITTED ?t]\<rparr>"
  have "fst (submit_tx i force ?c1) = Inl Ex_not_open"
    using assms(6) st(1) by (simp add: submit_tx_def Let_def submit_def case_prod_unfold)
  with push run st assms(6) show ?thesis by simp
qed

theorem unlimited_queue_holds_two_witness:
  "\<exists>c c1. p_max_active_txs sample_params = 0 \<and> cl_commands c = [Close_cmd, Close_cmd] \<and>
     submit_tx 0 False c = (Inl Ex_queue_overflow, c1) \<and> tx_state (cl_heap c1 ! 0) = SUBMITTED"
proof -
  define c where "c = sample_client\<lparr>cl_state := SYNCED, cl_heap := [written_tx], cl_held := [0],
    cl_commands := [Close_cmd, Close_cmd]\<rparr>"
  have p: "p_max_active_txs sample_params \<in> {0, 0xFFFFFFFF}" "p_max_active_txs sample_params = 0"
    by (simp_all add: sample_params_def)
  have c: "cl_params c = cl_params sample_client" "cl_state c \<noteq> CLOSED" "length (cl_commands c) \<ge> 2"
    "0 < length (cl_heap c)" "cl_heap c ! 0 = written_tx" "cl_commands c = [Close_cmd, Close_cmd]"
    by (simp_all add: c_def)
  from unlimited_queue_holds_two[OF sample_client_new p(1) c(1-4), unfolded c(5), OF written_tx_eval(1-4)]
  show ?thesis using c(6) p(2) by blast
qed

section \<open>Reconnection without a snapshot\<close>

text \<open>
  C39: A client that was told to start without a snapshot, \<open>set_initial_rev(0)\<close>, does not survive a
  reconnection it missed commits for.  It asks for the updates after its revision, but the answer sets
  the revision of its store to the one of the server and the client calls itself synchronized; each of
  the updates it asked for is then refused as not newer than the store, by an exception that nothing
  but \<open>run\<close> catches.
\<close>

theorem reconnection_refuses_missed:
  assumes "cl_rev0 c = 0" "cl_initialized c" "cl_state c = SYNCING"
    and "ures_cid resp = cl_data_cid c" "ures_accepted resp"
    and "upd_rev upd \<le> ures_crev resp"
  shows "\<exists>c1. process_updates_resp resp c = (Inr (), c1) \<and> cl_state c1 = SYNCED \<and>
    m_rev (cl_store c1) = ures_crev resp \<and> contents (cl_store c1) = contents (cl_store c) \<and>
    (\<forall>env us crev. process_updates_push env
        \<lparr>upush_cid = cl_data_cid c1, upush_crev = crev, upush_updates = Some (Some upd # us)\<rparr> c1 =
      (Inl Ex_old_update, c1))"
proof -
  let ?s = "(cl_store c)\<lparr>m_rev := ures_crev resp\<rparr>"
  let ?c1 = "c\<lparr>cl_store := ?s, cl_initialized := True, cl_state := SYNCED\<rparr>"
  have run: "process_updates_resp resp c = (Inr (), ?c1)"
    using assms(1,3-5) by (simp add: process_updates_resp_def client_set_state_def Let_def)
  have "update (Some upd) ?s = (Inl Ex_old_update, ?s)"
    using assms(6) by (simp add: update_def update_internal_def)
  then have "process_update env (Some upd) ?c1 = (Inl Ex_old_update, ?c1)" for env
    by (simp add: process_update_def on_store_def bind_op_def)
  then have "process_updates_push env
      \<lparr>upush_cid = cl_data_cid ?c1, upush_crev = crev, upush_updates = Some (Some upd # us)\<rparr> ?c1 =
    (Inl Ex_old_update, ?c1)" for env us crev
    by (simp add: process_updates_push_def push_update_def bind_op_def vector_def)
  with run show ?thesis by (intro exI[of _ ?c1]) (simp add: contents_def)
qed

text \<open>The request that is answered asks for what comes after the revision of the store.\<close>

lemma reconnection_request:
  "cl_initialized c \<Longrightarrow> start_sync env resp c =
     request_data env SYNCING (\<lambda>cid. create_updates_msg cid (m_rev (cl_store c))) c"
  by (simp add: start_sync_def)

definition missed_update :: update_msg where
  "missed_update =
     \<lparr>upd_rev = 8, upd_user = Some ''bob'', upd_timestamp = 0, upd_tx_type = 0,
      upd_upserts = Some [Some \<lparr>kv_key = Some ''k'', kv_value = Some ''v''\<rparr>], upd_deletes = None\<rparr>"

theorem reconnection_refuses_missed_witness:
  "\<exists>c c1. m_rev (cl_store c) = 7 \<and> cl_rev0 c = 0 \<and>
     process_updates_resp \<lparr>ures_cid = 3, ures_crev = 9, ures_rev0 = 0, ures_accepted = True\<rparr> c = (Inr (), c1) \<and>
     process_updates_push idle_env
       \<lparr>upush_cid = 3, upush_crev = 9, upush_updates = Some [Some missed_update]\<rparr> c1 = (Inl Ex_old_update, c1)"
proof -
  define c where "c = sample_client\<lparr>cl_state := SYNCING, cl_initialized := True, cl_rev0 := 0, cl_data_cid := 3,
    cl_store := empty_store\<lparr>m_rev := 7\<rparr>\<rparr>"
  let ?resp = "\<lparr>ures_cid = 3, ures_crev = 9, ures_rev0 = 0, ures_accepted = True\<rparr>"
  have c: "cl_rev0 c = 0" "cl_initialized c" "cl_state c = SYNCING" "ures_cid ?resp = cl_data_cid c"
    "ures_accepted ?resp" "upd_rev missed_update \<le> ures_crev ?resp" "m_rev (cl_store c) = 7"
    by (simp_all add: c_def missed_update_def)
  obtain c1 where c1: "process_updates_resp ?resp c = (Inr (), c1)"
    "\<forall>env us crev. process_updates_push env
        \<lparr>upush_cid = cl_data_cid c1, upush_crev = crev, upush_updates = Some (Some missed_update # us)\<rparr> c1 =
      (Inl Ex_old_update, c1)"
    using reconnection_refuses_missed[OF c(1-6)] by blast
  have "cl_data_cid c1 = 3"
    using c1(1) by (auto simp: process_updates_resp_def client_set_state_def c_def Let_def)
  with c1 c(1,7) show ?thesis by metis
qed

end
