(* ===== verification/Nplex_Client_Inv.thy ===== *)
theory Nplex_Client_Inv
  imports Nplex_Client_Faults
begin

text \<open>
  The invariant of the client between any two callbacks, and how the transactions it holds evolve: each
  of them lives through a history of \<open>tx_run\<close> on the store of the client, so what is proved of a
  transaction on its own holds of it inside the client.
\<close>

section \<open>The invariant\<close>

definition session_ok :: "client \<Rightarrow> bool" where
  "session_ok c \<longleftrightarrow>
     (\<forall>i. cl_con c = Some i \<longrightarrow>
        i < length (cl_connections c) \<and> cl_state c \<notin> {OFFLINE, CONNECTING, CLOSED}) \<and>
     (cl_con c = None \<longrightarrow> cl_requests c = [] \<and> cl_accepted c = []) \<and>
     (cl_state c = CLOSED \<longrightarrow> cl_commands c = [] \<and> cl_transactions c = []) \<and>
     (cl_state c = LOADING_SNAPSHOT \<longrightarrow> \<not> cl_initialized c)"

text \<open>A queued command has a wake-up under way, except while \<open>process_commands\<close> is at work.\<close>

definition wake_ok :: "bool \<Rightarrow> client \<Rightarrow> bool" where
  "wake_ok b c \<longleftrightarrow> (b \<and> cl_commands c \<noteq> [] \<longrightarrow> cl_async c)"

definition heap_ok :: "client \<Rightarrow> bool" where
  "heap_ok c \<longleftrightarrow> store_wf (cl_store c) \<and> (\<forall>t \<in> set (cl_heap c). tx_wf t \<and> promise_ok t)"

text \<open>The transactions the program can still use are the ones the client tells of updates.\<close>

definition registry_ok :: "client \<Rightarrow> bool" where
  "registry_ok c \<longleftrightarrow>
     set (cl_held c) \<union> set (cl_transactions c) \<subseteq> {..< length (cl_heap c)} \<and> distinct (cl_transactions c) \<and>
     (\<not> cl_stopped c \<longrightarrow>
        (\<forall>i \<in> set (cl_held c). \<not> closed_state (tx_state (cl_heap c ! i)) \<longrightarrow> i \<in> set (cl_transactions c)))"

text \<open>
  A client with an initial revision of 0 takes the revision of its store from the server, whatever the
  store holds, so nothing is claimed of its store and transactions once it runs.
\<close>

definition solid :: "client \<Rightarrow> bool" where
  "solid c \<longleftrightarrow> cl_rev0 c \<noteq> 0 \<or> \<not> cl_running c"

definition client_inv :: "bool \<Rightarrow> client \<Rightarrow> bool" where
  "client_inv b c \<longleftrightarrow> session_ok c \<and> wake_ok b c \<and> (solid c \<longrightarrow> heap_ok c \<and> registry_ok c)"

text \<open>While a session ends, its requests outlive it.\<close>

definition part :: "bool \<Rightarrow> client \<Rightarrow> bool" where
  "part b c \<longleftrightarrow> wake_ok b c \<and> (solid c \<longrightarrow> heap_ok c \<and> registry_ok c)"

lemmas inv_defs = client_inv_def part_def session_ok_def wake_ok_def heap_ok_def registry_ok_def solid_def

definition evolves :: "client \<Rightarrow> client \<Rightarrow> bool" where
  "evolves c d \<longleftrightarrow>
     length (cl_heap c) \<le> length (cl_heap d) \<and> length (cl_connections d) = length (cl_connections c) \<and>
     cl_running d = cl_running c \<and>
     (\<forall>i \<in> set (cl_held d). i < length (cl_heap c) \<longrightarrow> i \<in> set (cl_held c)) \<and>
     (cl_initialized c \<longrightarrow> cl_initialized d) \<and> cl_rev0 d = cl_rev0 c \<and> (cl_stopped c \<longrightarrow> cl_stopped d) \<and>
     (cl_initialized c \<and> cl_rev0 c \<noteq> 0 \<and> \<not> cl_stopped d \<longrightarrow>
        (\<forall>i \<in> set (cl_held d). i < length (cl_heap c) \<longrightarrow>
           tx_run True UNIV (cl_store c, cl_heap c ! i) (cl_store d, cl_heap d ! i)))"

lemma evolves_refl [simp]: "evolves c c"
  by (simp add: evolves_def)

lemma evolves_trans:
  assumes "evolves a b" "evolves b c"
  shows "evolves a c"
proof -
  have "tx_run True UNIV (cl_store a, cl_heap a ! i) (cl_store c, cl_heap c ! i)"
    if i: "cl_initialized a" "cl_rev0 a \<noteq> 0" "\<not> cl_stopped c" "i \<in> set (cl_held c)" "i < length (cl_heap a)" for i
  proof -
    have "i \<in> set (cl_held b)" "i < length (cl_heap b)" "cl_initialized b" "cl_rev0 b \<noteq> 0" "\<not> cl_stopped b"
      using assms i by (auto simp: evolves_def)
    then have "tx_run True UNIV (cl_store a, cl_heap a ! i) (cl_store b, cl_heap b ! i)"
      "tx_run True UNIV (cl_store b, cl_heap b ! i) (cl_store c, cl_heap c ! i)"
      using assms i by (auto simp: evolves_def)
    then show ?thesis by (rule rtranclp_trans)
  qed
  then show ?thesis using assms unfolding evolves_def by auto
qed

text \<open>An operation that returns keeps the invariant, and the transactions evolve.\<close>

definition good :: "(client \<Rightarrow> bool) \<Rightarrow> client \<Rightarrow> client \<Rightarrow> bool" where
  "good P c d \<longleftrightarrow> P d \<and> evolves c d"

definition sound :: "(client \<Rightarrow> bool) \<Rightarrow> (client, 'a) op \<Rightarrow> bool" where
  "sound P m \<longleftrightarrow> (\<forall>c a d. P c \<longrightarrow> m c = (Inr a, d) \<longrightarrow> good P c d)"

lemma soundD: "sound P m \<Longrightarrow> P c \<Longrightarrow> m c = (Inr a, d) \<Longrightarrow> good P c d"
  by (simp add: sound_def)

lemma good_trans: "good P c d \<Longrightarrow> good P d e \<Longrightarrow> good P c e"
  using evolves_trans by (auto simp: good_def)

lemma good_refl: "P c \<Longrightarrow> good P c c"
  by (simp add: good_def)

lemma sound_bind: "sound P m \<Longrightarrow> (\<And>a. sound P (f a)) \<Longrightarrow> sound P (bind_op m f)"
  unfolding sound_def
  by (auto elim!: bind_op_InrE) (metis good_def good_trans)

lemma sound_return: "sound P (return_op a)"
  by (simp add: sound_def good_refl)

lemma sound_raise: "sound P (raise_op e)"
  by (simp add: sound_def)

lemma sound_modify: "(\<And>c. P c \<Longrightarrow> good P c (f c)) \<Longrightarrow> sound P (modify_op f)"
  by (simp add: sound_def)

lemma sound_each: "(\<And>x. x \<in> set xs \<Longrightarrow> sound P (f x)) \<Longrightarrow> sound P (each_op f xs)"
proof (induction xs)
  case Nil
  show ?case by (simp add: sound_def good_refl)
next
  case (Cons x xs)
  then have "sound P (f x)" "sound P (each_op f xs)" by simp_all
  then show ?case unfolding each_op_bind by (intro sound_bind sound_return)
qed

lemma sound_cond: "sound P m \<Longrightarrow> sound P n \<Longrightarrow> sound P (\<lambda>c. if p c then m c else n c)"
  by (simp add: sound_def)

lemma sound_depend: "(\<And>u. sound P (m u)) \<Longrightarrow> sound P (\<lambda>c. m (f c) c)"
  by (simp add: sound_def)

lemma sound_start: "sound P m \<Longrightarrow> (\<And>c. P c \<Longrightarrow> good P c (g c)) \<Longrightarrow> sound P (\<lambda>c. m (g c))"
  unfolding sound_def using good_trans by (metis good_def)

lemma sound_done: "(\<And>c. P c \<Longrightarrow> good P c (f c)) \<Longrightarrow> sound P (\<lambda>c. (Inr a, f c))"
  by (simp add: sound_def)

section \<open>Operations that leave the invariant alone\<close>

definition same_core :: "client \<Rightarrow> client \<Rightarrow> bool" where
  "same_core c d \<longleftrightarrow>
     cl_con d = cl_con c \<and> length (cl_connections d) = length (cl_connections c) \<and> cl_state d = cl_state c \<and>
     cl_requests d = cl_requests c \<and> cl_accepted d = cl_accepted c \<and> cl_commands d = cl_commands c \<and>
     cl_async d = cl_async c \<and> cl_transactions d = cl_transactions c \<and> cl_heap d = cl_heap c \<and>
     cl_held d = cl_held c \<and> cl_store d = cl_store c \<and> cl_initialized d = cl_initialized c \<and>
     cl_rev0 d = cl_rev0 c \<and> cl_stopped d = cl_stopped c \<and> cl_running d = cl_running c"

lemma same_core_good:
  "same_core c d \<Longrightarrow> client_inv b c \<Longrightarrow> good (client_inv b) c d" "same_core c d \<Longrightarrow> part b c \<Longrightarrow> good (part b) c d"
  by (simp_all add: same_core_def good_def inv_defs evolves_def)

lemma same_core_sound:
  "(\<And>c. same_core c (snd (m c))) \<Longrightarrow> sound (client_inv b) m" "(\<And>c. same_core c (snd (m c))) \<Longrightarrow> sound (part b) m"
  unfolding sound_def using same_core_good by (metis snd_conv)+

lemma same_core_trans: "same_core a b \<Longrightarrow> same_core b c \<Longrightarrow> same_core a c"
  by (simp add: same_core_def)

lemma core_on_connection: "same_core c (snd (on_connection i f c))"
  by (simp add: on_connection_def same_core_def split: prod.split)

lemma core_disconnect: "same_core c (snd (disconnect_con rc i c))"
  by (simp add: disconnect_con_def core_on_connection)

lemma core_current: "same_core c (snd (disconnect_current rc c))"
  by (simp add: disconnect_current_def core_disconnect same_core_def[of c c] split: option.split)

lemma core_send: "same_core c (snd (send_on env i m c))"
  by (simp add: send_on_def core_on_connection)

lemma core_client_send: "same_core c (snd (client_send env m c))"
  by (simp add: client_send_def core_send same_core_def[of c c] split: option.split)

lemma core_report: "same_core c (report_server_activity c)"
  by (simp add: report_server_activity_def same_core_def)

lemma core_update_con: "same_core c (update_con i f c)"
  by (simp add: update_con_def same_core_def)

lemma core_satisfy: "same_core c (snd (satisfy_future p r c))"
  by (simp add: satisfy_future_def same_core_def split: option.split)

lemma core_drop: "same_core c (drop_request r c)"
  by (simp add: drop_request_def break_promise_def same_core_def split: req_kind.split)

lemma core_drop_command: "same_core c (drop_command cmd c)"
  by (simp add: drop_command_def core_drop same_core_def[of c c] split: command.split)

lemma core_drops: "same_core c (fold drop_request rs c)" "same_core c (fold drop_command cmds c)"
proof -
  show "same_core c (fold drop_request rs c)"
    by (induction rs arbitrary: c) (auto intro: same_core_trans core_drop simp: same_core_def[of c c for c])
  show "same_core c (fold drop_command cmds c)"
    by (induction cmds arbitrary: c) (auto intro: same_core_trans core_drop_command simp: same_core_def[of c c for c])
qed

lemma sound_ops:
  "sound (client_inv b) (disconnect_con rc i)" "sound (client_inv b) (disconnect_current rc)" "sound (client_inv b) (send_on env i m)"
  "sound (client_inv b) (client_send env m)" "sound (client_inv b) (satisfy_future p r)" "sound (client_inv b) (modify_op (drop_request q))"
  "sound (part b) (satisfy_future p r)" "sound (part b) (modify_op (drop_request q))"
  by (rule same_core_sound; simp add: core_disconnect core_current core_send core_client_send core_satisfy core_drop)+

section \<open>State changes\<close>

lemma core_fields:
  assumes "same_core c d"
  shows "cl_con d = cl_con c" "cl_state d = cl_state c" "cl_requests d = cl_requests c"
    "cl_accepted d = cl_accepted c" "cl_commands d = cl_commands c" "cl_transactions d = cl_transactions c"
    "cl_heap d = cl_heap c" "cl_held d = cl_held c" "cl_store d = cl_store c"
    "cl_initialized d = cl_initialized c" "cl_rev0 d = cl_rev0 c" "cl_stopped d = cl_stopped c"
    "cl_async d = cl_async c" "length (cl_connections d) = length (cl_connections c)"
    "cl_running d = cl_running c"
  using assms by (simp_all add: same_core_def)

lemma set_state_good:
  assumes "client_inv b c" "st \<noteq> CLOSED" "cl_con c \<noteq> None \<Longrightarrow> st \<notin> {OFFLINE, CONNECTING}"
    "st = LOADING_SNAPSHOT \<Longrightarrow> \<not> cl_initialized c"
  shows "good (client_inv b) c (client_set_state st c)"
  using assms by (auto simp: client_set_state_def good_def inv_defs evolves_def Let_def)

lemma cleared_core:
  "same_core (c\<lparr>cl_commands := [], cl_requests := [], cl_accepted := []\<rparr>)
     (clear_accepted (clear_requests (clear_commands c)))"
proof -
  have 1: "same_core (c\<lparr>cl_commands := []\<rparr>) (clear_commands c)"
    by (simp add: clear_commands_def core_drops)
  have 2: "same_core (d\<lparr>cl_requests := []\<rparr>) (clear_requests d)" for d
    by (simp add: clear_requests_def core_drops)
  have 3: "same_core (d\<lparr>cl_accepted := []\<rparr>) (clear_accepted d)" for d
    by (simp add: clear_accepted_def core_drops)
  let ?a = "clear_commands c"
  let ?b = "clear_requests ?a"
  show ?thesis using 1 2[of ?a] 3[of ?b] by (simp add: same_core_def)
qed

lemma abort_core:
  assumes "cl_state c \<noteq> CLOSED"
  shows "same_core (c\<lparr>cl_con := None, cl_state := CLOSED, cl_transactions := [], cl_commands := [],
    cl_requests := [], cl_accepted := [], cl_stopped := True\<rparr>) (client_abort e c)"
proof -
  let ?c = "c\<lparr>cl_error := Some e, cl_con := None, cl_data_cid := 0, cl_sessions_cid := 0,
    cl_connections := map (disconnect ERR_CLOSED_BY_LOCAL) (cl_connections c),
    cl_timer_lost := None, cl_timer_reconnect := None\<rparr>"
  let ?d = "?c\<lparr>cl_state := CLOSED, cl_transactions := []\<rparr>"
  have "client_set_state CLOSED ?c = clear_accepted (clear_requests (clear_commands ?d))"
    using assms by (simp add: client_set_state_def Let_def)
  then have s: "same_core (?d\<lparr>cl_commands := [], cl_requests := [], cl_accepted := []\<rparr>) (client_set_state CLOSED ?c)"
    using cleared_core[of ?d] by simp
  then have "cl_commands (client_set_state CLOSED ?c) = []" by (simp add: same_core_def)
  then have "clear_commands (client_set_state CLOSED ?c) = client_set_state CLOSED ?c"
    by (simp add: clear_commands_def)
  then have "client_abort e c = (client_set_state CLOSED ?c)\<lparr>cl_stopped := True\<rparr>"
    using assms by (simp add: client_abort_def is_closed_def Let_def)
  with s show ?thesis by (simp add: same_core_def)
qed

lemma abort_good_part: "cl_state c \<noteq> CLOSED \<Longrightarrow> part b c \<Longrightarrow> good (client_inv b) c (client_abort e c)"
  using core_fields[OF abort_core[of c e]]
  by (auto simp: good_def inv_defs evolves_def)

lemma abort_good: "client_inv b c \<Longrightarrow> good (client_inv b) c (client_abort e c)"
proof (cases "cl_state c = CLOSED")
  case True
  assume "client_inv b c"
  with True show ?thesis by (simp add: client_abort_def is_closed_def good_refl)
next
  case False
  assume "client_inv b c"
  then show ?thesis using abort_good_part[OF False] by (simp add: client_inv_def part_def)
qed

section \<open>Transactions of the client\<close>

lemma life_closed: "life_step True t u \<Longrightarrow> closed_state (tx_state t) \<Longrightarrow> tx_state u = tx_state t"
  using life_results by (auto simp: results_kept_def)

text \<open>One transaction makes a step on the store.\<close>

lemma put_tx_good:
  assumes "P \<in> {client_inv b, part b}" "P c"
    and "solid c \<Longrightarrow> i < length (cl_heap c) \<Longrightarrow> tx_step True UNIV (cl_store c, cl_heap c ! i) (cl_store c, t)"
    and "solid c \<Longrightarrow> closed_state (tx_state (cl_heap c ! i)) \<Longrightarrow> tx_state t = tx_state (cl_heap c ! i)"
  shows "good P c (c\<lparr>cl_heap := (cl_heap c)[i := t]\<rparr>)"
proof (cases "i < length (cl_heap c)")
  case False
  then have "c\<lparr>cl_heap := (cl_heap c)[i := t]\<rparr> = c" by (intro client.equality) (simp_all add: list_update_beyond)
  then show ?thesis using good_refl[of P c] assms(2) by simp
next
  case True
  let ?d = "c\<lparr>cl_heap := (cl_heap c)[i := t]\<rparr>"
  have kept: "heap_ok ?d \<and> registry_ok ?d \<and>
      (\<forall>j. tx_run True UNIV (cl_store c, cl_heap c ! j) (cl_store c, (cl_heap c)[i := t] ! j))" if s: "solid c"
  proof -
    have wf: "store_wf (cl_store c)" "\<forall>u \<in> set (cl_heap c). tx_wf u \<and> promise_ok u" "registry_ok c"
      using assms(1,2) s by (auto simp: client_inv_def part_def heap_ok_def)
    have step: "tx_step True UNIV (cl_store c, cl_heap c ! i) (cl_store c, t)" by (rule assms(3)[OF s True])
    have rw: "run_wf (cl_store c, cl_heap c ! i)" "promise_ok (cl_heap c ! i)"
      using wf True by (auto simp: run_wf_def)
    have t: "tx_wf t" "promise_ok t"
      using step_wf[OF step rw(1)] step_ok[OF step rw(1)] rw(2) by (simp_all add: run_wf_def)
    then have all: "\<forall>u \<in> set ((cl_heap c)[i := t]). tx_wf u \<and> promise_ok u"
      using wf(2) set_update_subset_insert[of "cl_heap c" i t] by fastforce
    have closed: "closed_state (tx_state ((cl_heap c)[i := t] ! j))"
      if "closed_state (tx_state (cl_heap c ! j))" for j
      using that assms(4)[OF s] True by (cases "j = i") auto
    have "registry_ok ?d" using wf(3) closed unfolding registry_ok_def by simp blast
    moreover have "heap_ok ?d" using all wf(1) by (simp add: heap_ok_def)
    moreover have "tx_run True UNIV (cl_store c, cl_heap c ! j) (cl_store c, (cl_heap c)[i := t] ! j)" for j
      using step True by (cases "j = i") auto
    ultimately show ?thesis by blast
  qed
  have "session_ok ?d = session_ok c" "wake_ok b ?d = wake_ok b c" "solid ?d = solid c"
    by (simp_all add: session_ok_def wake_ok_def solid_def)
  then have "P ?d" using assms(1,2) kept unfolding client_inv_def part_def by fastforce
  moreover have "evolves c ?d" using kept by (simp add: evolves_def solid_def)
  ultimately show ?thesis by (simp add: good_def)
qed

lemma on_tx_sound:
  assumes "P \<in> {client_inv b, part b}" "\<And>t r u. f t = (r, u) \<Longrightarrow> life_step True t u"
  shows "sound P (on_tx i f)"
  unfolding sound_def
proof (intro allI impI)
  fix c a d
  assume c: "P c" "on_tx i f c = (Inr a, d)"
  then obtain t where t: "f (cl_heap c ! i) = (Inr a, t)" "d = c\<lparr>cl_heap := (cl_heap c)[i := t]\<rparr>"
    by (auto simp: on_tx_def split: prod.splits)
  have life: "life_step True (cl_heap c ! i) t" using assms(2)[OF t(1)] .
  show "good P c d"
    unfolding t(2) using assms(1) c(1)
    by (rule put_tx_good) (auto intro: step_life life dest: life_closed[OF life])
qed

lemmas tx_calls_sound =
  on_tx_sound[OF _ life_code] on_tx_sound[OF _ life_error] on_tx_sound[OF _ life_confirm]

section \<open>Queues\<close>

lemma queue_good:
  assumes "client_inv b c" "cl_con c = None \<Longrightarrow> rs = [] \<and> as = []"
  shows "good (client_inv b) c (c\<lparr>cl_requests := rs, cl_accepted := as\<rparr>)"
  using assms by (auto simp: good_def inv_defs evolves_def)

lemma requests_good: "client_inv b c \<Longrightarrow> (cl_con c = None \<Longrightarrow> rs = []) \<Longrightarrow> good (client_inv b) c (c\<lparr>cl_requests := rs\<rparr>)"
  using queue_good[of b c rs "cl_accepted c"] by (simp add: inv_defs good_def evolves_def)

lemma accepted_good: "client_inv b c \<Longrightarrow> (cl_con c = None \<Longrightarrow> as = []) \<Longrightarrow> good (client_inv b) c (c\<lparr>cl_accepted := as\<rparr>)"
  using queue_good[of b c "cl_requests c" as] by (simp add: inv_defs good_def evolves_def)

lemma pop_request_good: "client_inv b c \<Longrightarrow> good (client_inv b) c (pop_request c)"
  unfolding pop_request_def by (rule requests_good) (auto simp: inv_defs)

lemma pop_accepted_good: "client_inv b c \<Longrightarrow> good (client_inv b) c (pop_accepted c)"
  unfolding pop_accepted_def by (rule accepted_good) (auto simp: inv_defs)

lemma pop_part_good: "part b c \<Longrightarrow> good (part b) c (pop_request c)" "part b c \<Longrightarrow> good (part b) c (pop_accepted c)"
  by (simp_all add: good_def inv_defs evolves_def pop_request_def pop_accepted_def)

lemma cancel_sound: "sound (part b) (cancel r)"
  using on_tx_sound[of "part b" b "set_submit_error Ex_canceled", OF _ life_error] sound_ops(7)
  by (cases "rq_kind r") (simp_all add: cancel_def)

lemma cancel_requests_sound: "sound (part b) cancel_requests"
proof -
  have turn: "sound (part b) (bind_op (modify_op pop) (\<lambda>_. bind_op (cancel r) (\<lambda>_. modify_op (drop_request r))))"
    if "\<And>c. part b c \<Longrightarrow> good (part b) c (pop c)" for pop r
    using that by (intro sound_bind sound_modify[of "part b" pop] cancel_sound sound_ops(8))
  have all: "sound (part b) (bind_op (each_op (\<lambda>r. bind_op (modify_op pop_request) (\<lambda>_.
         bind_op (cancel r) (\<lambda>_. modify_op (drop_request r)))) rs) (\<lambda>_.
       bind_op (each_op (\<lambda>r. bind_op (modify_op pop_accepted) (\<lambda>_.
         bind_op (cancel r) (\<lambda>_. modify_op (drop_request r)))) as) (\<lambda>_. return_op ())))" for rs as
    by (intro sound_bind sound_each turn pop_part_good sound_return)
  then have "sound (part b) (\<lambda>c. bind_op (each_op (\<lambda>r. bind_op (modify_op pop_request) (\<lambda>_.
         bind_op (cancel r) (\<lambda>_. modify_op (drop_request r)))) (cl_requests c)) (\<lambda>_.
       bind_op (each_op (\<lambda>r. bind_op (modify_op pop_accepted) (\<lambda>_.
         bind_op (cancel r) (\<lambda>_. modify_op (drop_request r)))) (cl_accepted c)) (\<lambda>_. return_op ())) c)"
    by (simp add: sound_def)
  then show ?thesis by (simp add: cancel_requests_def[abs_def])
qed

text \<open>After a cancellation that returned, the queues are empty and the session is as it was.\<close>

definition same_session :: "client \<Rightarrow> client \<Rightarrow> bool" where
  "same_session c d \<longleftrightarrow> cl_con d = cl_con c \<and> cl_state d = cl_state c \<and> cl_commands d = cl_commands c \<and>
     cl_transactions d = cl_transactions c \<and> cl_initialized d = cl_initialized c \<and>
     length (cl_connections d) = length (cl_connections c)"

lemma same_session_trans: "same_session a b \<Longrightarrow> same_session b c \<Longrightarrow> same_session a c"
  by (simp add: same_session_def)

lemma cancel_session: "cancel r c = (q, d) \<Longrightarrow> same_session c d \<and> cl_requests d = cl_requests c \<and> cl_accepted d = cl_accepted c"
  by (auto simp: cancel_def on_tx_def satisfy_future_def same_session_def split: req_kind.splits prod.splits option.splits)

lemma drop_session: "same_session c (drop_request r c)"
  using core_fields[OF core_drop[of c r]] by (simp add: same_session_def)

lemma cancel_loop:
  assumes "\<And>c. same_session c (pop c)" "\<And>c. q (pop c) = tl (q c)" "\<And>c. oth (pop c) = oth c"
    and "\<And>r c x d. cancel r c = (x, d) \<Longrightarrow> q (drop_request r d) = q c \<and> oth (drop_request r d) = oth c"
  shows "each_op (\<lambda>r. bind_op (modify_op pop) (\<lambda>_. bind_op (cancel r) (\<lambda>_. modify_op (drop_request r)))) rs c = (Inr us, d) \<Longrightarrow>
    q c = rs \<Longrightarrow> q d = [] \<and> oth d = oth c \<and> same_session c d"
proof (induction rs arbitrary: c us)
  case Nil
  then show ?case by (simp add: same_session_def)
next
  case (Cons r rs)
  let ?f = "\<lambda>r. bind_op (modify_op pop) (\<lambda>_. bind_op (cancel r) (\<lambda>_. modify_op (drop_request r)))"
  from Cons.prems(1) have "bind_op (?f r) (\<lambda>a. bind_op (each_op ?f rs) (\<lambda>as. return_op (a # as))) c = (Inr us, d)"
    unfolding each_op_bind .
  then obtain u e where 1: "?f r c = (Inr u, e)"
    and 2: "bind_op (each_op ?f rs) (\<lambda>as. return_op (u # as)) e = (Inr us, d)" by (rule bind_op_InrE)
  from 2 obtain vs k where "each_op ?f rs e = (Inr vs, k)" "return_op (u # vs) k = (Inr us, d)" by (rule bind_op_InrE)
  with 1 have e: "?f r c = (Inr u, e)" "each_op ?f rs e = (Inr vs, d)" by simp_all
  from e(1) obtain x k where k: "cancel r (pop c) = (Inr x, k)" "e = drop_request r k"
    by (auto elim!: bind_op_InrE)
  have "q e = rs" "oth e = oth c" using assms k Cons.prems(2) by auto
  moreover have "same_session c e"
    unfolding k(2) using assms(1)[of c] cancel_session[OF k(1)] drop_session[of k r]
    by (auto intro: same_session_trans)
  ultimately have "q e = rs" "oth e = oth c" "same_session c e" by blast+
  with Cons.IH[OF e(2)] show ?case using same_session_trans by auto
qed

lemma cancel_requests_empties:
  assumes "cancel_requests c = (Inr u, d)"
  shows "cl_requests d = [] \<and> cl_accepted d = [] \<and> same_session c d"
proof -
  let ?f = "\<lambda>pop r. bind_op (modify_op pop) (\<lambda>_. bind_op (cancel r) (\<lambda>_. modify_op (drop_request r)))"
  from assms obtain us e vs where e: "each_op (?f pop_request) (cl_requests c) c = (Inr us, e)"
    "each_op (?f pop_accepted) (cl_accepted c) e = (Inr vs, d)"
    unfolding cancel_requests_def by (auto elim!: bind_op_InrE)
  have fields: "cl_requests (drop_request r d) = cl_requests c \<and> cl_accepted (drop_request r d) = cl_accepted c"
    if "cancel r c = (x, d)" for r c x d
    using cancel_session[OF that] by simp
  have 1: "cl_requests e = [] \<and> cl_accepted e = cl_accepted c \<and> same_session c e"
    by (rule cancel_loop[where q = cl_requests and oth = cl_accepted, OF _ _ _ _ e(1) refl]) (auto simp: pop_request_def same_session_def dest: fields)
  have 2: "cl_accepted d = [] \<and> cl_requests d = cl_requests e \<and> same_session e d"
    by (rule cancel_loop[where q = cl_accepted and oth = cl_requests, OF _ _ _ _ e(2)])
      (use 1 in \<open>auto simp: pop_accepted_def same_session_def dest: fields\<close>)
  from 1 2 show ?thesis using same_session_trans by auto
qed

end
