(* ===== verification/Nplex_Client_History.thy ===== *)
theory Nplex_Client_History
  imports Nplex_Client_Inv
begin

text \<open>
  Every operation of the client keeps its invariant, and every transaction it holds evolves by events of
  its own history: the calls of a program first, then commands, connections, messages and events.
\<close>

section \<open>Commands\<close>

text \<open>The calls of a program keep the invariant also when they throw.\<close>

definition sound_all :: "(client \<Rightarrow> bool) \<Rightarrow> (client, 'a) op \<Rightarrow> bool" where
  "sound_all P m \<longleftrightarrow> (\<forall>c. P c \<longrightarrow> good P c (snd (m c)))"

lemma sound_allD: "sound_all P m \<Longrightarrow> P c \<Longrightarrow> m c = (r, d) \<Longrightarrow> good P c d"
  unfolding sound_all_def by (metis snd_conv)

lemma sound_all_sound: "sound_all P m \<Longrightarrow> sound P m"
  unfolding sound_all_def sound_def by (metis snd_conv)

lemma same_core_all: "(\<And>c. same_core c (snd (m c))) \<Longrightarrow> sound_all (client_inv b) m"
  unfolding sound_all_def using same_core_good(1) by blast

lemma core_refl [simp]: "same_core c c"
  by (simp add: same_core_def)

lemma good_start: "client_inv b c \<Longrightarrow> same_core c e \<Longrightarrow> (client_inv b e \<Longrightarrow> good (client_inv b) e d) \<Longrightarrow> good (client_inv b) c d"
  using same_core_good(1) good_trans by (metis good_def)

lemma push_command_all: "sound_all (client_inv True) (push_command cmd)"
  unfolding sound_all_def
proof (intro allI impI)
  fix c assume c: "client_inv True c"
  show "good (client_inv True) c (snd (push_command cmd c))"
  proof (cases "is_closed c \<or> length (cl_commands c) \<ge> unat (p_max_active_txs (cl_params c) + 3)")
    case True
    then have "snd (push_command cmd c) = drop_command cmd c" by (auto simp: push_command_def)
    then show ?thesis using same_core_good(1)[OF core_drop_command c] by simp
  next
    case False
    then show ?thesis using c
      by (auto simp: push_command_def Let_def good_def inv_defs evolves_def is_closed_def)
  qed
qed

lemma issue_all:
  assumes "client_inv b c" "cl_con c \<noteq> None"
  shows "good (client_inv b) c (snd (issue env r msg c))"
proof -
  define e where "e = c\<lparr>cl_correlation := cl_correlation c + 1\<rparr>"
  have core: "same_core c (snd (client_send env (msg (cl_correlation c)) e))"
    using core_client_send[of e] by (simp add: e_def same_core_def)
  obtain q d where d: "client_send env (msg (cl_correlation c)) e = (q, d)" by fastforce
  have cd: "same_core c d" using core d by simp
  then have inv: "good (client_inv b) c d" using assms(1) by (rule same_core_good)
  show ?thesis
  proof (cases q)
    case (Inl x)
    then have "snd (issue env r msg c) = drop_request r d"
      using d by (simp add: issue_def Let_def e_def)
    then show ?thesis
      using good_trans[OF inv same_core_good(1)[OF core_drop]] inv by (simp add: good_def)
  next
    case (Inr x)
    then have "snd (issue env r msg c) = d\<lparr>cl_requests := cl_requests d @ [r\<lparr>rq_cid := cl_correlation c\<rparr>]\<rparr>"
      using d by (simp add: issue_def Let_def e_def)
    moreover have "cl_con d \<noteq> None" using assms(2) core_fields(1)[OF cd] by simp
    then have "good (client_inv b) d (d\<lparr>cl_requests := cl_requests d @ [r\<lparr>rq_cid := cl_correlation c\<rparr>]\<rparr>)"
      using inv by (intro requests_good) (auto simp: good_def)
    ultimately show ?thesis using good_trans[OF inv] by simp
  qed
qed

lemma sound_all_tx:
  assumes "\<And>t r u. f t = (r, u) \<Longrightarrow> life_step True t u"
  shows "sound_all (client_inv b) (on_tx i f)"
  unfolding sound_all_def
proof (intro allI impI)
  fix c assume c: "client_inv b c"
  obtain r t where t: "f (cl_heap c ! i) = (r, t)" by fastforce
  have life: "life_step True (cl_heap c ! i) t" by (rule assms[OF t])
  have "good (client_inv b) c (c\<lparr>cl_heap := (cl_heap c)[i := t]\<rparr>)"
    using _ c by (rule put_tx_good[of "client_inv b" b]) (auto intro: step_life life dest: life_closed[OF life])
  then show "good (client_inv b) c (snd (on_tx i f c))" using t by (simp add: on_tx_def)
qed

lemma satisfy_all: "sound_all (client_inv b) (satisfy_future p r)"
  by (rule same_core_all) (rule core_satisfy)

lemma command_calls_all:
  "sound_all (client_inv b) (process_submit_cmd env r i force)"
  "sound_all (client_inv b) (process_ping_cmd env r payload p)"
  "sound_all (client_inv b) (process_sessions_cmd env r stream p)"
  using sound_all_tx[of "set_submit_error Ex_not_connected", OF life_error] satisfy_all issue_all
  by (auto simp: process_submit_cmd_def process_ping_cmd_def process_sessions_cmd_def sound_all_def)

lemma process_command_all: "sound_all (client_inv b) (process_command env cmd)"
proof (cases cmd)
  case Close_cmd
  then show ?thesis
    by (simp add: sound_all_def process_command_def process_close_cmd_def abort_good)
next
  case (Request_cmd r)
  then show ?thesis
    using command_calls_all by (cases "rq_kind r") (simp_all add: process_command_def[abs_def])
qed

text \<open>A command does not touch the queue of commands, or empties it.\<close>

lemma abort_commands: "cl_commands (client_abort e c) \<in> {cl_commands c, []}"
  using core_fields(5)[OF abort_core[of c e]] by (cases "is_closed c") (auto simp: client_abort_def is_closed_def)

lemma issue_commands: "cl_commands (snd (issue env r msg c)) = cl_commands c"
proof -
  have "same_core (c\<lparr>cl_correlation := cl_correlation c + 1\<rparr>)
      (snd (client_send env (msg (cl_correlation c)) (c\<lparr>cl_correlation := cl_correlation c + 1\<rparr>)))"
    by (rule core_client_send)
  from core_fields(5)[OF this] core_fields(5)[OF core_drop] show ?thesis
    by (auto simp: issue_def Let_def split: prod.split sum.split)
qed

lemma process_command_queue: "cl_commands (snd (process_command env cmd c)) \<in> {cl_commands c, []}"
  using abort_commands issue_commands core_fields(5)[OF core_satisfy]
  by (auto simp: process_command_def process_close_cmd_def process_submit_cmd_def process_ping_cmd_def
      process_sessions_cmd_def on_tx_def split: command.split req_kind.split prod.split)

lemma command_loop_drains:
  "length (cl_commands c) \<le> n \<Longrightarrow> command_loop n env c = (Inr u, d) \<Longrightarrow> cl_commands d = []"
proof (induction n arbitrary: c)
  case (Suc n)
  show ?case
  proof (cases "cl_commands c")
    case Nil
    with Suc.prems show ?thesis by simp
  next
    case (Cons cmd cmds)
    with Suc.prems(2) obtain v e where e: "process_command env cmd (c\<lparr>cl_commands := cmds\<rparr>) = (Inr v, e)"
      "command_loop n env e = (Inr u, d)" by (auto elim: bind_op_InrE)
    have "cl_commands e \<in> {cmds, []}"
      using process_command_queue[of env cmd "c\<lparr>cl_commands := cmds\<rparr>"] e(1) by simp
    then have "length (cl_commands e) \<le> n" using Cons Suc.prems(1) by auto
    from Suc.IH[OF this e(2)] show ?thesis .
  qed
qed simp

lemma take_command_good: "client_inv False c \<Longrightarrow> cl_commands c = cmd # cmds \<Longrightarrow> good (client_inv False) c (c\<lparr>cl_commands := cmds\<rparr>)"
  by (auto simp: good_def inv_defs evolves_def)

lemma command_loop_sound: "sound (client_inv False) (command_loop n env)"
proof (induction n)
  case (Suc n)
  show ?case
    unfolding sound_def
  proof (intro allI impI)
    fix c a d assume c: "client_inv False c" "command_loop (Suc n) env c = (Inr a, d)"
    show "good (client_inv False) c d"
    proof (cases "cl_commands c")
      case Nil
      with c show ?thesis by (simp add: good_refl)
    next
      case (Cons cmd cmds)
      let ?e = "c\<lparr>cl_commands := cmds\<rparr>"
      have e: "good (client_inv False) c ?e" using take_command_good[OF c(1) Cons] .
      obtain v k where k: "process_command env cmd ?e = (Inr v, k)" "command_loop n env k = (Inr a, d)"
        using c(2) Cons by (auto elim: bind_op_InrE)
      have k1: "good (client_inv False) ?e k" using sound_allD[OF process_command_all _ k(1), of False] e by (simp add: good_def)
      have "good (client_inv False) k d" using soundD[OF Suc _ k(2)] k1 by (simp add: good_def)
      with e k1 show ?thesis using good_trans by blast
    qed
  qed
qed (simp add: sound_def good_refl)

text \<open>The wake-up that \<open>process_commands\<close> answers is gone, and so are the commands.\<close>

lemma process_commands_good:
  assumes "client_inv True c" "process_commands env (c\<lparr>cl_async := False\<rparr>) = (Inr u, d)"
  shows "good (client_inv True) c d"
proof -
  let ?c = "c\<lparr>cl_async := False\<rparr>"
  have start: "client_inv False ?c" "evolves c ?c" using assms(1) by (auto simp: inv_defs evolves_def)
  have "cl_commands d = [] \<and> good (client_inv False) ?c d"
  proof (cases "is_closed c")
    case True
    then have "d = ?c" using assms(2) by (simp add: process_commands_def is_closed_def)
    moreover have "cl_commands c = []" using True assms(1) by (simp add: is_closed_def inv_defs)
    ultimately show ?thesis using start(1) by (simp add: good_refl)
  next
    case False
    then have "command_loop (length (cl_commands ?c)) env ?c = (Inr u, d)"
      using assms(2) by (simp add: process_commands_def is_closed_def)
    then show ?thesis using command_loop_drains soundD[OF command_loop_sound start(1)] by blast
  qed
  then show ?thesis using start(2) evolves_trans by (auto simp: good_def client_inv_def wake_ok_def)
qed

section \<open>Calls of a program\<close>

lemma purge_good: "client_inv b c \<Longrightarrow> good (client_inv b) c (purge_unused_txs c)"
  by (auto simp: purge_unused_txs_def good_def inv_defs evolves_def discardable_def unused_def)

lemma create_good:
  assumes "client_inv b c" "create_tx level ro c = (r, d)"
  shows "good (client_inv b) c d"
proof -
  let ?p = "purge_unused_txs c"
  have p: "good (client_inv b) c ?p" using purge_good assms(1) .
  have "d \<in> {c, ?p} \<or> (\<exists>u. d = ?p\<lparr>cl_heap := cl_heap ?p @ [new_tx level ro u (cl_store ?p)],
      cl_held := length (cl_heap ?p) # cl_held ?p,
      cl_transactions := cl_transactions ?p @ [length (cl_heap ?p)]\<rparr> \<and> cl_state c \<noteq> CLOSED)"
    using assms(2)
    by (auto simp: create_tx_def Let_def new_tx_client_def is_closed_def
        split: if_split_asm sum.splits option.splits)
  then consider "d \<in> {c, ?p}"
    | u where "d = ?p\<lparr>cl_heap := cl_heap ?p @ [new_tx level ro u (cl_store ?p)],
        cl_held := length (cl_heap ?p) # cl_held ?p,
        cl_transactions := cl_transactions ?p @ [length (cl_heap ?p)]\<rparr>" "cl_state ?p \<noteq> CLOSED"
    by (auto simp: purge_unused_txs_def)
  then show ?thesis
  proof cases
    case 1
    then show ?thesis using p assms(1) good_refl by auto
  next
    case 2
    have ip: "client_inv b ?p" using p by (simp add: good_def)
    have "good (client_inv b) ?p d"
    proof (cases "solid ?p")
      case True
      then have "set (cl_transactions ?p) \<subseteq> {..< length (cl_heap ?p)}" "set (cl_held ?p) \<subseteq> {..< length (cl_heap ?p)}"
        using ip by (auto simp: inv_defs)
      then show ?thesis
        using ip 2(2) unfolding 2(1)
        by (auto simp: good_def inv_defs evolves_def new_tx_wf new_tx_promise_ok nth_append)
    next
      case False
      then show ?thesis
        using ip 2(2) unfolding 2(1) by (auto simp: good_def inv_defs evolves_def)
    qed
    with p show ?thesis by (rule good_trans)
  qed
qed

lemma submit_good:
  assumes "client_inv True c" "submit_tx i force c = (r, d)"
  shows "good (client_inv True) c d"
proof -
  define cmd where "cmd = Request_cmd (new_request c (Submit_req i force))"
  obtain q c1 where q: "push_command cmd c = (q, c1)" by fastforce
  define thrown where "thrown = (case q of Inl e \<Rightarrow> Some e | Inr _ \<Rightarrow> None)"
  obtain s t where s: "submit (Some thrown) force (cl_heap c ! i) = (s, t)" by fastforce
  define c2 where "c2 = (if tx_state (cl_heap c ! i) = OPEN \<and> tx_state t = SUBMITTED then c1 else c)"
  have d: "d = c2\<lparr>cl_heap := (cl_heap c2)[i := t]\<rparr>"
    using assms(2) q s by (simp add: submit_tx_def Let_def cmd_def[symmetric] thrown_def c2_def)
  have c1: "good (client_inv True) c c1" using sound_allD[OF push_command_all assms(1) q] .
  have "cl_heap c1 = cl_heap c" "cl_store c1 = cl_store c"
    using q core_fields(7,9)[OF core_drop_command[of c cmd]]
    by (auto simp: push_command_def Let_def split: if_split_asm)
  then have eq: "cl_heap c2 = cl_heap c" "cl_store c2 = cl_store c" by (auto simp: c2_def)
  have c2: "good (client_inv True) c c2" using c1 good_refl[of "client_inv True"] assms(1) by (simp add: c2_def)
  have life: "life_step True (cl_heap c ! i) t" using s by (rule life_submit)
  have "good (client_inv True) c2 d"
    unfolding d
    by (rule put_tx_good[of "client_inv True" True])
      (use c2 in \<open>auto simp: eq good_def intro: step_life life dest: life_closed[OF life]\<close>)
  with c2 show ?thesis by (rule good_trans)
qed

lemma use_good:
  assumes "client_inv b c" "solid c \<Longrightarrow> tx_step True UNIV (cl_store c, cl_heap c ! i) (cl_store c, t)"
    "solid c \<Longrightarrow> closed_state (tx_state (cl_heap c ! i)) \<Longrightarrow> tx_state t = tx_state (cl_heap c ! i)"
  shows "good (client_inv b) c (c\<lparr>cl_heap := (cl_heap c)[i := t]\<rparr>)"
  using assms by (intro put_tx_good[of "client_inv b" b]) simp_all

lemma life_good: "client_inv b c \<Longrightarrow> life_step True (cl_heap c ! i) t \<Longrightarrow>
    good (client_inv b) c (c\<lparr>cl_heap := (cl_heap c)[i := t]\<rparr>)"
  by (rule use_good) (auto intro: step_life dest: life_closed)

lemma held_wf: "client_inv b c \<Longrightarrow> solid c \<Longrightarrow> i \<in> set (cl_held c) \<Longrightarrow> run_wf (cl_store c, cl_heap c ! i)"
  by (auto simp: inv_defs run_wf_def)

lemma new_future_core: "same_core c (c\<lparr>cl_futures := fs\<rparr>)"
  by (simp add: same_core_def)

lemma request_good:
  assumes "client_inv True c" "sound_all (client_inv True) m"
    and "bind_op m (\<lambda>_. return_op p) (c\<lparr>cl_futures := fs\<rparr>) = (r, d)"
  shows "good (client_inv True) c d"
proof -
  have d: "d = snd (m (c\<lparr>cl_futures := fs\<rparr>))" using assms(3) bind_return_snd by (metis snd_conv)
  have "good (client_inv True) (c\<lparr>cl_futures := fs\<rparr>) (snd (m (c\<lparr>cl_futures := fs\<rparr>)))"
    if "client_inv True (c\<lparr>cl_futures := fs\<rparr>)"
    using assms(2) that by (simp add: sound_all_def)
  then show ?thesis unfolding d by (rule good_start[OF assms(1) new_future_core])
qed

lemma ping_good: "client_inv True c \<Longrightarrow> ping env in_loop payload c = (r, d) \<Longrightarrow> good (client_inv True) c d"
proof -
  assume c: "client_inv True c" and d: "ping env in_loop payload c = (r, d)"
  show ?thesis
  proof (cases "is_closed c")
    case True
    with c d show ?thesis by (simp add: ping_def good_refl)
  next
    case False
    then show ?thesis
      using request_good[OF c command_calls_all(2)] request_good[OF c push_command_all] d
      by (cases in_loop) (auto simp: ping_def Let_def)
  qed
qed

lemma sessions_good:
  "client_inv True c \<Longrightarrow> fetch_sessions env in_loop stream c = (r, d) \<Longrightarrow> good (client_inv True) c d"
proof -
  assume c: "client_inv True c" and d: "fetch_sessions env in_loop stream c = (r, d)"
  show ?thesis
  proof (cases "cl_state c \<in> {OFFLINE, CONNECTING, CLOSED} \<or> cl_user c = None \<or> \<not> can_monitor (the (cl_user c))")
    case True
    with c d show ?thesis by (auto simp: fetch_sessions_def good_refl split: if_split_asm)
  next
    case False
    then show ?thesis
      using request_good[OF c command_calls_all(3)] request_good[OF c push_command_all] d
      by (cases in_loop) (auto simp: fetch_sessions_def Let_def)
  qed
qed

lemma api_good: "api_step c d \<Longrightarrow> client_inv True c \<Longrightarrow> good (client_inv True) c d"
proof (induction rule: api_step.induct)
  case (api_use i c t)
  have "tx_state t = tx_state (cl_heap c ! i)" if "solid c"
    using touches_frame[OF user_touches[OF api_use.hyps(2) held_wf[OF api_use.prems that api_use.hyps(1)]]]
    by (simp add: same_frame_def)
  with api_use show ?case by (intro use_good step_user) auto
next
  case (api_release i c)
  then show ?case by (auto simp: release_tx_def good_def inv_defs evolves_def)
next
  case (api_close c r c')
  then show ?case unfolding close_def using sound_allD[OF push_command_all] by blast
next
  case (api_time c n)
  show ?case by (rule same_core_good(1)[OF _ api_time]) (simp add: same_core_def)
qed (blast intro: create_good submit_good life_good life_type life_discard ping_good sessions_good)+

lemma api_run_good: "api_run c d \<Longrightarrow> client_inv True c \<Longrightarrow> good (client_inv True) c d"
proof (induction rule: rtranclp_induct)
  case base
  then show ?case by (rule good_refl)
next
  case (step d e)
  then have "good (client_inv True) c d" by blast
  moreover from this have "good (client_inv True) d e" using api_good[OF step.hyps(2)] by (simp add: good_def)
  ultimately show ?case by (rule good_trans)
qed

section \<open>Connections\<close>

lemma good_next: "good P c e \<Longrightarrow> (P e \<Longrightarrow> good P e d) \<Longrightarrow> good P c d"
  using good_trans by (metis good_def)

lemma good_step: "good P c e \<Longrightarrow> sound P m \<Longrightarrow> m e = (Inr a, d) \<Longrightarrow> good P c d"
  using good_next soundD by metis

lemma good_core: "good (client_inv b) c e \<Longrightarrow> same_core e d \<Longrightarrow> good (client_inv b) c d"
  using good_next same_core_good(1) by metis

lemma good_abort: "good (client_inv b) c e \<Longrightarrow> good (client_inv b) c (client_abort x e)"
  by (erule good_next) (rule abort_good)

lemma good_api: "good (client_inv True) c e \<Longrightarrow> api_run e d \<Longrightarrow> good (client_inv True) c d"
  using good_next api_run_good by metis

lemma env_calls:
  assumes "env_ok env"
  shows "e_established env i c = (w1, d) \<Longrightarrow> api_run c d" "e_lost env i c = (w2, d) \<Longrightarrow> api_run c d"
    "e_failed env c = (w3, d) \<Longrightarrow> api_run c d"
    "e_reactor env = Some r \<Longrightarrow> on_initial_data r c = (w4, d) \<Longrightarrow> api_run c d"
proof -
  have calls: "api_run c (snd (e_established env i c))" "api_run c (snd (e_lost env i c))"
    "api_run c (snd (e_failed env c))"
    "e_reactor env = Some r \<Longrightarrow> api_run c (snd (on_initial_data r c))"
    using assms by (simp_all add: env_ok_def reactor_ok_def)
  show "e_established env i c = (w1, d) \<Longrightarrow> api_run c d" using calls(1) by simp
  show "e_lost env i c = (w2, d) \<Longrightarrow> api_run c d" using calls(2) by simp
  show "e_failed env c = (w3, d) \<Longrightarrow> api_run c d" using calls(3) by simp
  show "e_reactor env = Some r \<Longrightarrow> on_initial_data r c = (w4, d) \<Longrightarrow> api_run c d" using calls(4) by simp
qed

lemma set_state_eq: "st \<noteq> CLOSED \<Longrightarrow> client_set_state st c = c\<lparr>cl_state := st\<rparr>"
  by (simp add: client_set_state_def Let_def)

lemma connecting_good:
  assumes "client_inv b c" "cl_state c = OFFLINE"
  shows "good (client_inv b) c (c\<lparr>cl_con := None, cl_timer_reconnect := None, cl_state := CONNECTING\<rparr>)"
  using assms by (cases "cl_con c") (auto simp: good_def inv_defs evolves_def)

lemma try_to_connect_sound: "sound (client_inv b) (try_to_connect env)"
  unfolding sound_def
proof (intro allI impI)
  fix c a d assume c: "client_inv b c" "try_to_connect env c = (Inr a, d)"
  show "good (client_inv b) c d"
  proof (cases "is_closed c \<or> cl_state c \<noteq> OFFLINE")
    case True
    with c show ?thesis by (simp add: try_to_connect_def good_refl)
  next
    case False
    let ?e = "c\<lparr>cl_con := None, cl_timer_reconnect := None, cl_state := CONNECTING\<rparr>"
    let ?m = "bind_op (each_op (\<lambda>i. on_connection i (connect (e_connect env i)))
      [0 ..< length (cl_connections c)]) (\<lambda>_. return_op ())"
    have m: "?m ?e = (Inr a, d)"
      using c(2) False by (simp add: try_to_connect_def set_state_eq Let_def)
    have "sound (client_inv b) ?m"
      by (intro sound_bind sound_each sound_return same_core_sound core_on_connection)
    moreover have "good (client_inv b) c ?e" using connecting_good c(1) False by simp
    ultimately show ?thesis using good_step m by metis
  qed
qed

lemma schedule_core: "same_core c (schedule_reconnect wait c)"
  by (simp add: schedule_reconnect_def same_core_def)

lemma connection_failed_good:
  assumes "env_ok env" "client_inv True c"
  shows "good (client_inv True) c (connection_failed env c)"
proof -
  obtain w d where d: "e_failed env c = (w, d)" by fastforce
  have cd: "good (client_inv True) c d"
    using good_api[OF good_refl[of "client_inv True", OF assms(2)] env_calls(3)[OF assms(1) d]] .
  show ?thesis
    using good_abort[OF cd] good_core[OF cd schedule_core]
    by (simp add: connection_failed_def d split: option.split)
qed

lemma part_good: "good (part b) c d \<Longrightarrow> session_ok d \<Longrightarrow> good (client_inv b) c d"
  by (simp add: good_def client_inv_def part_def)

lemma current_lost_good:
  assumes "env_ok env" "client_inv True c" "cl_con c = Some i" "current_lost env i c = (Inr u, d)"
  shows "good (client_inv True) c d"
proof -
  define c1 where "c1 = c\<lparr>cl_state := OFFLINE, cl_con := None, cl_data_cid := 0, cl_sessions_cid := 0\<rparr>"
  have c1: "good (part True) c c1"
    using assms(2) by (auto simp: c1_def good_def inv_defs evolves_def)
  define rest where "rest c2 = (case e_lost env i (c2\<lparr>cl_timer_lost := None\<rparr>) of
             (Some True, c3) \<Rightarrow> try_to_connect env c3
           | (_, c3) \<Rightarrow> (Inr (), client_abort Ex_closed_by_manager c3))" for c2
  have "bind_op cancel_requests (\<lambda>_. rest) c1 = (Inr u, d)"
    using assms(4) by (simp add: current_lost_def set_state_eq Let_def c1_def rest_def[abs_def])
  then obtain v c2 where c2: "cancel_requests c1 = (Inr v, c2)" "rest c2 = (Inr u, d)" by (rule bind_op_InrE)
  have "session_ok c2"
    using cancel_requests_empties[OF c2(1)] by (simp add: session_ok_def same_session_def c1_def)
  moreover have "good (part True) c c2" using good_step[OF c1 cancel_requests_sound c2(1)] .
  ultimately have c12: "good (client_inv True) c c2" using part_good by blast
  define e where "e = c2\<lparr>cl_timer_lost := None\<rparr>"
  have e: "good (client_inv True) c e"
    using c12 by (rule good_core) (simp add: e_def same_core_def)
  obtain w k where k: "e_lost env i e = (w, k)" by fastforce
  have ek: "good (client_inv True) c k" using good_api[OF e env_calls(2)[OF assms(1) k]] .
  show ?thesis
    using c2(2) k good_step[OF ek try_to_connect_sound, of env u d] good_abort[OF ek]
    by (auto simp: rest_def e_def[symmetric] split: option.splits bool.splits)
qed

lemma on_connection_closed_sound: "env_ok env \<Longrightarrow> sound (client_inv True) (on_connection_closed env i)"
  unfolding sound_def on_connection_closed_def
  using current_lost_good connection_failed_good good_refl[of "client_inv True"] by (auto split: if_split_asm)

lemma on_connection_lost_sound: "sound (client_inv b) on_connection_lost"
proof (rule same_core_sound)
  fix c
  show "same_core c (snd (on_connection_lost c))"
  proof (cases "cl_con c")
    case None
    then show ?thesis by (simp add: on_connection_lost_def same_core_def)
  next
    case (Some i)
    obtain q d where d: "disconnect_con ERR_CON_LOST i c = (q, d)" by fastforce
    have "same_core c d" using core_disconnect[of c ERR_CON_LOST i] d by simp
    moreover have "same_core d (d\<lparr>cl_timer_lost := None\<rparr>)" by (simp add: same_core_def)
    ultimately show ?thesis
      using Some d same_core_trans by (auto simp: on_connection_lost_def bind_op_def split: sum.split)
  qed
qed

lemma established_sound: "sound (client_inv b) (on_connection_established env i)"
proof (rule same_core_sound)
  fix c
  have "same_core c (snd (send_on env i m (c\<lparr>cl_correlation := n\<rparr>)))" for m n
    using core_send[of "c\<lparr>cl_correlation := n\<rparr>"] by (simp add: same_core_def)
  then show "same_core c (snd (on_connection_established env i c))"
    using core_disconnect by (simp add: on_connection_established_def Let_def)
qed

section \<open>Login and synchronization\<close>

lemma request_data_sound:
  assumes "st \<noteq> CLOSED" "st \<notin> {OFFLINE, CONNECTING}" "st = LOADING_SNAPSHOT \<Longrightarrow> \<not> cl_initialized c"
    and "client_inv b c" "request_data env st msg c = (Inr u, d)"
  shows "good (client_inv b) c d"
proof -
  let ?e = "c\<lparr>cl_state := st, cl_data_cid := cl_correlation c, cl_correlation := cl_correlation c + 1\<rparr>"
  have e: "good (client_inv b) c ?e"
    using assms(1-4) by (auto simp: good_def inv_defs evolves_def)
  have "client_send env (msg (cl_correlation c)) ?e = (Inr u, d)"
    using assms(1,5) by (simp add: request_data_def set_state_eq Let_def)
  with e sound_ops(4) show ?thesis by (rule good_step)
qed

lemma start_sync_sound: "sound (client_inv b) (start_sync env resp)"
  unfolding sound_def start_sync_def Let_def
  by (auto split: if_split_asm intro: request_data_sound)

lemma close_others_core: "same_core c (close_others c)"
  by (simp add: close_others_def same_core_def)

lemma keepalive_core: "same_core c (start_keepalive resp c)"
  by (simp add: start_keepalive_def same_core_def Let_def)

lemma logged_in_good:
  assumes "env_ok env" "client_inv True c" "cl_con c = None" "i < length (cl_connections c)"
    and "logged_in env i resp u c = (Inr v, d)"
  shows "good (client_inv True) c d"
proof -
  define c1 where "c1 = c\<lparr>cl_con := Some i, cl_user := Some u, cl_state := AUTHENTICATED\<rparr>"
  have c1: "good (client_inv True) c c1"
    using assms(2-4) by (auto simp: c1_def good_def inv_defs evolves_def)
  obtain w k where k: "e_established env i c1 = (w, k)" by fastforce
  have ck: "good (client_inv True) c k" using good_api[OF c1 env_calls(1)[OF assms(1) k]] .
  define c2 where "c2 = (case w of Some _ \<Rightarrow> k | None \<Rightarrow> client_abort Ex_manager_threw k)"
  have c2: "good (client_inv True) c c2" using ck good_abort[OF ck] by (simp add: c2_def split: option.split)
  define e where "e = close_others (start_keepalive resp c2)"
  have "same_core c2 e"
    unfolding e_def using close_others_core keepalive_core same_core_trans by blast
  with c2 have e: "good (client_inv True) c e" by (rule good_core)
  have "start_sync env resp e = (Inr v, d)"
    using assms(5) k by (cases w) (simp_all add: logged_in_def Let_def set_state_eq c1_def e_def c2_def)
  with e start_sync_sound show ?thesis by (rule good_step)
qed

lemma login_resp_good:
  assumes "env_ok env" "client_inv True c" "i < length (cl_connections c)"
    and "process_login_resp env i resp c = (Inr v, d)"
  shows "good (client_inv True) c d"
  using assms soundD[OF sound_ops(1) assms(2)] logged_in_good[OF assms(1,2) _ assms(3)]
  by (auto simp: process_login_resp_def split: if_split_asm sum.splits list.splits)

lemma initial_data_good:
  assumes "env_ok env" "client_inv True c" "initial_data env c = (Inr go, d)"
  shows "good (client_inv True) c d"
proof (cases "e_reactor env")
  case None
  then show ?thesis using assms by (simp add: initial_data_def good_refl)
next
  case (Some r)
  obtain w k where k: "on_initial_data r c = (w, k)" by fastforce
  have ck: "good (client_inv True) c k"
    using good_api[OF good_refl[of "client_inv True", OF assms(2)] env_calls(4)[OF assms(1) Some k]] .
  show ?thesis
  proof (cases w)
    case None
    then obtain v e where e: "disconnect_current ERR_CLOSED_BY_LOCAL k = (Inr v, e)" "d = client_abort Ex_initial_data e"
      using assms(3) Some k by (auto simp: initial_data_def elim: bind_op_InrE)
    show ?thesis unfolding e(2) using good_abort[OF good_step[OF ck sound_ops(2) e(1)]] .
  next
    case (Some x)
    then have "d = k" using assms(3) \<open>e_reactor env = Some r\<close> k by (simp add: initial_data_def)
    with ck show ?thesis by simp
  qed
qed

section \<open>Snapshots and the start of updates\<close>

lemma load_wf: "small_snapshot m \<Longrightarrow> load (Some m) s = (Inr u, t) \<Longrightarrow> store_wf t"
proof -
  assume m: "small_snapshot m" "load (Some m) s = (Inr u, t)"
  obtain t' where "load (Some m) s = (Inr (), t')" "store_wf t'"
    using load_run[OF m(1) load_ok[OF m(1)]] m(2) by (metis old.unit.exhaust)
  with m(2) show ?thesis by simp
qed

lemma store_good:
  "client_inv b c \<Longrightarrow> \<not> cl_initialized c \<Longrightarrow> store_wf s \<Longrightarrow> good (client_inv b) c (c\<lparr>cl_store := s\<rparr>)"
  by (auto simp: good_def inv_defs evolves_def)

lemma initialized_good:
  "client_inv b c \<Longrightarrow> good (client_inv b) c (c\<lparr>cl_initialized := True, cl_state := INITIALIZED\<rparr>)"
  by (auto simp: good_def inv_defs evolves_def)

lemma snapshot_good:
  assumes "env_ok env" "client_inv True c" "process_snapshot_resp env resp c = (Inr u, d)"
    and "\<And>m. sres_snapshot resp = Some m \<Longrightarrow> small_snapshot m"
  shows "good (client_inv True) c d"
proof (cases "cl_state c \<noteq> LOADING_SNAPSHOT \<or> sres_cid resp \<noteq> cl_data_cid c \<or> \<not> sres_accepted resp")
  case True
  then obtain e where "disconnect_current e c = (Inr u, d)"
    using assms(3) by (auto simp: process_snapshot_resp_def split: if_split_asm)
  then show ?thesis using good_step[OF good_refl[of "client_inv True", OF assms(2)] sound_ops(2)] by blast
next
  case False
  then have init: "\<not> cl_initialized c" using assms(2) by (simp add: client_inv_def session_ok_def)
  define tail where "tail go = (if \<not> go then return_op () else (\<lambda>c1.
     let c2 = client_set_state INITIALIZED (c1\<lparr>cl_initialized := True\<rparr>)
     in request_data env SYNCING (\<lambda>cid. create_updates_msg cid (m_rev (cl_store c2))) c2))" for go
  obtain v e k go where e: "(if sres_snapshot resp = None then return_op () else on_store (load (sres_snapshot resp))) c = (Inr v, e)"
    and k: "initial_data env e = (Inr go, k)" and t: "tail go k = (Inr u, d)"
    using assms(3) False by (auto simp: process_snapshot_resp_def tail_def elim!: bind_op_InrE)
  have ce: "good (client_inv True) c e"
  proof (cases "sres_snapshot resp")
    case None
    then show ?thesis using e good_refl[of "client_inv True", OF assms(2)] by simp
  next
    case (Some m)
    then obtain s where "load (Some m) (cl_store c) = (Inr v, s)" "e = c\<lparr>cl_store := s\<rparr>"
      using e by (auto simp: on_store_def split: prod.splits)
    then show ?thesis using store_good[OF assms(2) init load_wf] assms(4)[OF Some] by simp
  qed
  have ck: "good (client_inv True) c k"
    by (rule good_next[OF ce]) (rule initial_data_good[OF assms(1) _ k])
  show ?thesis
  proof (cases go)
    case False
    then show ?thesis using t ck by (simp add: tail_def)
  next
    case True
    let ?k = "k\<lparr>cl_initialized := True, cl_state := INITIALIZED\<rparr>"
    have "good (client_inv True) c ?k" by (rule good_next[OF ck]) (rule initialized_good)
    moreover have "request_data env SYNCING (\<lambda>cid. create_updates_msg cid (m_rev (cl_store ?k))) ?k = (Inr u, d)"
      using t True by (simp add: tail_def set_state_eq)
    ultimately show ?thesis by (rule good_next[OF _ request_data_sound[rotated -1]]) auto
  qed
qed

lemma synced_good: "client_inv b c \<Longrightarrow> good (client_inv b) c (client_set_state SYNCED c)"
  by (rule set_state_good) auto

lemma updates_resp_good:
  assumes "client_inv b c" "cl_running c" "process_updates_resp resp c = (Inr u, d)"
  shows "good (client_inv b) c d"
proof (cases "cl_state c \<noteq> SYNCING \<or> ures_cid resp \<noteq> cl_data_cid c \<or> \<not> ures_accepted resp")
  case True
  then obtain e where "disconnect_current e c = (Inr u, d)"
    using assms(3) by (auto simp: process_updates_resp_def split: if_split_asm)
  then show ?thesis using good_step[OF good_refl[of "client_inv b", OF assms(1)] sound_ops(2)] by blast
next
  case False
  define c1 where "c1 = (if cl_rev0 c = 0 then client_set_state INITIALIZED
      (c\<lparr>cl_store := (cl_store c)\<lparr>m_rev := ures_crev resp\<rparr>, cl_initialized := True\<rparr>) else c)"
  have c1: "good (client_inv b) c c1"
    using assms(1,2) by (auto simp: c1_def set_state_eq good_def inv_defs evolves_def)
  have "d = (if m_rev (cl_store c1) = ures_crev resp then client_set_state SYNCED c1 else c1)"
    using assms(3) False unfolding process_updates_resp_def Let_def c1_def[symmetric] by simp
  then show ?thesis using good_next[OF c1 synced_good] c1 by simp
qed

section \<open>Responses\<close>

lemma discard_older_good: "client_inv b c \<Longrightarrow> good (client_inv b) c (discard_older cid c)"
proof -
  assume c: "client_inv b c"
  let ?n = "length (takeWhile (\<lambda>r. rq_cid r < cid) (cl_requests c))"
  have "good (client_inv b) c (c\<lparr>cl_requests := drop ?n (cl_requests c)\<rparr>)"
    using c by (rule requests_good) (use c in \<open>auto simp: client_inv_def session_ok_def\<close>)
  then show ?thesis unfolding discard_older_def Let_def by (rule good_core) (rule core_drops)
qed

lemma has_request: "client_inv b c \<Longrightarrow> cl_requests c \<noteq> [] \<Longrightarrow> cl_con c \<noteq> None"
  by (auto simp: client_inv_def session_ok_def)

lemma submit_resp_good:
  assumes "client_inv b c" "process_submit_resp resp c = (Inr u, d)"
  shows "good (client_inv b) c d"
proof -
  let ?c = "discard_older (sbres_cid resp) c"
  have c1: "good (client_inv b) c ?c" using assms(1) by (rule discard_older_good)
  then have i1: "client_inv b ?c" by (simp add: good_def)
  consider "d = ?c"
    | r rs i e where "cl_requests ?c = r # rs" "on_tx i (set_submit_code (sbres_code resp)) (pop_request ?c) = (Inr (), e)"
        "d = (if sbres_code resp \<noteq> SC_ACCEPTED then e
           else e\<lparr>cl_accepted := cl_accepted e @ [r\<lparr>rq_erev := sbres_erev resp\<rparr>]\<rparr>)"
    using assms(2)
    by (auto simp: process_submit_resp_def Let_def split: list.splits if_split_asm req_kind.splits elim!: bind_op_InrE)
  then show ?thesis
  proof cases
    case 1
    with c1 show ?thesis by simp
  next
    case 2
    have pop: "good (client_inv b) c (pop_request ?c)" using c1 pop_request_good by (rule good_next)
    have "sound (client_inv b) (on_tx i (set_submit_code (sbres_code resp)))"
      by (rule sound_all_sound[OF sound_all_tx]) (auto intro: life_code)
    with pop have e: "good (client_inv b) c e" using 2(2) by (rule good_step)
    have "cl_con e = cl_con ?c" using 2(2) by (auto simp: on_tx_def pop_request_def split: prod.splits)
    with has_request[OF i1] 2(1) have con: "cl_con e \<noteq> None" by simp
    show ?thesis
      unfolding 2(3) using e good_next[OF e accepted_good] con by simp
  qed
qed

lemma ping_resp_good:
  assumes "client_inv b c" "process_ping_resp resp c = (Inr u, d)"
  shows "good (client_inv b) c d"
proof -
  have refl: "good (client_inv b) c c" using assms(1) by (rule good_refl)
  have finished: "good (client_inv b) c d" if "satisfy_future p v (pop_request c) = (Inr u, d)" for p v
    using good_step[OF pop_request_good[OF assms(1)] sound_ops(5) that] .
  show ?thesis
  proof (cases "cl_requests c")
    case Nil
    then show ?thesis using assms(2) refl by (simp add: process_ping_resp_def)
  next
    case (Cons r rs)
    then show ?thesis
      using assms(2) refl finished by (cases "rq_kind r") (simp_all add: process_ping_resp_def split: if_split_asm)
  qed
qed

lemma initial_sessions_good: "env_ok env \<Longrightarrow> client_inv True c \<Longrightarrow> good (client_inv True) c (initial_sessions env ss c)"
  using reactor_runs(1) api_run_good by blast

lemma drop_core_sound: "sound (client_inv b) (modify_op (drop_request r))"
  by (rule sound_ops(6))

lemma sessions_resp_good:
  assumes "env_ok env" "client_inv True c" "process_sessions_resp env resp c = (Inr u, d)"
  shows "good (client_inv True) c d"
proof -
  let ?P = "client_inv True"
  have drop: "sound ?P (bind_op (disconnect_current e) (\<lambda>_. modify_op (drop_request r)))" for e r
    by (intro sound_bind sound_ops)
  have tell: "sound ?P (bind_op (satisfy_future p v) (\<lambda>_. modify_op (initial_sessions env ss)))" for p v ss
    by (intro sound_bind sound_ops sound_modify initial_sessions_good[OF assms(1)])
  have refl: "good ?P c c" using assms(2) by (rule good_refl)
  have dropped: "good ?P c d"
    if "bind_op (disconnect_current e) (\<lambda>_. modify_op (drop_request r)) (pop_request c) = (Inr u, d)" for e r
    using good_step[OF pop_request_good[OF assms(2)] drop that] .
  have told: "good ?P c d"
    if "bind_op (satisfy_future p v) (\<lambda>_. modify_op (initial_sessions env ss))
        ((pop_request c)\<lparr>cl_sessions_cid := cid\<rparr>) = (Inr u, d)" for p v ss cid
  proof -
    have "good ?P c ((pop_request c)\<lparr>cl_sessions_cid := cid\<rparr>)"
      using pop_request_good[OF assms(2)] by (rule good_core) (simp add: same_core_def)
    from good_step[OF this tell that] show ?thesis .
  qed
  show ?thesis
  proof (cases "cl_requests c")
    case Nil
    then show ?thesis using assms(3) refl by (simp add: process_sessions_resp_def)
  next
    case (Cons r rs)
    show ?thesis
    proof (cases "rq_cid r = ssres_cid resp")
      case False
      then show ?thesis using assms(3) refl Cons by (simp add: process_sessions_resp_def)
    next
      case True
      then show ?thesis
        using assms(3) Cons dropped told
        by (cases "rq_kind r") (auto simp: process_sessions_resp_def Let_def split: if_split_asm)
    qed
  qed
qed

section \<open>Updates\<close>

text \<open>What the loop over the registered transactions does to the heap.\<close>

lemma notify_spec:
  assumes "notify_txs cs is c = (kept, n, d)" "distinct is" "set is \<subseteq> {..< length (cl_heap c)}"
  shows "\<exists>h. d = c\<lparr>cl_heap := h\<rparr> \<and> length h = length (cl_heap c) \<and>
      (\<forall>j. h ! j = (if j \<in> set is \<and> \<not> discardable c j then tx_update cs (cl_heap c ! j) else cl_heap c ! j)) \<and>
      set kept \<subseteq> set is \<and> distinct kept \<and>
      (\<forall>j \<in> set is. \<not> closed_state (tx_state (cl_heap c ! j)) \<longrightarrow> j \<in> set kept)"
  using assms
proof (induction cs "is" c arbitrary: kept n d rule: notify_txs.induct)
  case (1 cs c)
  then show ?case by (intro exI[of _ "cl_heap c"]) auto
next
  case (2 cs i js c)
  have i: "i < length (cl_heap c)" "i \<notin> set js" "distinct js" "set js \<subseteq> {..< length (cl_heap c)}"
    using "2.prems" by auto
  let ?u = "c\<lparr>cl_heap := (cl_heap c)[i := tx_update cs (cl_heap c ! i)]\<rparr>"
  have disc: "discardable ?u j = discardable c j" if "j \<noteq> i" for j
    using that i(1) by (simp add: discardable_def unused_def)
  show ?case
  proof (cases "discardable c i")
    case True
    obtain k m e where e: "notify_txs cs js c = (k, m, e)" by (rule prod_cases3)
    then have r: "kept = i # k" "d = e" using "2.prems"(1) True by simp_all
    from "2.IH"(1)[OF True e i(3,4)] show ?thesis using True i(2) unfolding r by auto
  next
    case live: False
    show ?thesis
    proof (cases "tx_state (cl_heap c ! i) = OPEN")
      case True
      obtain k m e where e: "notify_txs cs js ?u = (k, m, e)" by (rule prod_cases3)
      then have r: "kept = i # k" "d = e" using "2.prems"(1) True live by simp_all
      have "set js \<subseteq> {..< length (cl_heap ?u)}" using i(4) by simp
      from "2.IH"(2)[OF live True e i(3) this] obtain h where h: "e = ?u\<lparr>cl_heap := h\<rparr>"
        "length h = length (cl_heap ?u)"
        "\<And>j. h ! j = (if j \<in> set js \<and> \<not> discardable ?u j then tx_update cs (cl_heap ?u ! j) else cl_heap ?u ! j)"
        "set k \<subseteq> set js" "distinct k"
        "\<forall>j\<in>set js. \<not> closed_state (tx_state (cl_heap ?u ! j)) \<longrightarrow> j \<in> set k" by blast
      have "h ! j = (if j \<in> set (i # js) \<and> \<not> discardable c j then tx_update cs (cl_heap c ! j) else cl_heap c ! j)" for j
        using h(3)[of j] disc[of j] i(1,2) live by (cases "j = i") auto
      moreover have "\<forall>j\<in>set js. \<not> closed_state (tx_state (cl_heap c ! j)) \<longrightarrow> j \<in> set k"
      proof
        fix j assume "j \<in> set js"
        moreover from this have "cl_heap ?u ! j = cl_heap c ! j" using i(2) by (cases "j = i") auto
        ultimately show "\<not> closed_state (tx_state (cl_heap c ! j)) \<longrightarrow> j \<in> set k" using h(6) by simp
      qed
      ultimately show ?thesis
        using h(1,2,4,5) i(2) unfolding r by (intro exI[of _ h]) auto
    next
      case False
      obtain k m e where e: "notify_txs cs js c = (k, m, e)" by (rule prod_cases3)
      have u: "tx_update cs (cl_heap c ! i) = cl_heap c ! i" using False by (rule tx_update_closed)
      have st: "tx_state (cl_heap c ! i) = SUBMITTED \<or> tx_state (cl_heap c ! i) = ACCEPTED"
        using False live by (cases "tx_state (cl_heap c ! i)") (auto simp: discardable_def closed_state_def)
      then have r: "kept = i # k" "d = e" using "2.prems"(1) live e by auto
      have "\<exists>h. e = c\<lparr>cl_heap := h\<rparr> \<and> length h = length (cl_heap c) \<and>
        (\<forall>j. h ! j = (if j \<in> set js \<and> \<not> discardable c j then tx_update cs (cl_heap c ! j) else cl_heap c ! j)) \<and>
        set k \<subseteq> set js \<and> distinct k \<and>
        (\<forall>j \<in> set js. \<not> closed_state (tx_state (cl_heap c ! j)) \<longrightarrow> j \<in> set k)"
        using st "2.IH"(3)[OF live _ e i(3,4)] "2.IH"(4)[OF live _ e i(3,4)] by blast
      then show ?thesis using u i(2) unfolding r by auto
    qed
  qed
qed

lemma notify_fields:
  "notify_txs cs is c = (kept, n, d) \<Longrightarrow>
    \<exists>h. d = c\<lparr>cl_heap := h\<rparr> \<and> length h = length (cl_heap c) \<and> set kept \<subseteq> set is"
proof (induction cs "is" c arbitrary: kept n d rule: notify_txs.induct)
  case (1 cs c)
  then show ?case by (intro exI[of _ "cl_heap c"]) auto
next
  case (2 cs i js c)
  obtain k m e where e: "notify_txs cs js c = (k, m, e)" by (rule prod_cases3)
  let ?u = "c\<lparr>cl_heap := (cl_heap c)[i := tx_update cs (cl_heap c ! i)]\<rparr>"
  obtain k' m' e' where e': "notify_txs cs js ?u = (k', m', e')" by (rule prod_cases3)
  have ih: "\<exists>h. e = c\<lparr>cl_heap := h\<rparr> \<and> length h = length (cl_heap c) \<and> set k \<subseteq> set js"
    if "discardable c i \<or> tx_state (cl_heap c ! i) \<noteq> OPEN"
    using that "2.IH"(1)[OF _ e] "2.IH"(3-)[OF _ _ e]
    by (cases "discardable c i"; cases "tx_state (cl_heap c ! i)") simp_all
  show ?case
  proof (cases "discardable c i \<or> tx_state (cl_heap c ! i) \<noteq> OPEN")
    case True
    have "d = e \<and> set kept \<subseteq> set (i # k)"
      using "2.prems" True e by (cases "tx_state (cl_heap c ! i)") (auto split: if_split_asm)
    with ih[OF True] show ?thesis by auto
  next
    case False
    then have "d = e'" "kept = i # k'" using "2.prems" e' by auto
    moreover have "\<exists>h. e' = ?u\<lparr>cl_heap := h\<rparr> \<and> length h = length (cl_heap ?u) \<and> set k' \<subseteq> set js"
      using False by (intro "2.IH"(2)[OF _ _ e']) auto
    ultimately show ?thesis by auto
  qed
qed

text \<open>What the cancellation of accepted submissions does to the heap: open transactions stay as they are.\<close>

definition open_kept :: "client \<Rightarrow> client \<Rightarrow> bool" where
  "open_kept c d \<longleftrightarrow>
     (\<forall>j. tx_state (cl_heap c ! j) = OPEN \<longrightarrow> cl_heap d ! j = cl_heap c ! j) \<and>
     (\<forall>j. tx_state (cl_heap c ! j) \<noteq> OPEN \<longrightarrow> tx_state (cl_heap d ! j) \<noteq> OPEN) \<and>
     cl_store d = cl_store c"

lemma open_kept_trans: "open_kept a b \<Longrightarrow> open_kept b c \<Longrightarrow> open_kept a c"
  unfolding open_kept_def by metis

lemma open_kept_refl: "open_kept c c"
  by (simp add: open_kept_def)

lemma each_op_relates:
  assumes "\<And>x s a t. f x s = (Inr a, t) \<Longrightarrow> open_kept s t"
  shows "each_op f xs c = (Inr us, d) \<Longrightarrow> open_kept c d"
proof (induction xs arbitrary: c us)
  case Nil
  then show ?case by (simp add: open_kept_refl)
next
  case (Cons x xs)
  then obtain a e vs k where "f x c = (Inr a, e)" "each_op f xs e = (Inr vs, k)" "k = d"
    unfolding each_op_bind by (elim bind_op_InrE) simp
  with Cons.IH assms open_kept_trans show ?case by blast
qed

lemma error_open_kept:
  assumes "on_tx i (set_submit_error e) c = (Inr u, d)"
  shows "open_kept c d"
proof -
  obtain r t where t: "set_submit_error e (cl_heap c ! i) = (r, t)" by fastforce
  then have d: "d = c\<lparr>cl_heap := (cl_heap c)[i := t]\<rparr>" using assms by (simp add: on_tx_def)
  have "tx_state (cl_heap c ! i) = OPEN \<Longrightarrow> t = cl_heap c ! i"
    using t by (auto simp: set_submit_error_def split: if_split_asm)
  moreover have "tx_state (cl_heap c ! i) \<noteq> OPEN \<Longrightarrow> tx_state t \<noteq> OPEN"
    using life_not_open[OF life_error[OF t]] .
  ultimately show ?thesis
    unfolding d open_kept_def by (cases "i < length (cl_heap c)") (auto simp: nth_list_update list_update_beyond)
qed

lemma discard_turn:
  "sound (client_inv b) (bind_op (modify_op pop_accepted) (\<lambda>_. case rq_kind r of
       Submit_req i force \<Rightarrow> on_tx i (set_submit_error Ex_unexpected_update) | _ \<Rightarrow> raise_op Ex_crash))"
  by (intro sound_bind sound_modify pop_accepted_good)
    (auto intro: sound_raise sound_all_sound[OF sound_all_tx] life_error split: req_kind.split)

lemma discard_accepted_sound: "sound (client_inv b) (discard_accepted rv)"
proof -
  have "sound (client_inv b) (bind_op (each_op (\<lambda>r. bind_op (modify_op pop_accepted) (\<lambda>_. case rq_kind r of
       Submit_req i force \<Rightarrow> on_tx i (set_submit_error Ex_unexpected_update) | _ \<Rightarrow> raise_op Ex_crash)) rs)
       (\<lambda>_. return_op ()))" for rs
    by (intro sound_bind sound_each discard_turn sound_return)
  then show ?thesis unfolding discard_accepted_def[abs_def] by (rule sound_depend)
qed

lemma discard_accepted_open: "discard_accepted rv c = (Inr u, d) \<Longrightarrow> open_kept c d"
proof -
  assume "discard_accepted rv c = (Inr u, d)"
  then obtain us where us: "each_op (\<lambda>r. bind_op (modify_op pop_accepted) (\<lambda>_. case rq_kind r of
       Submit_req i force \<Rightarrow> on_tx i (set_submit_error Ex_unexpected_update) | _ \<Rightarrow> raise_op Ex_crash))
       (takeWhile (\<lambda>r. rq_erev r < rv) (cl_accepted c)) c = (Inr us, d)"
    unfolding discard_accepted_def by (elim bind_op_InrE) simp
  show ?thesis
  proof (rule each_op_relates[OF _ us])
    fix r s a t
    assume "bind_op (modify_op pop_accepted) (\<lambda>_. case rq_kind r of
       Submit_req i force \<Rightarrow> on_tx i (set_submit_error Ex_unexpected_update) | _ \<Rightarrow> raise_op Ex_crash) s = (Inr a, t)"
    then obtain i where "on_tx i (set_submit_error Ex_unexpected_update) (pop_accepted s) = (Inr a, t)"
      by (auto elim!: bind_op_InrE split: req_kind.splits)
    then have "open_kept (pop_accepted s) t" by (rule error_open_kept)
    then show "open_kept s t" by (simp add: open_kept_def pop_accepted_def)
  qed
qed

lemma confirm_accepted_sound: "sound (client_inv b) (confirm_accepted rv)"
  unfolding sound_def
proof (intro allI impI)
  fix c a d assume c: "client_inv b c" "confirm_accepted rv c = (Inr a, d)"
  have "sound (client_inv b) (on_tx i confirm_commit)" for i
    by (rule sound_all_sound[OF sound_all_tx]) (rule life_confirm)
  from good_step[OF pop_accepted_good[OF c(1)] this] good_refl[of "client_inv b", OF c(1)] c(2)
  show "good (client_inv b) c d"
    by (auto simp: confirm_accepted_def split: list.splits if_split_asm req_kind.splits)
qed

text \<open>The changes of an update reach every transaction the program holds.\<close>

definition told :: "change list \<Rightarrow> client \<Rightarrow> client \<Rightarrow> bool" where
  "told cs c d \<longleftrightarrow>
     (\<forall>i. tx_state (cl_heap d ! i) = tx_state (cl_heap c ! i)) \<and>
     (\<not> cl_stopped c \<longrightarrow> (\<forall>i \<in> set (cl_held c). cl_heap d ! i = tx_update cs (cl_heap c ! i)))"

lemma update_transactions_told:
  assumes "client_inv b c" "notify_txs cs (cl_transactions c) c = (kept, n, d)"
  shows "client_inv b (d\<lparr>cl_transactions := kept\<rparr>)" "solid c \<Longrightarrow> told cs c d"
    "\<exists>h. d = c\<lparr>cl_heap := h\<rparr> \<and> length h = length (cl_heap c)"
proof -
  obtain h where h: "d = c\<lparr>cl_heap := h\<rparr>" "length h = length (cl_heap c)" "set kept \<subseteq> set (cl_transactions c)"
    using notify_fields[OF assms(2)] by blast
  show "\<exists>h. d = c\<lparr>cl_heap := h\<rparr> \<and> length h = length (cl_heap c)" using h by blast
  have outer: "session_ok (d\<lparr>cl_transactions := kept\<rparr>)" "wake_ok b (d\<lparr>cl_transactions := kept\<rparr>)"
    using assms(1) h by (auto simp: client_inv_def session_ok_def wake_ok_def)
  have inner: "heap_ok (d\<lparr>cl_transactions := kept\<rparr>) \<and> registry_ok (d\<lparr>cl_transactions := kept\<rparr>) \<and> told cs c d"
    if s: "solid c"
  proof -
    have hr: "heap_ok c" "registry_ok c" using assms(1) s by (simp_all add: client_inv_def)
    then have "distinct (cl_transactions c)" "set (cl_transactions c) \<subseteq> {..< length (cl_heap c)}"
      by (auto simp: registry_ok_def)
    from notify_spec[OF assms(2) this] h(1) have spec:
      "\<And>j. h ! j = (if j \<in> set (cl_transactions c) \<and> \<not> discardable c j then tx_update cs (cl_heap c ! j) else cl_heap c ! j)"
      "distinct kept"
      "\<And>j. j \<in> set (cl_transactions c) \<Longrightarrow> \<not> closed_state (tx_state (cl_heap c ! j)) \<Longrightarrow> j \<in> set kept"
      by (auto dest: arg_cong[where f = cl_heap])
    have st: "tx_state (h ! j) = tx_state (cl_heap c ! j)" for j using spec(1)[of j] by (simp add: tx_update_state)
    have "tx_wf u \<and> promise_ok u" if "u \<in> set h" for u
    proof -
      from that obtain j where j: "j < length (cl_heap c)" "u = h ! j" using h(2) by (metis in_set_conv_nth)
      then have "tx_wf (cl_heap c ! j)" "promise_ok (cl_heap c ! j)" using hr(1) by (simp_all add: heap_ok_def)
      then show ?thesis
        using j(2) spec(1)[of j] tx_update_wf frame_ok[OF conjunct1[OF tx_update_frame]] by simp
    qed
    then have "heap_ok (d\<lparr>cl_transactions := kept\<rparr>)" using hr(1) h(1) by (simp add: heap_ok_def)
    moreover have "registry_ok (d\<lparr>cl_transactions := kept\<rparr>)"
      using hr(2) h spec(2,3) by (auto simp: registry_ok_def st)
    moreover have "h ! i = tx_update cs (cl_heap c ! i)" if i: "\<not> cl_stopped c" "i \<in> set (cl_held c)" for i
    proof (cases "closed_state (tx_state (cl_heap c ! i))")
      case True
      then show ?thesis using spec(1)[of i] tx_update_closed by (auto simp: closed_state_def)
    next
      case False
      then have "i \<in> set (cl_transactions c)" "\<not> discardable c i"
        using i hr(2) by (auto simp: registry_ok_def discardable_def unused_def)
      then show ?thesis using spec(1)[of i] by simp
    qed
    ultimately show ?thesis using st h(1) by (simp add: told_def)
  qed
  then show "client_inv b (d\<lparr>cl_transactions := kept\<rparr>)" "solid c \<Longrightarrow> told cs c d"
    using outer h(1) by (auto simp: client_inv_def solid_def)
qed

lemma commit_good:
  assumes "client_inv b c" "update upd (cl_store c) = (Inr (cs, ma), s)" "\<And>x. upd = Some x \<Longrightarrow> small_update x"
    and "discard_accepted rv (c\<lparr>cl_store := s\<rparr>) = (Inr u, c2)" "ma \<noteq> None"
  shows "good (client_inv b) c (update_transactions cs c2)"
proof -
  define c1 where "c1 = c\<lparr>cl_store := s\<rparr>"
  obtain x where x: "upd = Some x" using assms(2,5) by (cases upd) (auto simp: update_def update_internal_def)
  have commit: "commits (cl_store c) cs s" using assms(2,3) x unfolding commits_def by blast
  have i1: "client_inv b c1"
    using assms(1) feed.commit_ok[OF _ commit] by (auto simp: c1_def inv_defs)
  have c12: "good (client_inv b) c1 c2"
    using good_step[OF good_refl[of "client_inv b", OF i1] discard_accepted_sound] assms(4) by (simp add: c1_def)
  have open_c: "open_kept c1 c2" using discard_accepted_open assms(4) by (simp add: c1_def)
  obtain kept n d where d: "notify_txs cs (cl_transactions c2) c2 = (kept, n, d)" by (rule prod_cases3)
  have i2: "client_inv b c2" using c12 by (simp add: good_def)
  note tr = update_transactions_told[OF i2 d]
  obtain h where h: "d = c2\<lparr>cl_heap := h\<rparr>" "length h = length (cl_heap c2)" using tr(3) by blast
  have e12: "evolves c1 c2" using c12 by (simp add: good_def)
  have run: "tx_run True UNIV (cl_store c, cl_heap c ! i) (s, h ! i)"
    if "cl_initialized c" "cl_rev0 c \<noteq> 0" "\<not> cl_stopped c2" "i \<in> set (cl_held c2)" "i < length (cl_heap c)" for i
  proof -
    have s: "cl_store c2 = s" using open_c by (simp add: open_kept_def c1_def)
    have "solid c2" using that(2) e12 by (simp add: evolves_def solid_def c1_def)
    then have h_i: "h ! i = tx_update cs (cl_heap c2 ! i)" using tr(2) that(3,4) h(1) by (simp add: told_def)
    have first: "tx_step True UNIV (cl_store c, cl_heap c ! i) (s, tx_update cs (cl_heap c ! i))"
      using commit by (rule step_commit)
    show ?thesis
    proof (cases "tx_state (cl_heap c ! i) = OPEN")
      case True
      then have "cl_heap c2 ! i = cl_heap c ! i" using open_c by (simp add: open_kept_def c1_def)
      with first h_i show ?thesis by auto
    next
      case False
      then have "tx_state (cl_heap c2 ! i) \<noteq> OPEN" using open_c by (simp add: open_kept_def c1_def)
      then have "h ! i = cl_heap c2 ! i" using h_i tx_update_closed by simp
      moreover have "tx_run True UNIV (s, cl_heap c ! i) (s, cl_heap c2 ! i)"
        using e12 that s by (auto simp: evolves_def c1_def)
      ultimately show ?thesis using first tx_update_closed[OF False, of cs] by (auto intro: converse_rtranclp_into_rtranclp)
    qed
  qed
  have "cl_store c2 = s" using open_c by (simp add: open_kept_def c1_def)
  then have "evolves c (d\<lparr>cl_transactions := kept\<rparr>)"
    using e12 h run unfolding evolves_def by (auto simp: c1_def)
  then have "good (client_inv b) c (d\<lparr>cl_transactions := kept\<rparr>)" using tr(1) by (simp add: good_def)
  then show ?thesis
    using good_next[OF _ purge_good] by (simp add: update_transactions_def d Let_def)
qed

lemma process_update_good:
  assumes "env_ok env" "client_inv True c" "process_update env upd c = (Inr u, d)" "\<And>x. upd = Some x \<Longrightarrow> small_update x"
  shows "good (client_inv True) c d"
proof -
  obtain cs ma s where s: "update upd (cl_store c) = (Inr (cs, ma), s)"
    using assms(3) by (auto simp: process_update_def on_store_def elim!: bind_op_InrE split: prod.splits)
  then obtain a where a: "ma = Some a"
    using assms(3) by (cases ma) (auto simp: process_update_def on_store_def bind_op_def)
  let ?rv = "meta_rev (heap s ! a)"
  have "bind_op (discard_accepted ?rv) (\<lambda>_. bind_op (modify_op (update_transactions cs)) (\<lambda>_.
      bind_op (confirm_accepted ?rv) (\<lambda>_. modify_op (react_to_data env a cs)))) (c\<lparr>cl_store := s\<rparr>) = (Inr u, d)"
  proof -
    have "bind_op (on_store (update upd)) f c = f (cs, ma) (c\<lparr>cl_store := s\<rparr>)" for f :: "_ \<Rightarrow> (client, unit) op"
      by (rule bind_op_Inr) (simp add: on_store_def s)
    then show ?thesis using assms(3) a by (simp add: process_update_def Let_def)
  qed
  then obtain v c2 w c4 where c2: "discard_accepted ?rv (c\<lparr>cl_store := s\<rparr>) = (Inr v, c2)"
    and c4: "confirm_accepted ?rv (update_transactions cs c2) = (Inr w, c4)" and d: "d = react_to_data env a cs c4"
    by (auto elim!: bind_op_InrE)
  have "good (client_inv True) c (update_transactions cs c2)" by (rule commit_good[OF assms(2) s assms(4) c2]) (simp_all add: a)
  then have "good (client_inv True) c c4" using confirm_accepted_sound c4 by (rule good_step)
  then show ?thesis unfolding d using reactor_runs(2)[OF assms(1)] by (rule good_api)
qed

section \<open>Pushes and messages\<close>

lemma push_update_sound:
  assumes "env_ok env" "\<And>x. upd = Some x \<Longrightarrow> small_update x"
  shows "sound (client_inv True) (push_update env crev upd)"
proof -
  have "sound (client_inv True) (process_update env upd)"
    unfolding sound_def using process_update_good[OF assms(1) _ _ assms(2)] by blast
  then show ?thesis
    unfolding push_update_def
    by (intro sound_bind sound_modify) (auto intro: synced_good good_refl)
qed

lemma updates_push_sound:
  assumes "env_ok env" "\<And>x. Some x \<in> set (vector (upush_updates resp)) \<Longrightarrow> small_update x"
  shows "sound (client_inv True) (process_updates_push env resp)"
proof -
  have "sound (client_inv True) (bind_op (each_op (push_update env (upush_crev resp)) (vector (upush_updates resp))) (\<lambda>_. return_op ()))"
    by (intro sound_bind sound_each sound_return push_update_sound[OF assms(1)]) (use assms(2) in auto)
  then show ?thesis
    unfolding process_updates_push_def[abs_def] by (intro sound_cond sound_ops)
qed

lemma sessions_push_sound:
  assumes "env_ok env"
  shows "sound (client_inv True) (process_sessions_push env resp)"
proof -
  have "sound (client_inv True) (\<lambda>c. case spush_session resp of None \<Rightarrow> disconnect_current ERR_MSG_ERROR c
      | Some m \<Rightarrow> (Inr (), case e_reactor env of None \<Rightarrow> c | Some r \<Rightarrow> on_event_session r (to_session_t m) c))"
  proof (cases "spush_session resp")
    case None
    then show ?thesis by (simp add: sound_ops)
  next
    case (Some m)
    have "sound (client_inv True) (\<lambda>c. (Inr (), case e_reactor env of None \<Rightarrow> c
        | Some r \<Rightarrow> on_event_session r (to_session_t m) c))"
      by (rule sound_done) (rule api_run_good[OF reactor_runs(3)[OF assms]])
    with Some show ?thesis by simp
  qed
  then show ?thesis
    unfolding process_sessions_push_def[abs_def] by (intro sound_cond sound_ops)
qed

lemma on_msg_received_good:
  assumes "env_ok env" "client_inv True c" "cl_running c" "i < length (cl_connections c)" "small_message m"
    and "on_msg_received env i m c = (Inr u, d)"
  shows "good (client_inv True) c d"
proof -
  have refl: "good (client_inv True) c c" using assms(2) by (rule good_refl)
  have cut: "good (client_inv True) c d" if "disconnect_con e i c = (Inr u, d)" for e
    using good_step[OF refl sound_ops(1) that] .
  show ?thesis
  proof (cases "msg_content m")
    case None
    then show ?thesis using assms(6) cut by (simp add: on_msg_received_def)
  next
    case (Some content)
    show ?thesis
    proof (cases "\<exists>resp. content = LOGIN_RESPONSE resp")
      case True
      then show ?thesis using assms(6) Some login_resp_good[OF assms(1,2,4)] by (auto simp: on_msg_received_def)
    next
      case other: False
      show ?thesis
      proof (cases "cl_con c = Some i")
        case False
        with assms(6) Some other cut show ?thesis
          by (cases content) (auto simp: on_msg_received_def)
      next
        case con: True
        let ?c = "report_server_activity c"
        have r: "good (client_inv True) c ?c" using good_core[OF refl core_report] .
        have run: "cl_running ?c" using core_fields(15)[OF core_report] assms(3) by simp
        have cut: "good (client_inv True) c d" if "disconnect_con e i ?c = (Inr u, d)" for e
          using good_step[OF r sound_ops(1) that] .
        note tac = assms(6) Some con
        have small: "content = UPDATES_PUSH p \<Longrightarrow> Some x \<in> set (vector (upush_updates p)) \<Longrightarrow> small_update x"
          "content = SNAPSHOT_RESPONSE q \<Longrightarrow> sres_snapshot q = Some y \<Longrightarrow> small_snapshot y" for p x q y
          using assms(5) Some by (auto simp: small_message_def)
        show ?thesis
        proof (cases content)
          case (SUBMIT_RESPONSE resp)
          then show ?thesis using tac good_next[OF r submit_resp_good] by (simp add: on_msg_received_def)
        next
          case (SNAPSHOT_RESPONSE resp)
          then show ?thesis using tac small(2) by (intro good_next[OF r snapshot_good[OF assms(1)]]) (auto simp: on_msg_received_def)
        next
          case (UPDATES_RESPONSE resp)
          then show ?thesis using tac good_next[OF r updates_resp_good[OF _ run]] by (simp add: on_msg_received_def)
        next
          case (UPDATES_PUSH resp)
          then show ?thesis using tac small(1)
            by (intro good_step[OF r updates_push_sound[OF assms(1)], where a = u]) (auto simp: on_msg_received_def)
        next
          case (KEEPALIVE_PUSH resp)
          then show ?thesis using tac r by (simp add: on_msg_received_def process_keepalive_push_def)
        next
          case (PING_RESPONSE resp)
          then show ?thesis using tac good_next[OF r ping_resp_good] by (simp add: on_msg_received_def)
        next
          case (SESSIONS_RESPONSE resp)
          then show ?thesis using tac good_next[OF r sessions_resp_good[OF assms(1)]] by (simp add: on_msg_received_def)
        next
          case (SESSIONS_PUSH resp)
          then show ?thesis using tac by (intro good_step[OF r sessions_push_sound[OF assms(1)], where a = u]) (auto simp: on_msg_received_def)
        qed (use tac cut other in \<open>auto simp: on_msg_received_def\<close>)
      qed
    qed
  qed
qed

section \<open>Events\<close>

text \<open>A callback that has not thrown has kept the invariant.\<close>

definition fine :: "client \<Rightarrow> outcome \<Rightarrow> bool" where
  "fine c w \<longleftrightarrow> (\<forall>u d. w = (Inr u, d) \<longrightarrow> good (client_inv True) c d)"

lemma con_read_fine:
  assumes "env_ok env" "small_decoder decode" "client_inv True c" "cl_running c" "i < length (cl_connections c)"
  shows "fine c (con_read decode env i nread base c)"
  unfolding con_read_def
proof (rule cb_tcp_read_keeps)
  fix m w
  assume m: "\<exists>x. decode x = Some m" and w: "fine c w"
  have small: "small_message m" using m assms(2) by (auto simp: small_decoder_def)
  show "fine c (unless_thrown (on_msg_received env i m) w)"
    unfolding fine_def
  proof (intro allI impI)
    fix u d assume d: "unless_thrown (on_msg_received env i m) w = (Inr u, d)"
    then obtain v e where e: "w = (Inr v, e)" "on_msg_received env i m e = (Inr u, d)"
      by (auto simp: unless_thrown_def split: prod.splits sum.splits)
    have ce: "good (client_inv True) c e" using w e(1) by (simp add: fine_def)
    then have "cl_running e" "i < length (cl_connections e)" using assms(4,5) by (simp_all add: good_def evolves_def)
    with ce show "good (client_inv True) c d"
      by (rule_tac good_next[OF ce on_msg_received_good[OF assms(1) _ _ _ small e(2)]]) auto
  qed
next
  fix f w assume "fine c w"
  then show "fine c (unless_thrown (modify_op (update_con i f)) w)"
    using good_core[OF _ core_update_con] by (auto simp: fine_def unless_thrown_def split: prod.splits sum.splits)
next
  show "fine c (Inr (), c)" using assms(3) good_refl[of "client_inv True"] by (simp add: fine_def)
qed

lemma handle_event_good:
  assumes "env_ok env" "small_decoder decode" "client_inv True c" "cl_running c" "enabled ev c"
    and "handle_event decode env ev c = (Inr u, d)"
  shows "good (client_inv True) c d"
proof -
  have refl: "good (client_inv True) c c" using assms(3) by (rule good_refl)
  have upd: "good (client_inv True) c (update_con i f c)" for i f
    using good_core[OF refl core_update_con] .
  show ?thesis
  proof (cases ev)
    case (Ev_connected i status)
    obtain t k where "cb_tcp_connect status (cl_connections c ! i) = (t, k)" by fastforce
    then show ?thesis
      using assms(6) Ev_connected good_step[OF upd established_sound] upd
      by (auto simp: handle_event_def con_connected_def Let_def split: if_split_asm)
  next
    case (Ev_written i status)
    obtain t k where k: "cb_tcp_write status (cl_connections c ! i) = (t, k)" by fastforce
    have "same_core e (on_msg_delivered i e)" for e by (simp add: on_msg_delivered_def core_report)
    then have "good (client_inv True) c (on_msg_delivered i (update_con i (\<lambda>_. k) c))"
      using good_core[OF upd[of i "\<lambda>_. k"]] by blast
    moreover have "d = (if t then on_msg_delivered i (update_con i (\<lambda>_. k) c) else update_con i (\<lambda>_. k) c)"
      using assms(6) Ev_written k by (auto simp: handle_event_def con_written_def Let_def split: if_split_asm)
    ultimately show ?thesis using upd[of i "\<lambda>_. k"] by simp
  next
    case (Ev_read i nread base)
    then have "i < length (cl_connections c)" using assms(5) by (simp add: enabled_def)
    from con_read_fine[OF assms(1-4) this] show ?thesis using assms(6) Ev_read by (simp add: handle_event_def fine_def)
  next
    case (Ev_closed i)
    then show ?thesis
      using assms(6) good_step[OF upd on_connection_closed_sound[OF assms(1)]] by (simp add: handle_event_def con_closed_def)
  next
    case Ev_timer_lost
    let ?e = "c\<lparr>cl_timer_lost := map_option (timer_again (cl_now c)) (cl_timer_lost c)\<rparr>"
    have "good (client_inv True) c ?e" using refl by (rule good_core) (simp add: same_core_def)
    from good_step[OF this on_connection_lost_sound] show ?thesis using assms(6) Ev_timer_lost by (simp add: handle_event_def)
  next
    case Ev_timer_reconnect
    have "good (client_inv True) c (c\<lparr>cl_timer_reconnect := None\<rparr>)"
      using refl by (rule good_core) (simp add: same_core_def)
    from good_step[OF this try_to_connect_sound] show ?thesis using assms(6) Ev_timer_reconnect by (simp add: handle_event_def)
  next
    case Ev_async
    then show ?thesis using assms(6) process_commands_good[OF assms(3)] by (simp add: handle_event_def)
  next
    case Ev_signal
    then have "d = client_abort Ex_signal c" using assms(6) by (simp add: handle_event_def)
    with good_abort[OF refl, of Ex_signal] show ?thesis by (simp only:)
  qed
qed

section \<open>Histories\<close>

lemma new_client_inv: "new_client uv_ok now p = Inr c \<Longrightarrow> client_inv True c"
  using empty_store_wf by (auto simp: new_client_def inv_defs Let_def split: if_split_asm sum.splits)

lemma set_initial_rev_inv:
  assumes "client_inv True c" "set_initial_rev r c = (q, d)"
  shows "client_inv True d"
proof (cases "cl_running c")
  case True
  with assms show ?thesis by (simp add: set_initial_rev_def split: if_split_asm)
next
  case False
  then have "d = c \<or> d = c\<lparr>cl_rev0 := r\<rparr>" using assms(2) by (auto simp: set_initial_rev_def split: if_split_asm)
  moreover have "client_inv True (c\<lparr>cl_rev0 := r\<rparr>)"
    using assms(1) False unfolding inv_defs by simp
  ultimately show ?thesis using assms(1) by blast
qed

lemma run_begin_inv:
  assumes "client_inv True c" "run_begin env c = (Inr go, d)"
  shows "client_inv True d"
proof (cases "cl_running c \<or> cl_state c \<noteq> OFFLINE")
  case True
  with assms show ?thesis by (simp add: run_begin_def)
next
  case False
  let ?e = "c\<lparr>cl_running := True, cl_error := None, cl_con := None\<rparr>"
  have "client_inv True ?e"
    using assms(1) False by (cases "cl_con c") (auto simp: inv_defs)
  moreover obtain v where "try_to_connect env ?e = (Inr v, d)"
    using assms(2) False by (auto simp: run_begin_def elim: bind_op_InrE)
  ultimately show ?thesis using soundD[OF try_to_connect_sound] by (auto simp: good_def)
qed

lemma reach_inv:
  assumes "small_decoder decode"
  shows "reach decode r c \<Longrightarrow> r = Inr () \<Longrightarrow> client_inv True c"
proof (induction rule: reach.induct)
  case (reach_new uv_ok now p c)
  then show ?case using new_client_inv by blast
next
  case (reach_rev c r q c')
  then show ?case using set_initial_rev_inv by blast
next
  case (reach_begin c env go c')
  then show ?case using run_begin_inv by blast
next
  case (reach_api c c')
  then show ?case using api_good by (auto simp: good_def)
next
  case (reach_event c env ev r c')
  then show ?case using handle_event_good[OF _ assms] by (auto simp: good_def)
qed simp

text \<open>The steps of a client, as a relation between its states.\<close>

inductive client_step :: "decoder \<Rightarrow> client \<Rightarrow> client \<Rightarrow> bool" for decode where
  cs_api: "api_step c d \<Longrightarrow> client_step decode c d"
| cs_event:
    "cl_running c \<Longrightarrow> env_ok env \<Longrightarrow> enabled ev c \<Longrightarrow> handle_event decode env ev c = (Inr (), d) \<Longrightarrow>
       client_step decode c d"

lemma client_step_good:
  assumes "small_decoder decode"
  shows "client_step decode c d \<Longrightarrow> client_inv True c \<Longrightarrow> good (client_inv True) c d"
  by (induction rule: client_step.induct) (auto intro: api_good handle_event_good[OF _ assms])

lemma client_steps_good:
  assumes "small_decoder decode" "client_inv True c"
  shows "(client_step decode)\<^sup>*\<^sup>* c d \<Longrightarrow> good (client_inv True) c d"
proof (induction rule: rtranclp_induct)
  case base
  show ?case using assms(2) by (rule good_refl)
next
  case (step d e)
  then show ?case using good_next client_step_good[OF assms(1)] by blast
qed

end
