(* ===== verification/Nplex_Client_Safety.thy ===== *)
theory Nplex_Client_Safety
  imports Nplex_Client_History Nplex_Connection_Spec
begin

text \<open>
  What the client promises over every history of calls and events: the queue of commands is worked off
  in order, the session and its queues fit the state of the client, and a transaction inside the client
  lives a history of its own on the store of the client.
\<close>

section \<open>The queue of commands\<close>

text \<open>The commands in order, up to the one that closes the client; it destroys the ones behind it.\<close>

primrec run_commands :: "env \<Rightarrow> command list \<Rightarrow> (client, unit) op" where
  "run_commands env [] c = (Inr (), c)"
| "run_commands env (cmd # cmds) c =
     (if cmd = Close_cmd then (Inr (), client_abort Ex_closed_by_user (c\<lparr>cl_commands := cmds\<rparr>))
      else bind_op (process_command env cmd) (\<lambda>_. run_commands env cmds) (c\<lparr>cl_commands := cmds\<rparr>))"

lemma issue_state: "cl_state (snd (issue env r msg c)) = cl_state c"
proof -
  have "same_core (c\<lparr>cl_correlation := cl_correlation c + 1\<rparr>)
      (snd (client_send env (msg (cl_correlation c)) (c\<lparr>cl_correlation := cl_correlation c + 1\<rparr>)))"
    by (rule core_client_send)
  from core_fields(2)[OF this] core_fields(2)[OF core_drop] show ?thesis
    by (auto simp: issue_def Let_def split: prod.split sum.split)
qed

lemma request_command_keeps:
  assumes "cmd \<noteq> Close_cmd" "process_command env cmd c = (r, d)"
  shows "cl_commands d = cl_commands c" "cl_state d = cl_state c"
proof -
  have "cl_commands (snd (process_command env cmd c)) = cl_commands c \<and>
      cl_state (snd (process_command env cmd c)) = cl_state c"
    using assms(1) issue_commands issue_state core_fields(2,5)[OF core_satisfy]
    by (cases cmd) (auto simp: process_command_def process_submit_cmd_def process_ping_cmd_def
        process_sessions_cmd_def on_tx_def split: req_kind.split prod.split)
  then show "cl_commands d = cl_commands c" "cl_state d = cl_state c" using assms(2) by simp_all
qed

lemma close_command_closes:
  "\<not> is_closed c \<Longrightarrow> process_command env Close_cmd c = (Inr (), client_abort Ex_closed_by_user c)"
  "\<not> is_closed c \<Longrightarrow> cl_commands (client_abort x c) = [] \<and> is_closed (client_abort x c)"
  using core_fields(2,5)[OF abort_core[of c x]]
  by (simp_all add: process_command_def process_close_cmd_def is_closed_def)

lemma command_loop_empty: "cl_commands c = [] \<Longrightarrow> command_loop n env c = (Inr (), c)"
  by (cases n) simp_all

lemma command_loop_reference:
  assumes "\<not> is_closed c" "length (cl_commands c) \<le> n"
  shows "command_loop n env c = run_commands env (cl_commands c) c"
  using assms
proof (induction "cl_commands c" arbitrary: c n)
  case Nil
  then show ?case using command_loop_empty[of c] by simp
next
  case (Cons cmd cmds)
  let ?e = "c\<lparr>cl_commands := cmds\<rparr>"
  obtain m where n: "n = Suc m" "length cmds \<le> m" using Cons.hyps(2)[symmetric] Cons.prems(2) by (cases n) auto
  have open_e: "\<not> is_closed ?e" using Cons.prems(1) by (simp add: is_closed_def)
  show ?case
  proof (cases "cmd = Close_cmd")
    case True
    then show ?thesis
      using n Cons.hyps(2)[symmetric] close_command_closes[OF open_e]
      by (simp add: bind_op_Inr command_loop_empty)
  next
    case False
    have "bind_op (process_command env cmd) (\<lambda>_. command_loop m env) ?e =
        bind_op (process_command env cmd) (\<lambda>_. run_commands env cmds) ?e"
    proof (cases "process_command env cmd ?e")
      case (Pair r d)
      with request_command_keeps[OF False Pair] open_e have "cl_commands d = cmds" "\<not> is_closed d"
        by (simp_all add: is_closed_def)
      then have "command_loop m env d = run_commands env cmds d" using Cons.hyps(1)[of d] n by simp
      with Pair show ?thesis by (cases r) (simp_all add: bind_op_Inl bind_op_Inr)
    qed
    then show ?thesis using False n Cons.hyps(2)[symmetric] by simp
  qed
qed

lemma run_commands_end:
  "\<not> is_closed c \<Longrightarrow> cl_commands c = cmds \<Longrightarrow> run_commands env cmds c = (Inr u, d) \<Longrightarrow>
     cl_commands d = [] \<and> (is_closed d \<longleftrightarrow> Close_cmd \<in> set cmds)"
proof (induction cmds arbitrary: c)
  case Nil
  then show ?case by simp
next
  case (Cons cmd cmds)
  let ?e = "c\<lparr>cl_commands := cmds\<rparr>"
  have open_e: "\<not> is_closed ?e" using Cons.prems(1) by (simp add: is_closed_def)
  show ?case
  proof (cases "cmd = Close_cmd")
    case True
    then show ?thesis using close_command_closes(2)[OF open_e] Cons.prems(3) by auto
  next
    case False
    with Cons.prems(3) obtain v e where e: "process_command env cmd ?e = (Inr v, e)" "run_commands env cmds e = (Inr u, d)"
      by (auto elim: bind_op_InrE)
    from request_command_keeps[OF False e(1)] open_e have "\<not> is_closed e" "cl_commands e = cmds"
      by (simp_all add: is_closed_def)
    then show ?thesis using Cons.IH e(2) False by simp
  qed
qed

text \<open>
  C15: The loop of \<open>process_commands\<close> ends: as many turns as there are commands do what any larger number
  of turns does.  It works the commands off in the order they were queued, each once, up to the one that
  closes the client, and when it returns the queue is empty and the client closed exactly if a command
  said so.  Commands queued behind a close are dropped.
\<close>

theorem process_commands_drains:
  assumes "\<not> is_closed c"
  shows "process_commands env c = run_commands env (cl_commands c) c \<and>
    (\<forall>n. length (cl_commands c) \<le> n \<longrightarrow> command_loop n env c = process_commands env c) \<and>
    (\<forall>u d. process_commands env c = (Inr u, d) \<longrightarrow>
       cl_commands d = [] \<and> (is_closed d \<longleftrightarrow> Close_cmd \<in> set (cl_commands c)))"
proof -
  have eq: "process_commands env c = run_commands env (cl_commands c) c"
    using assms command_loop_reference[OF assms order.refl] by (simp add: process_commands_def)
  moreover have "\<forall>n. length (cl_commands c) \<le> n \<longrightarrow> command_loop n env c = process_commands env c"
    using command_loop_reference[OF assms] eq by simp
  moreover have "\<forall>u d. process_commands env c = (Inr u, d) \<longrightarrow>
      cl_commands d = [] \<and> (is_closed d \<longleftrightarrow> Close_cmd \<in> set (cl_commands c))"
    using run_commands_end[OF assms refl] eq by simp
  ultimately show ?thesis by blast
qed

text \<open>A ping and then a close: the ping is told that there is no connection, a second ping is dropped.\<close>

definition queued_client :: client where
  "queued_client =
     sample_client\<lparr>cl_async := True, cl_futures := [None, None],
       cl_commands := [Request_cmd \<lparr>rq_cid = 0, rq_t0 = 0, rq_erev = 0, rq_kind = Ping_req ''x'' 0\<rparr>, Close_cmd,
         Request_cmd \<lparr>rq_cid = 0, rq_t0 = 0, rq_erev = 0, rq_kind = Ping_req ''y'' 1\<rparr>]\<rparr>"

lemma sample_client_eval:
  "sample_client = \<lparr>cl_user = None, cl_store = empty_store, cl_transactions = [],
     cl_params = sample_params\<lparr>p_max_active_txs := 0xFFFFFFFF\<rparr>, cl_rev0 = 0xFFFFFFFFFFFFFFFF,
     cl_connections = [\<lparr>c_state = C_CLOSED, c_input = [], c_error = 0,
       c_params = \<lparr>max_unack_msgs = 0xFFFFFFFF, max_unack_bytes = 0xFFFFFFFF\<rparr>, c_stats = zero_stats,
       c_closing = False, c_pending = []\<rparr>],
     cl_con = None, cl_correlation = 0, cl_data_cid = 0, cl_sessions_cid = 0, cl_initialized = False,
     cl_running = False, cl_state = OFFLINE, cl_error = None, cl_commands = [], cl_requests = [],
     cl_accepted = [], cl_timer_lost = None, cl_timer_reconnect = None, cl_async = False,
     cl_stopped = False, cl_now = 0, cl_heap = [], cl_held = [], cl_futures = []\<rparr>"
  by (simp add: sample_client_def new_client_def sample_params_def connection_create_def Let_def)

theorem process_commands_drains_witness:
  "\<exists>d. process_commands idle_env queued_client = (Inr (), d) \<and> cl_commands d = [] \<and> is_closed d \<and>
     cl_futures d = [Some (Inl Ex_not_connected), Some (Inl Ex_broken_promise)]"
proof -
  have c: "\<not> is_closed queued_client"
    by (simp add: queued_client_def sample_client_eval is_closed_def)
  obtain d where d: "run_commands idle_env (cl_commands queued_client) queued_client = (Inr (), d)"
    "cl_futures d = [Some (Inl Ex_not_connected), Some (Inl Ex_broken_promise)]"
    by (simp add: queued_client_def sample_client_eval process_command_def process_ping_cmd_def
        satisfy_future_def bind_op_def client_abort_def is_closed_def client_set_state_def
        clear_commands_def clear_requests_def clear_accepted_def drop_command_def drop_request_def
        break_promise_def disconnect_def Let_def)
  have "Close_cmd \<in> set (cl_commands queued_client)" by (simp add: queued_client_def)
  with process_commands_drains[OF c, of idle_env] d show ?thesis by auto
qed

section \<open>A session\<close>

text \<open>
  A client that connects, logs in and loads an empty snapshot from a server whose messages are the
  bytes 1 and 2 to the decoder; the world is \<^const>\<open>idle_env\<close>.
\<close>

definition login_message :: message where
  "login_message =
     \<lparr>msg_content = Some (LOGIN_RESPONSE \<lparr>lres_cid = 1, lres_code = LC_AUTHORIZED, lres_rev0 = 0, lres_crev = 0,
        lres_can_force = False, lres_can_monitor = True, lres_keepalive = 0,
        lres_permissions = Some [Some \<lparr>aclm_pattern = Some ''**'', aclm_mode = 15\<rparr>]\<rparr>)\<rparr>"

definition snapshot_message :: message where
  "snapshot_message =
     \<lparr>msg_content = Some (SNAPSHOT_RESPONSE \<lparr>sres_cid = 1, sres_crev = 0, sres_rev0 = 0, sres_accepted = True,
        sres_snapshot = None\<rparr>)\<rparr>"

definition sample_decode :: decoder where
  "sample_decode x = (if x = [1] then Some login_message else if x = [2] then Some snapshot_message else None)"

lemma sample_decode_small: "small_decoder sample_decode"
  by (auto simp: small_decoder_def sample_decode_def small_message_def login_message_def snapshot_message_def
      split: if_split_asm)

lemma messages_verified: "verify_message login_message" "verify_message snapshot_message"
  by (simp_all add: login_message_def snapshot_message_def verify_defs all_present_Some)

text \<open>A chunk of bytes that is one frame.\<close>

lemma con_read_frame:
  assumes "frame_size_ok x" "decode x = Some m" "verify_message m" "c_input (cl_connections c ! i) = []"
    "on_msg_received env i m (update_con i (count_msg (length x + 12)) (update_con i (\<lambda>k. k\<lparr>c_input := frame x\<rparr>) c)) = (Inr (), d)"
  shows "con_read decode env i (int (length (frame x))) (Some (frame x)) c =
    (Inr (), update_con i (\<lambda>k. k\<lparr>c_input := []\<rparr>) d)"
proof -
  have chk: "checked decode x = Some m" using assms(2,3) by (simp add: checked_def)
  have nz: "length (frame x) \<noteq> 0" by (simp add: frame_length)
  show ?thesis
    unfolding con_read_def cb_tcp_read_def
    using nz assms(4,5) read_frame[OF assms(1) chk, where rest = "[]" and 'a = outcome]
    by (simp add: Let_def unless_thrown_def read_incomplete incomplete_def)
qed

definition online_user :: user where
  "online_user = \<lparr>user_name = ''ann'', user_password = [],
     permissions = [\<lparr>acl_mode = 15, acl_pattern = ''**''\<rparr>], can_force = False, can_monitor = True\<rparr>"

definition online_con :: conn where
  "online_con =
     \<lparr>c_state = C_CONNECTED, c_input = [], c_error = 0,
      c_params = \<lparr>max_unack_msgs = 0xFFFFFFFF, max_unack_bytes = 0xFFFFFFFF\<rparr>, c_stats = zero_stats,
      c_closing = False, c_pending = []\<rparr>"

definition send_abc :: "conn \<Rightarrow> conn" where
  "send_abc k = k\<lparr>c_pending := c_pending k @ [output_msg_t [1, 2, 3]],
     c_stats := (c_stats k)\<lparr>unack_msgs := unack_msgs (c_stats k) + 1, unack_bytes := unack_bytes (c_stats k) + 15\<rparr>\<rparr>"

definition online1 :: client where
  "online1 = sample_client\<lparr>cl_running := True, cl_state := CONNECTING,
     cl_connections := [online_con\<lparr>c_state := C_CONNECTING\<rparr>]\<rparr>"

definition online2 :: client where
  "online2 = online1\<lparr>cl_correlation := 1, cl_connections := [send_abc online_con]\<rparr>"

definition online3 :: client where
  "online3 = online2\<lparr>cl_con := Some 0, cl_user := Some online_user, cl_state := LOADING_SNAPSHOT,
     cl_data_cid := 1, cl_correlation := 2, cl_connections := [count_msg 13 (send_abc (send_abc online_con))]\<rparr>"

definition online4 :: client where
  "online4 = online3\<lparr>cl_initialized := True, cl_state := SYNCING, cl_data_cid := 2, cl_correlation := 3,
     cl_connections := [count_msg 13 (count_msg 13 (send_abc (send_abc (send_abc online_con))))]\<rparr>"

lemma not_full: "\<not> (4294967295 :: 64 word) \<le> 1" "\<not> (4294967295 :: 64 word) \<le> 2"
  by (simp_all add: word_le_nat_alt)

lemma online1_run: "run_begin idle_env sample_client = (Inr True, online1)"
  by (simp add: run_begin_def sample_client_eval online1_def try_to_connect_def is_closed_def client_set_state_def
      bind_op_def on_connection_def connect_def idle_env_def Let_def online_con_def zero_stats_def)

lemma online2_run: "handle_event sample_decode idle_env (Ev_connected 0 0) online1 = (Inr (), online2)"
  by (simp add: handle_event_def con_connected_def cb_tcp_connect_def online1_def online2_def update_con_def
      sample_client_eval on_connection_established_def send_on_def on_connection_def conn_send_def idle_env_def
      send_abc_def online_con_def zero_stats_def msg_length_def Let_def)

lemma online3_msg:
  "on_msg_received idle_env 0 login_message (update_con 0 (count_msg 13) (update_con 0 (\<lambda>k. k\<lparr>c_input := p\<rparr>) online2)) =
    (Inr (), online3\<lparr>cl_connections := [(count_msg 13 (send_abc (send_abc online_con)))\<lparr>c_input := p\<rparr>]\<rparr>)"
  by (simp add: on_msg_received_def login_message_def process_login_resp_def online3_def online2_def online1_def sample_client_eval
      update_con_def login_acl_def login_user_def logged_in_def client_set_state_def idle_env_def
      start_keepalive_def close_others_def start_sync_def request_data_def client_send_def is_closed_def
      send_on_def on_connection_def conn_send_def send_abc_def online_con_def zero_stats_def msg_length_def
      not_full count_msg_def sample_params_def online_user_def vector_def Let_def)

lemma online4_msg:
  "on_msg_received idle_env 0 snapshot_message (update_con 0 (count_msg 13) (update_con 0 (\<lambda>k. k\<lparr>c_input := p\<rparr>) online3)) =
    (Inr (), online4\<lparr>cl_connections := [(count_msg 13 (count_msg 13 (send_abc (send_abc (send_abc online_con)))))\<lparr>c_input := p\<rparr>]\<rparr>)"
  by (simp add: on_msg_received_def snapshot_message_def process_snapshot_resp_def online4_def online3_def online2_def online1_def sample_client_eval
      update_con_def client_set_state_def idle_env_def report_server_activity_def initial_data_def bind_op_def
      request_data_def client_send_def is_closed_def
      send_on_def on_connection_def conn_send_def send_abc_def online_con_def zero_stats_def msg_length_def
      not_full count_msg_def Let_def)

lemma online3_run:
  "handle_event sample_decode idle_env (Ev_read 0 (int (length (frame [1]))) (Some (frame [1]))) online2 = (Inr (), online3)"
proof -
  have "con_read sample_decode idle_env 0 (int (length (frame [1]))) (Some (frame [1])) online2 =
      (Inr (), update_con 0 (\<lambda>k. k\<lparr>c_input := []\<rparr>)
        (online3\<lparr>cl_connections := [(count_msg 13 (send_abc (send_abc online_con)))\<lparr>c_input := frame [1]\<rparr>]\<rparr>))"
    using online3_msg[of "frame [1]"] messages_verified(1)
    by (intro con_read_frame[where m = login_message])
      (simp_all add: sample_decode_def frame_size_ok_def online2_def send_abc_def online_con_def)
  then show ?thesis by (simp add: handle_event_def update_con_def online3_def send_abc_def online_con_def count_msg_def)
qed

lemma online4_run:
  "handle_event sample_decode idle_env (Ev_read 0 (int (length (frame [2]))) (Some (frame [2]))) online3 = (Inr (), online4)"
proof -
  have "con_read sample_decode idle_env 0 (int (length (frame [2]))) (Some (frame [2])) online3 =
      (Inr (), update_con 0 (\<lambda>k. k\<lparr>c_input := []\<rparr>)
        (online4\<lparr>cl_connections := [(count_msg 13 (count_msg 13 (send_abc (send_abc (send_abc online_con)))))\<lparr>c_input := frame [2]\<rparr>]\<rparr>))"
    using online4_msg[of "frame [2]"] messages_verified(2)
    by (intro con_read_frame[where m = snapshot_message])
      (simp_all add: sample_decode_def frame_size_ok_def online3_def send_abc_def online_con_def count_msg_def)
  then show ?thesis by (simp add: handle_event_def update_con_def online4_def send_abc_def online_con_def count_msg_def)
qed

lemma online_enabled:
  "cl_running online1" "enabled (Ev_connected 0 0) online1"
  "cl_running online2" "enabled (Ev_read 0 (int (length (frame [1]))) (Some (frame [1]))) online2"
  "cl_running online3" "enabled (Ev_read 0 (int (length (frame [2]))) (Some (frame [2]))) online3"
  by (simp_all add: enabled_def online1_def online2_def online3_def online_con_def send_abc_def count_msg_def)

lemma online4_reach: "reach sample_decode (Inr ()) online4"
proof -
  have "reach sample_decode (Inr ()) online1"
    by (rule reach_begin[OF sample_client_reach idle_env_ok online1_run])
  then have "reach sample_decode (Inr ()) online2"
    by (rule reach_event[OF _ online_enabled(1) idle_env_ok online_enabled(2) online2_run])
  then have "reach sample_decode (Inr ()) online3"
    by (rule reach_event[OF _ online_enabled(3) idle_env_ok online_enabled(4) online3_run])
  then show ?thesis
    by (rule reach_event[OF _ online_enabled(5) idle_env_ok online_enabled(6) online4_run])
qed

section \<open>The session and its queues\<close>

text \<open>
  C6: Wherever a program sees the client, whatever its callbacks and the network did before: the current
  connection is one of its connections and there is one only between login and its loss; without one no
  request waits for an answer; a closed client has no connection, no command, no request and no
  transaction; a snapshot is loaded only before the first one was; and no command waits without a
  wake-up of the loop under way, so none is forgotten.
\<close>

theorem session_consistent:
  assumes "small_decoder decode" "reach decode (Inr ()) c"
  shows "(\<forall>i. cl_con c = Some i \<longrightarrow> i < length (cl_connections c) \<and> cl_state c \<notin> {OFFLINE, CONNECTING, CLOSED}) \<and>
    (cl_con c = None \<longrightarrow> cl_requests c = [] \<and> cl_accepted c = []) \<and>
    (cl_state c = CLOSED \<longrightarrow>
       cl_con c = None \<and> cl_commands c = [] \<and> cl_requests c = [] \<and> cl_accepted c = [] \<and> cl_transactions c = []) \<and>
    (cl_state c = LOADING_SNAPSHOT \<longrightarrow> \<not> cl_initialized c) \<and>
    (cl_commands c \<noteq> [] \<longrightarrow> cl_async c)"
proof -
  have "session_ok c" "wake_ok True c" using reach_inv[OF assms refl] by (simp_all add: client_inv_def)
  then show ?thesis by (cases "cl_con c") (auto simp: session_ok_def wake_ok_def)
qed

theorem session_consistent_witness:
  "\<exists>c. reach sample_decode (Inr ()) c \<and> cl_con c = Some 0 \<and> cl_state c = SYNCING \<and> length (cl_commands c) = 1 \<and> cl_async c"
proof -
  obtain c where c: "ping idle_env False ''x'' online4 = (Inr 0, c)" "cl_con c = Some 0" "cl_state c = SYNCING"
    "length (cl_commands c) = 1"
    by (simp add: ping_def push_command_def online4_def online3_def online2_def online1_def sample_client_eval
        is_closed_def bind_op_def sample_params_def Let_def)
  have r: "reach sample_decode (Inr ()) c" by (rule reach_api[OF online4_reach], rule api_ping, rule c(1))
  have "cl_async c" using session_consistent[OF sample_decode_small r] c(4) by auto
  with r c show ?thesis by blast
qed

section \<open>Transactions inside the client\<close>

lemma create_tx_new:
  assumes "create_tx level ro c = (Inr i, d)"
  obtains u where "cl_user c = Some u" "i = length (cl_heap c)" "cl_store d = cl_store c"
    "cl_heap d = cl_heap c @ [new_tx level ro (Some u) (cl_store c)]" "cl_initialized d = cl_initialized c"
    "cl_rev0 d = cl_rev0 c"
  using assms
  by (auto simp: create_tx_def new_tx_client_def purge_unused_txs_def Let_def split: if_split_asm option.splits)

text \<open>
  C5: A transaction in the client refines the transaction on its own: after any number of calls of the
  program, callbacks and events of the network, a transaction the program still holds has lived a history
  of its operations on the store of the client, in which the store moves by commits only and each of them
  reaches the transaction.  So everything proved of such histories holds of it, and while it is not closed
  it stays registered for the next commit.  The client must have its data, a revision 0 must not have been
  set, and it must not have been stopped: a stopped client tells its transactions nothing more.
\<close>

theorem client_tx_history:
  assumes "small_decoder decode" "reach decode (Inr ()) c" "cl_initialized c" "cl_rev0 c \<noteq> 0"
    and "create_tx level ro c = (Inr i, c1)" "(client_step decode)\<^sup>*\<^sup>* c1 d"
    and "i \<in> set (cl_held d)" "\<not> cl_stopped d"
  shows "\<exists>u. cl_user c = Some u \<and>
    tx_run True UNIV (cl_store c, new_tx level ro (Some u) (cl_store c)) (cl_store d, cl_heap d ! i) \<and>
    store_wf (cl_store d) \<and> tx_wf (cl_heap d ! i) \<and>
    (\<not> closed_state (tx_state (cl_heap d ! i)) \<longrightarrow> i \<in> set (cl_transactions d))"
proof -
  obtain u where u: "cl_user c = Some u" "i = length (cl_heap c)" "cl_store c1 = cl_store c"
    "cl_heap c1 = cl_heap c @ [new_tx level ro (Some u) (cl_store c)]" "cl_initialized c1" "cl_rev0 c1 \<noteq> 0"
    using create_tx_new[OF assms(5)] assms(3,4) by metis
  have inv: "client_inv True c1"
    using create_good[OF reach_inv[OF assms(1,2) refl] assms(5)] by (simp add: good_def)
  have d: "client_inv True d" "evolves c1 d"
    using client_steps_good[OF assms(1) inv assms(6)] by (simp_all add: good_def)
  then have "heap_ok d" "registry_ok d" using u(6) by (auto simp: client_inv_def solid_def evolves_def)
  then have "i < length (cl_heap d)" "tx_wf (cl_heap d ! i)" "store_wf (cl_store d)"
    "\<not> closed_state (tx_state (cl_heap d ! i)) \<longrightarrow> i \<in> set (cl_transactions d)"
    using assms(7,8) by (auto simp: heap_ok_def registry_ok_def)
  moreover have "i < length (cl_heap c1)" "cl_heap c1 ! i = new_tx level ro (Some u) (cl_store c)" using u by simp_all
  moreover from this(1) have "tx_run True UNIV (cl_store c1, cl_heap c1 ! i) (cl_store d, cl_heap d ! i)"
    using d(2) u(5,6) assms(7,8) unfolding evolves_def by blast
  ultimately show ?thesis using u(1,3) by auto
qed

text \<open>The first transaction of the session, and a write of it.\<close>

definition created :: client where
  "created = snd (create_tx SERIALIZABLE False online4)"

definition written :: tx where
  "written = snd (upsert empty_store (Some ''k'') ''1'' (new_tx SERIALIZABLE False (Some online_user) empty_store))"

lemma created_run:
  "create_tx SERIALIZABLE False online4 = (Inr 0, created)" "cl_held created = [0]" "cl_store created = empty_store"
  "cl_heap created = [new_tx SERIALIZABLE False (Some online_user) empty_store]" "\<not> cl_stopped created"
  by (simp_all add: created_def create_tx_def purge_unused_txs_def new_tx_client_def online4_def online3_def
      online2_def online1_def sample_client_eval is_closed_def sample_params_def Let_def)

lemma online4_data: "cl_initialized online4" "cl_rev0 online4 \<noteq> 0" "cl_user online4 = Some online_user" "cl_store online4 = empty_store"
  by (simp_all add: online4_def online3_def online2_def online1_def sample_client_eval)

lemma written_items: "map fst (tx_items written) = [''k'']"
  unfolding written_def by code_simp

theorem client_tx_history_witness:
  "\<exists>d. (client_step sample_decode)\<^sup>*\<^sup>* created d \<and> map fst (tx_items (cl_heap d ! 0)) = [''k''] \<and>
     tx_run True UNIV (empty_store, new_tx SERIALIZABLE False (Some online_user) empty_store) (cl_store d, cl_heap d ! 0)"
proof -
  define d where "d = created\<lparr>cl_heap := (cl_heap created)[0 := written]\<rparr>"
  have "user_step (cl_store created) UNIV (cl_heap created ! 0) written"
    unfolding written_def created_run(3,4) nth_Cons_0 by (rule us_upsert[OF surjective_pairing]) simp
  then have "api_step created d"
    unfolding d_def by (intro api_use) (simp_all add: created_run)
  then have run: "(client_step sample_decode)\<^sup>*\<^sup>* created d" by (blast intro: cs_api)
  have d: "0 \<in> set (cl_held d)" "\<not> cl_stopped d" "cl_heap d ! 0 = written" by (simp_all add: d_def created_run)
  from client_tx_history[OF sample_decode_small online4_reach online4_data(1,2) created_run(1) run d(1,2)]
  have "tx_run True UNIV (empty_store, new_tx SERIALIZABLE False (Some online_user) empty_store) (cl_store d, cl_heap d ! 0)"
    using online4_data(3,4) by simp
  with run d(3) written_items show ?thesis by auto
qed

end
