(* ===== verification/Nplex_Cqueue.thy ===== *)
theory Nplex_Cqueue
  imports Nplex_Base "HOL-Library.While_Combinator"
begin

text \<open>
  The circular queue of \<open>deps/cqueue.hpp\<close>, in which the client keeps its commands, the requests it sent
  and the submissions accepted: a buffer of slots that hold an element or none, the index of the first
  element and their number.  Indexes are 64-bit words.  An element used where there is none, one
  constructed over another, or a slot outside the buffer is undefined behaviour, \<^const>\<open>Ex_crash\<close>.
\<close>

unbundle bit_operations_syntax

section \<open>State\<close>

text \<open>The members; \<open>mAllocator\<close> is an argument of the operations that allocate.\<close>

record 'a cqueue =
  mData :: "'a option list"
  mReserved :: "64 word"
  mCapacity :: "64 word"
  mFront :: "64 word"
  mLength :: "64 word"

definition GROWTH_FACTOR :: "64 word" where "GROWTH_FACTOR = 2"
definition MIN_ALLOCATE :: "64 word" where "MIN_ALLOCATE = 8"
definition MAX_CAPACITY :: "64 word" where "MAX_CAPACITY = 0x7FFFFFFFFFFFFFFF"

definition cqueue_create :: "64 word \<Rightarrow> exn + 'a cqueue" where
  "cqueue_create capacity =
     (if capacity > MAX_CAPACITY then Inl Ex_length_error
      else Inr \<lparr>mData = [], mReserved = 0, mCapacity = (if capacity = 0 then MAX_CAPACITY else capacity),
                mFront = 0, mLength = 0\<rparr>)"

section \<open>Memory\<close>

text \<open>What the allocator grants is memory without elements; it may refuse.\<close>

definition allocate :: "(64 word \<Rightarrow> bool) \<Rightarrow> 64 word \<Rightarrow> ('s, 'a option list) op" where
  "allocate grants len s = (if grants len then Inr (replicate (unat len) None) else Inl Ex_bad_alloc, s)"

definition construct :: "64 word \<Rightarrow> 'a \<Rightarrow> 'a option list \<Rightarrow> exn + 'a option list" where
  "construct i x d =
     (if unat i < length d \<and> d ! unat i = None then Inr (d[unat i := Some x]) else Inl Ex_crash)"

definition destroy :: "64 word \<Rightarrow> ('a cqueue, unit) op" where
  "destroy i q =
     (if unat i < length (mData q) \<and> mData q ! unat i \<noteq> None
      then (Inr (), q\<lparr>mData := (mData q)[unat i := None]\<rparr>) else (Inl Ex_crash, q))"

text \<open>Reading an element; what it is moved from lives on until it is destroyed.\<close>

definition load_slot :: "64 word \<Rightarrow> ('a cqueue, 'a) op" where
  "load_slot i q =
     (if unat i < length (mData q)
      then (case mData q ! unat i of None \<Rightarrow> (Inl Ex_crash, q) | Some x \<Rightarrow> (Inr x, q))
      else (Inl Ex_crash, q))"

definition construct_at :: "64 word \<Rightarrow> 'a \<Rightarrow> ('a cqueue, unit) op" where
  "construct_at i x q =
     (case construct i x (mData q) of Inl e \<Rightarrow> (Inl e, q) | Inr d \<Rightarrow> (Inr (), q\<lparr>mData := d\<rparr>))"

section \<open>Indexes and size\<close>

definition getUncheckedIndex :: "'a cqueue \<Rightarrow> 64 word \<Rightarrow> 64 word" where
  "getUncheckedIndex q pos =
     (if mReserved q \<le> 1 then 0
      else if mReserved q AND (mReserved q - 1) = 0 then (mFront q + pos) AND (mReserved q - 1)
      else (mFront q + pos) mod mReserved q)"

definition getCheckedIndex :: "'a cqueue \<Rightarrow> 64 word \<Rightarrow> exn + 64 word" where
  "getCheckedIndex q pos = (if pos \<ge> mLength q then Inl Ex_out_of_range else Inr (getUncheckedIndex q pos))"

text \<open>\<^term>\<open>None\<close>: the loop does not end.\<close>

definition getNewMemoryLength :: "'a cqueue \<Rightarrow> 64 word \<Rightarrow> 64 word option" where
  "getNewMemoryLength q n =
     (let ret = (if mReserved q = 0 then min (mCapacity q) MIN_ALLOCATE else mReserved q)
      in map_option (\<lambda>r. min r (mCapacity q)) (while_option (\<lambda>r. r < n) (\<lambda>r. r * GROWTH_FACTOR) ret))"

definition cq_capacity :: "'a cqueue \<Rightarrow> 64 word" where
  "cq_capacity q = (if mCapacity q = MAX_CAPACITY then 0 else mCapacity q)"

definition cq_full :: "'a cqueue \<Rightarrow> bool" where
  "cq_full q \<longleftrightarrow> mLength q = mCapacity q"

definition cq_empty :: "'a cqueue \<Rightarrow> bool" where
  "cq_empty q \<longleftrightarrow> mLength q = 0"

section \<open>Removing everything, and resizing\<close>

text \<open>The loop of \<open>clear\<close> and of \<open>resize\<close> that destroys every element.\<close>

definition destroy_all :: "('a cqueue, unit) op" where
  "destroy_all q =
     bind_op (each_op (\<lambda>i. destroy (getUncheckedIndex q (of_nat i))) [0 ..< unat (mLength q)])
       (\<lambda>_. return_op ()) q"

definition cq_clear :: "('a cqueue, unit) op" where
  "cq_clear = bind_op destroy_all (\<lambda>_. modify_op (\<lambda>q. q\<lparr>mFront := 0, mLength := 0\<rparr>))"

definition cq_reset :: "('a cqueue, unit) op" where
  "cq_reset = bind_op cq_clear (\<lambda>_. modify_op (\<lambda>q. q\<lparr>mData := [], mReserved := 0\<rparr>))"

text \<open>The elements moved into new memory, for elements whose move constructor does not throw.\<close>

fun move_elements :: "nat list \<Rightarrow> 'a option list \<Rightarrow> ('a cqueue, 'a option list) op" where
  "move_elements [] tmp q = (Inr tmp, q)"
| "move_elements (i # is) tmp q =
     bind_op (load_slot (getUncheckedIndex q (of_nat i)))
       (\<lambda>x q. case construct (of_nat i) x tmp of
          Inl e \<Rightarrow> (Inl e, q)
        | Inr tmp' \<Rightarrow> move_elements is tmp' q) q"

definition resize :: "(64 word \<Rightarrow> bool) \<Rightarrow> 64 word \<Rightarrow> ('a cqueue, unit) op" where
  "resize grants len q =
     bind_op (allocate grants len) (\<lambda>new.
     bind_op (move_elements [0 ..< unat (mLength q)] new) (\<lambda>tmp.
     bind_op destroy_all (\<lambda>_.
       modify_op (\<lambda>q. q\<lparr>mData := tmp, mReserved := len, mFront := 0\<rparr>)))) q"

definition resizeIfRequired :: "(64 word \<Rightarrow> bool) \<Rightarrow> 64 word \<Rightarrow> ('a cqueue, unit) op" where
  "resizeIfRequired grants n q =
     (if n \<le> mReserved q then (Inr (), q)
      else if n > mCapacity q then (Inl Ex_length_error, q)
      else
        case getNewMemoryLength q n of
          None \<Rightarrow> (Inl Ex_hang, q)
        | Some len \<Rightarrow> resize grants len q)"

definition reserve :: "(64 word \<Rightarrow> bool) \<Rightarrow> 64 word \<Rightarrow> ('a cqueue, unit) op" where
  "reserve grants n q =
     (if n \<le> mReserved q then (Inr (), q)
      else if n > mCapacity q then (Inl Ex_length_error, q)
      else resize grants n q)"

definition shrink_to_fit :: "(64 word \<Rightarrow> bool) \<Rightarrow> ('a cqueue, unit) op" where
  "shrink_to_fit grants q =
     (if mReserved q = 0 then (Inr (), q)
      else if mLength q = 0 then cq_reset q
      else if mLength q = mReserved q \<or> mReserved q \<le> MIN_ALLOCATE then (Inr (), q)
      else resize grants (mLength q) q)"

section \<open>Elements\<close>

text \<open>The element at a position, as \<open>operator[]\<close>, \<open>front\<close> and \<open>back\<close> refer to it.\<close>

definition cq_at :: "64 word \<Rightarrow> ('a cqueue, 'a) op" where
  "cq_at n q = (case getCheckedIndex q n of Inl e \<Rightarrow> (Inl e, q) | Inr i \<Rightarrow> load_slot i q)"

definition cq_front :: "('a cqueue, 'a) op" where
  "cq_front = cq_at 0"

definition cq_back :: "('a cqueue, 'a) op" where
  "cq_back q = cq_at (mLength q - 1) q"

definition push_back :: "(64 word \<Rightarrow> bool) \<Rightarrow> 'a \<Rightarrow> ('a cqueue, unit) op" where
  "push_back grants x q =
     bind_op (resizeIfRequired grants (mLength q + 1)) (\<lambda>_ q.
       bind_op (construct_at (getUncheckedIndex q (mLength q)) x)
         (\<lambda>_. modify_op (\<lambda>q. q\<lparr>mLength := mLength q + 1\<rparr>)) q) q"

definition push_front :: "(64 word \<Rightarrow> bool) \<Rightarrow> 'a \<Rightarrow> ('a cqueue, unit) op" where
  "push_front grants x q =
     bind_op (resizeIfRequired grants (mLength q + 1)) (\<lambda>_ q.
       let index = (if mLength q = 0 then 0 else (if mFront q = 0 then mReserved q else mFront q) - 1)
       in bind_op (construct_at index x)
            (\<lambda>_. modify_op (\<lambda>q. q\<lparr>mFront := index, mLength := mLength q + 1\<rparr>)) q) q"

definition pop_front :: "('a cqueue, 'a) op" where
  "pop_front q =
     bind_op cq_front (\<lambda>ret.
     bind_op (destroy (mFront q)) (\<lambda>_.
     bind_op (modify_op (\<lambda>q. q\<lparr>mFront := getUncheckedIndex q 1, mLength := mLength q - 1\<rparr>)) (\<lambda>_.
       return_op ret))) q"

definition pop_back :: "('a cqueue, 'a) op" where
  "pop_back q =
     bind_op cq_back (\<lambda>ret.
     bind_op (destroy (getUncheckedIndex q (mLength q - 1))) (\<lambda>_.
     bind_op (modify_op (\<lambda>q. q\<lparr>mLength := mLength q - 1\<rparr>)) (\<lambda>_.
       return_op ret))) q"

section \<open>Iterators and copies\<close>

text \<open>An iterator is a position, a signed number; \<open>cast\<close> sends a negative one out of range.\<close>

definition iter_cast :: "'a cqueue \<Rightarrow> 64 word \<Rightarrow> 64 word" where
  "iter_cast q n = (if sint n < 0 then mLength q else n)"

definition iter_deref :: "64 word \<Rightarrow> ('a cqueue, 'a) op" where
  "iter_deref pos q = cq_at (iter_cast q pos) q"

text \<open>\<open>for (auto &x : queue)\<close> over a queue the loop does not change.\<close>

definition iterate :: "('a cqueue, 'a list) op" where
  "iterate q = each_op (\<lambda>i. iter_deref (of_nat i)) [0 ..< unat (mLength q)] q"

text \<open>The copy constructor; the copy is the state, the elements of \<open>other\<close> are read.\<close>

definition cqueue_copy :: "(64 word \<Rightarrow> bool) \<Rightarrow> 'a cqueue \<Rightarrow> exn + 'a cqueue" where
  "cqueue_copy grants other =
     (let q = \<lparr>mData = [], mReserved = 0, mCapacity = mCapacity other, mFront = 0, mLength = 0\<rparr>
      in case bind_op (resizeIfRequired grants (mLength other))
           (\<lambda>_. each_op (\<lambda>i q. case cq_at (of_nat i) other of
                (Inl e, _) \<Rightarrow> (Inl e, q)
              | (Inr x, _) \<Rightarrow> push_back grants x q) [0 ..< unat (mLength other)]) q of
           (Inl e, _) \<Rightarrow> Inl e
         | (Inr _, q') \<Rightarrow> Inr q')"

text \<open>The move constructor: a fresh queue, swapped with the other.  The pair is new queue and source.\<close>

definition cqueue_move :: "'a cqueue \<Rightarrow> 'a cqueue \<times> 'a cqueue" where
  "cqueue_move other =
     (other, \<lparr>mData = [], mReserved = 0, mCapacity = MAX_CAPACITY, mFront = 0, mLength = 0\<rparr>)"

end
