(* ===== verification/Nplex_Cqueue_Spec.thy ===== *)
theory Nplex_Cqueue_Spec
  imports Nplex_Cqueue
begin

text \<open>
  What the circular queue promises: it is a list with a bound, whatever is called in whatever order, its
  memory is used as it must be, and its loops end.  The laws of a queue are a locale; the lists the model
  of the client uses and the circular queue both provide it.
\<close>

unbundle bit_operations_syntax

section \<open>Indexes\<close>

lemma and_pred_nat: "(n :: nat) AND (n - 1) = 0 \<Longrightarrow> 0 < n \<Longrightarrow> \<exists>k. n = 2 ^ k"
proof (induction n rule: less_induct)
  case (less n)
  show ?case
  proof (cases "even n")
    case True
    then obtain s where s: "n = 2 * s" by blast
    with less.prems(2) have s0: "0 < s" "s < n" by simp_all
    have "n AND (n - 1) = of_bool (odd n \<and> odd (n - 1)) + 2 * ((n div 2) AND ((n - 1) div 2))" by (rule and_rec)
    moreover have "n div 2 = s" "(n - 1) div 2 = s - 1" using s s0 by auto
    ultimately have "s AND (s - 1) = 0" using less.prems(1) by simp
    with less.IH[OF s0(2) _ s0(1)] obtain k where "s = 2 ^ k" by blast
    then have "n = 2 ^ Suc k" using s by simp
    then show ?thesis by blast
  next
    case False
    then obtain s where s: "n = 2 * s + 1" by (rule oddE)
    have "n AND (n - 1) = of_bool (odd n \<and> odd (n - 1)) + 2 * ((n div 2) AND ((n - 1) div 2))" by (rule and_rec)
    with less.prems(1) s have "s = 0" by simp
    with s have "n = 2 ^ 0" by simp
    then show ?thesis by blast
  qed
qed

lemma and_pred_mod:
  fixes r x :: "'a :: len word"
  assumes "r AND (r - 1) = 0" "r \<noteq> 0"
  shows "unat (x AND (r - 1)) = unat x mod unat r"
proof -
  have pos: "0 < unat r" using assms(2) by (simp add: unat_gt_0)
  have p: "unat (r - 1) = unat r - 1" using pos by (simp add: unat_minus_one assms(2))
  have "unat r AND (unat r - 1) = 0" using arg_cong[OF assms(1), of unat] p by (simp add: unsigned_and_eq)
  then obtain k where k: "unat r = 2 ^ k" using and_pred_nat pos by blast
  have "unat (x AND (r - 1)) = unat x AND mask k"
    using p k by (simp add: unsigned_and_eq mask_eq_exp_minus_1)
  also have "\<dots> = unat x mod unat r" by (simp add: k flip: take_bit_eq_mask take_bit_eq_mod)
  finally show ?thesis .
qed

text \<open>The slot of the \<open>k\<close>-th element of \<open>r\<close> slots from the first, and who shares it.\<close>

definition slot :: "nat \<Rightarrow> nat \<Rightarrow> nat \<Rightarrow> nat" where
  "slot r f k = (f + k) mod r"

lemma slot_less [simp]: "0 < r \<Longrightarrow> slot r f k < r"
  by (simp add: slot_def)

lemma slot_0 [simp]: "f < r \<Longrightarrow> slot r f 0 = f" "slot r 0 k = k mod r"
  by (simp_all add: slot_def)

lemma slot_inj: "k \<le> j \<Longrightarrow> j < r \<Longrightarrow> slot r f k = slot r f j \<Longrightarrow> k = j"
  using mod_eq_dvd_iff_nat[of "f + k" "f + j" r] nat_dvd_not_less[of "j - k" r]
  by (cases "k = j") (auto simp: slot_def)

lemma slot_eq_iff: "k < r \<Longrightarrow> j < r \<Longrightarrow> slot r f k = slot r f j \<longleftrightarrow> k = j"
  using slot_inj[of k j r f] slot_inj[of j k r f] by (metis nat_le_linear)

lemma slot_next: "slot r (slot r f 1) k = slot r f (Suc k)"
  by (simp add: slot_def mod_simps)

lemma slot_wrap: "slot r f r = slot r f 0"
  by (simp add: slot_def)

section \<open>Representation\<close>

definition rep :: "'a cqueue \<Rightarrow> 'a list \<Rightarrow> bool" where
  "rep q xs \<longleftrightarrow>
     length (mData q) = unat (mReserved q) \<and> 0 < mCapacity q \<and> mCapacity q \<le> MAX_CAPACITY \<and>
     mReserved q \<le> mCapacity q \<and> unat (mLength q) = length xs \<and> length xs \<le> unat (mReserved q) \<and>
     (mFront q = 0 \<or> mFront q < mReserved q) \<and>
     (\<forall>k < unat (mReserved q). mData q ! slot (unat (mReserved q)) (unat (mFront q)) k =
        (if k < length xs then Some (xs ! k) else None))"

abbreviation res :: "'a cqueue \<Rightarrow> nat" where "res q \<equiv> unat (mReserved q)"
abbreviation fro :: "'a cqueue \<Rightarrow> nat" where "fro q \<equiv> unat (mFront q)"

lemma rep_bounds:
  assumes "rep q xs"
  shows "res q \<le> unat (mCapacity q)" "unat (mCapacity q) < 2 ^ 63" "res q < 2 ^ 63" "length xs < 2 ^ 63"
    "0 < res q \<Longrightarrow> fro q < res q"
proof -
  show 1: "res q \<le> unat (mCapacity q)" "unat (mCapacity q) < 2 ^ 63"
    using assms by (auto simp: rep_def MAX_CAPACITY_def word_le_nat_alt)
  then show "res q < 2 ^ 63" by simp
  then show "length xs < 2 ^ 63" using assms by (simp add: rep_def)
  show "fro q < res q" if "0 < res q" using assms that by (auto simp: rep_def word_less_nat_alt)
qed

lemma index_slot:
  assumes "rep q xs" "0 < res q" "unat pos < 2 ^ 63"
  shows "unat (getUncheckedIndex q pos) = slot (res q) (fro q) (unat pos)"
proof (cases "mReserved q \<le> 1")
  case True
  then have "res q = 1" using assms(2) by (simp add: word_le_nat_alt)
  then show ?thesis using True by (simp add: getUncheckedIndex_def slot_def)
next
  case False
  have "unat (mFront q + pos) = fro q + unat pos"
    using rep_bounds(3,5)[OF assms(1)] assms(2,3) by (intro unat_add_lem[THEN iffD1]) simp
  moreover have "mReserved q \<noteq> 0" using assms(2) by auto
  ultimately show ?thesis using False and_pred_mod[of "mReserved q"]
    by (simp add: getUncheckedIndex_def slot_def unat_mod)
qed

lemma slot_surj: "f < r \<Longrightarrow> i < r \<Longrightarrow> \<exists>k < r. slot r f k = i"
  by (rule exI[of _ "if f \<le> i then i - f else i + r - f"]) (auto simp: slot_def mod_if)

lemma rep_slot:
  "rep q xs \<Longrightarrow> k < res q \<Longrightarrow> mData q ! slot (res q) (fro q) k = (if k < length xs then Some (xs ! k) else None)"
  by (simp add: rep_def)

lemma rep_sizes:
  assumes "rep q xs"
  shows "length (mData q) = res q" "unat (mLength q) = length xs" "length xs \<le> res q"
    "mLength q = 0 \<longleftrightarrow> xs = []" "unat (mLength q + 1) = length xs + 1"
proof -
  show 1: "length (mData q) = res q" "unat (mLength q) = length xs" "length xs \<le> res q"
    using assms by (simp_all add: rep_def)
  show "mLength q = 0 \<longleftrightarrow> xs = []" using 1(2) by (metis length_0_conv unat_0 unat_eq_zero)
  have "unat (mLength q) + unat (1 :: 64 word) < 2 ^ 64" using rep_bounds(4)[OF assms] 1(2) by simp
  then show "unat (mLength q + 1) = length xs + 1" using unat_add_lem[of "mLength q" 1] 1(2) by simp
qed

lemma of_nat_less: "k < 2 ^ 63 \<Longrightarrow> unat (of_nat k :: 64 word) = k"
  by (simp add: unat_of_nat)

text \<open>The index of the \<open>k\<close>-th element, for a number computed in the machine.\<close>

lemma index_nth:
  assumes "rep q xs" "k < length xs"
  shows "unat (getUncheckedIndex q (of_nat k)) = slot (res q) (fro q) k" "0 < res q"
proof -
  show "0 < res q" using assms rep_sizes(3)[OF assms(1)] by simp
  then show "unat (getUncheckedIndex q (of_nat k)) = slot (res q) (fro q) k"
    using index_slot[OF assms(1), of "of_nat k"] assms(2) rep_bounds(4)[OF assms(1)] by (simp add: of_nat_less)
qed

lemma cq_at_eval:
  assumes "rep q xs"
  shows "cq_at n q = (if unat n < length xs then Inr (xs ! unat n) else Inl Ex_out_of_range, q)"
proof (cases "unat n < length xs")
  case True
  then have i: "unat (getUncheckedIndex q n) = slot (res q) (fro q) (unat n)" "0 < res q"
    using index_nth[OF assms, of "unat n"] by simp_all
  then have "mData q ! unat (getUncheckedIndex q n) = Some (xs ! unat n)"
    using rep_slot[OF assms, of "unat n"] True rep_sizes(3)[OF assms] by simp
  then show ?thesis using True i rep_sizes(1,2)[OF assms]
    by (simp add: cq_at_def getCheckedIndex_def load_slot_def word_le_nat_alt not_le)
next
  case False
  then show ?thesis using rep_sizes(2)[OF assms]
    by (simp add: cq_at_def getCheckedIndex_def word_le_nat_alt)
qed

lemma cq_front_eval: "rep q xs \<Longrightarrow> cq_front q = (if xs = [] then Inl Ex_out_of_range else Inr (hd xs), q)"
  by (simp add: cq_front_def cq_at_eval hd_conv_nth)

lemma minus_one: "rep q (xs :: 'a list) \<Longrightarrow> xs \<noteq> [] \<Longrightarrow> unat (mLength q - 1) = length xs - 1"
  using rep_sizes(2,4)[of q xs] by (simp add: unat_minus_one)

lemma cq_back_eval: "rep q xs \<Longrightarrow> cq_back q = (if xs = [] then Inl Ex_out_of_range else Inr (last xs), q)"
  using rep_sizes(2,4)[of q xs] minus_one[of q xs] by (auto simp: cq_back_def cq_at_eval last_conv_nth)

section \<open>Memory\<close>

lemma destroy_slot:
  assumes "rep q xs" "k < length xs" "length d = res q" "d ! slot (res q) (fro q) k \<noteq> None"
  shows "destroy (getUncheckedIndex q (of_nat k)) (q\<lparr>mData := d\<rparr>) =
    (Inr (), q\<lparr>mData := d[slot (res q) (fro q) k := None]\<rparr>)"
  using index_nth[OF assms(1,2)] assms(3,4) by (simp add: destroy_def)

lemma destroy_loop:
  assumes "rep q xs" "n \<le> length xs"
  shows "\<exists>us d. each_op (\<lambda>i. destroy (getUncheckedIndex q (of_nat i))) [0 ..< n] q = (Inr us, q\<lparr>mData := d\<rparr>) \<and>
    length d = res q \<and>
    (\<forall>k < res q. d ! slot (res q) (fro q) k = (if n \<le> k \<and> k < length xs then Some (xs ! k) else None))"
  using assms(2)
proof (induction n)
  case 0
  show ?case using rep_slot[OF assms(1)] rep_sizes(1)[OF assms(1)]
    by (intro exI[of _ "[]"] exI[of _ "mData q"]) simp
next
  case (Suc n)
  then obtain us d where d: "each_op (\<lambda>i. destroy (getUncheckedIndex q (of_nat i))) [0 ..< n] q = (Inr us, q\<lparr>mData := d\<rparr>)"
    "length d = res q" "\<forall>k < res q. d ! slot (res q) (fro q) k = (if n \<le> k \<and> k < length xs then Some (xs ! k) else None)"
    by auto
  have n: "n < length xs" "n < res q" using Suc.prems rep_sizes(3)[OF assms(1)] by simp_all
  let ?e = "d[slot (res q) (fro q) n := None]"
  have "d ! slot (res q) (fro q) n \<noteq> None" using d(3) n by simp
  note step = destroy_slot[OF assms(1) n(1) d(2) this]
  have "?e ! slot (res q) (fro q) k = (if Suc n \<le> k \<and> k < length xs then Some (xs ! k) else None)" if k: "k < res q" for k
    using d(2,3) k n by (cases "k = n") (auto simp: nth_list_update slot_eq_iff)
  then show ?case using d(1,2) step
    by (intro exI[of _ "us @ [()]"] exI[of _ ?e]) (simp add: each_op_append)
qed

lemma destroy_all_eval:
  assumes "rep q xs"
  shows "destroy_all q = (Inr (), q\<lparr>mData := replicate (res q) None\<rparr>)"
proof -
  obtain us d where d: "each_op (\<lambda>i. destroy (getUncheckedIndex q (of_nat i))) [0 ..< length xs] q = (Inr us, q\<lparr>mData := d\<rparr>)"
    "length d = res q" "\<forall>k < res q. d ! slot (res q) (fro q) k = None"
    using destroy_loop[OF assms order.refl] by auto
  have "d ! i = None" if i: "i < res q" for i
    using slot_surj[OF rep_bounds(5)[OF assms] i] d(3) i by fastforce
  then have "d = replicate (res q) None" using d(2) by (intro nth_equalityI) simp_all
  then show ?thesis using d(1) rep_sizes(2)[OF assms] by (simp add: destroy_all_def bind_op_def)
qed

lemma repI:
  assumes "length d = unat n" "0 < cap" "cap \<le> MAX_CAPACITY" "n \<le> cap" "unat l = length xs"
    "length xs \<le> unat n" "f = 0 \<or> f < n"
    "\<And>k. k < unat n \<Longrightarrow> d ! slot (unat n) (unat f) k = (if k < length xs then Some (xs ! k) else None)"
  shows "rep \<lparr>mData = d, mReserved = n, mCapacity = cap, mFront = f, mLength = l\<rparr> xs"
  using assms by (simp add: rep_def)

lemma rep_cap: "rep q xs \<Longrightarrow> 0 < mCapacity q" "rep q xs \<Longrightarrow> mCapacity q \<le> MAX_CAPACITY"
    "rep q xs \<Longrightarrow> mReserved q \<le> mCapacity q"
  by (simp_all add: rep_def)

lemma cq_clear_eval:
  assumes "rep q xs"
  shows "\<exists>q'. cq_clear q = (Inr (), q') \<and> rep q' [] \<and> mCapacity q' = mCapacity q \<and> mReserved q' = mReserved q"
  using destroy_all_eval[OF assms] rep_cap[OF assms]
  by (simp add: cq_clear_def bind_op_def rep_def)

lemma cq_reset_eval:
  assumes "rep q xs"
  shows "\<exists>q'. cq_reset q = (Inr (), q') \<and> rep q' [] \<and> mCapacity q' = mCapacity q"
  using destroy_all_eval[OF assms] rep_cap[OF assms]
  by (simp add: cq_reset_def cq_clear_def bind_op_def rep_def)

section \<open>Growing\<close>

lemma move_loop:
  assumes "rep q xs" "m \<le> length xs" "length xs \<le> len" "len < 2 ^ 63"
  shows "move_elements [m ..< length xs] (map Some (take m xs) @ replicate (len - m) None) q =
    (Inr (map Some xs @ replicate (len - length xs) None), q)"
  using assms(2)
proof (induction "length xs - m" arbitrary: m)
  case 0
  then show ?case by simp
next
  case (Suc n)
  then have m: "m < length xs" by simp
  let ?tmp = "map Some (take m xs) @ replicate (len - m) None"
  have idx: "unat (getUncheckedIndex q (of_nat m)) = slot (res q) (fro q) m" "0 < res q"
    by (rule index_nth[OF assms(1) m])+
  have "mData q ! slot (res q) (fro q) m = Some (xs ! m)"
    using rep_slot[OF assms(1)] rep_sizes(3)[OF assms(1)] m by simp
  then have load: "load_slot (getUncheckedIndex q (of_nat m)) q = (Inr (xs ! m), q)"
    using idx rep_sizes(1)[OF assms(1)] by (simp add: load_slot_def)
  have u: "unat (of_nat m :: 64 word) = m" using m assms(3,4) by (intro of_nat_less) simp
  have lm: "len - m = Suc (len - Suc m)" using m assms(3) by simp
  have "construct (of_nat m) (xs ! m) ?tmp = Inr (map Some (take (Suc m) xs) @ replicate (len - Suc m) None)"
    using m assms(3) unfolding construct_def u lm by (simp add: nth_append list_update_append take_Suc_conv_app_nth)
  with load Suc.hyps(1)[of "Suc m"] Suc.hyps(2) m show ?case
    by (simp add: upt_conv_Cons bind_op_def)
qed

lemma resize_eval:
  assumes "rep q xs" "length xs \<le> unat len" "len \<le> mCapacity q"
  shows "grants len \<Longrightarrow> \<exists>q'. resize grants len q = (Inr (), q') \<and> rep q' xs \<and> mReserved q' = len \<and> mCapacity q' = mCapacity q"
    "\<not> grants len \<Longrightarrow> resize grants len q = (Inl Ex_bad_alloc, q)"
proof -
  assume g: "grants len"
  have "unat len < 2 ^ 63" using assms(3) rep_bounds(2)[OF assms(1)] by (simp add: word_le_nat_alt)
  from move_loop[OF assms(1) _ assms(2) this, of 0] g
  have "resize grants len q = (Inr (), q\<lparr>mData := map Some xs @ replicate (unat len - length xs) None, mReserved := len, mFront := 0\<rparr>)"
    using destroy_all_eval[OF assms(1)] rep_sizes(2)[OF assms(1)]
    by (simp add: resize_def allocate_def bind_op_def)
  moreover have "rep (q\<lparr>mData := map Some xs @ replicate (unat len - length xs) None, mReserved := len, mFront := 0\<rparr>) xs"
    using assms rep_cap[OF assms(1)] rep_sizes(2)[OF assms(1)] by (simp add: rep_def nth_append)
  ultimately show "\<exists>q'. resize grants len q = (Inr (), q') \<and> rep q' xs \<and> mReserved q' = len \<and> mCapacity q' = mCapacity q"
    by simp
next
  assume "\<not> grants len"
  then show "resize grants len q = (Inl Ex_bad_alloc, q)" by (simp add: resize_def allocate_def bind_op_def)
qed

text \<open>Doubling ends, and without wrapping, below half of the range of the type.\<close>

lemma doubling_ends:
  fixes r n :: "64 word"
  assumes "0 < r" "unat n < 2 ^ 63"
  shows "\<exists>t. while_option (\<lambda>r. r < n) (\<lambda>r. r * GROWTH_FACTOR) r = Some t \<and> n \<le> t"
  using assms(1)
proof (induction "unat n - unat r" arbitrary: r rule: less_induct)
  case less
  show ?case
  proof (cases "r < n")
    case False
    then show ?thesis by (subst while_option_unfold) simp
  next
    case True
    then have lt: "unat r < unat n" by (simp add: word_less_nat_alt)
    then have "unat r * unat (2 :: 64 word) < 2 ^ LENGTH(64)" using assms(2) by simp
    then have d: "unat (r * GROWTH_FACTOR) = unat r * 2" by (subst GROWTH_FACTOR_def) (simp add: unat_mult_lem[THEN iffD1])
    moreover have "0 < unat r" using less.prems by (simp add: word_less_nat_alt)
    ultimately have "unat n - unat (r * GROWTH_FACTOR) < unat n - unat r" "0 < r * GROWTH_FACTOR"
      using lt by (simp_all add: word_less_nat_alt)
    from less.hyps[OF this] True show ?thesis by (subst while_option_unfold) simp
  qed
qed

lemma new_length:
  assumes "rep q xs" "n \<le> mCapacity q"
  shows "\<exists>len. getNewMemoryLength q n = Some len \<and> n \<le> len \<and> len \<le> mCapacity q"
proof -
  let ?r = "if mReserved q = 0 then min (mCapacity q) MIN_ALLOCATE else mReserved q"
  have "0 < ?r" using rep_cap(1)[OF assms(1)] by (auto simp: MIN_ALLOCATE_def min_def word_neq_0_conv)
  moreover have "unat n < 2 ^ 63" using assms(2) rep_bounds(2)[OF assms(1)] by (simp add: word_le_nat_alt)
  ultimately obtain t where "while_option (\<lambda>r. r < n) (\<lambda>r. r * GROWTH_FACTOR) ?r = Some t" "n \<le> t"
    using doubling_ends by blast
  then show ?thesis using assms(2) by (auto simp: getNewMemoryLength_def Let_def)
qed

text \<open>How an operation that may need memory ends: as it should, too long, or refused by the allocator.\<close>

definition grows :: "(64 word \<Rightarrow> bool) \<Rightarrow> 'a cqueue \<Rightarrow> bool \<Rightarrow> ('a cqueue \<Rightarrow> bool) \<Rightarrow> (exn + 'b) \<times> 'a cqueue \<Rightarrow> bool" where
  "grows grants q fits P w \<longleftrightarrow>
     (case w of (r, q') \<Rightarrow>
        (r = Inl Ex_length_error \<and> q' = q \<and> \<not> fits) \<or>
        (r = Inl Ex_bad_alloc \<and> q' = q \<and> (\<exists>n. \<not> grants n)) \<or>
        ((\<exists>x. r = Inr x) \<and> fits \<and> P q' \<and> mCapacity q' = mCapacity q))"

lemma resize_grows:
  assumes "rep q xs" "length xs \<le> unat len" "len \<le> mCapacity q"
  shows "grows grants q True (\<lambda>q'. rep q' xs \<and> mReserved q' = len) (resize grants len q)"
  using resize_eval[OF assms, of grants] by (cases "grants len") (auto simp: grows_def)

lemma reserve_grows:
  assumes "rep q xs"
  shows "grows grants q (n \<le> mCapacity q) (\<lambda>q'. rep q' xs) (reserve grants n q)"
proof (cases "n \<le> mReserved q")
  case True
  then show ?thesis using assms rep_cap(3)[OF assms] by (auto simp: reserve_def grows_def)
next
  case False
  then have "length xs \<le> unat n" using rep_sizes(3)[OF assms] by (simp add: word_le_nat_alt)
  with resize_grows[OF assms this, of grants] False show ?thesis
    by (auto simp: reserve_def grows_def not_le)
qed

lemma resizeIfRequired_any:
  assumes "rep q xs" "length xs \<le> unat n"
  shows "grows grants q (n \<le> mCapacity q) (\<lambda>q'. rep q' xs \<and> unat n \<le> res q') (resizeIfRequired grants n q)"
proof -
  consider "n \<le> mReserved q" | "\<not> n \<le> mReserved q" "mCapacity q < n"
    | "\<not> n \<le> mReserved q" "n \<le> mCapacity q" by (metis not_le)
  then show ?thesis
  proof cases
    case 1
    then show ?thesis using assms(1) rep_cap(3)[OF assms(1)]
      by (auto simp: resizeIfRequired_def grows_def word_le_nat_alt)
  next
    case 2
    then show ?thesis by (auto simp: resizeIfRequired_def grows_def)
  next
    case 3
    obtain len where len: "getNewMemoryLength q n = Some len" "n \<le> len" "len \<le> mCapacity q"
      using new_length[OF assms(1) 3(2)] by blast
    have l: "unat n \<le> unat len" using len(2) by (simp add: word_le_nat_alt)
    then have "grows grants q True (\<lambda>q'. rep q' xs \<and> mReserved q' = len) (resize grants len q)"
      using assms(2) by (intro resize_grows[OF assms(1) _ len(3)]) simp
    then show ?thesis using 3 len(1) l by (auto simp: resizeIfRequired_def grows_def)
  qed
qed

lemma resizeIfRequired_grows:
  assumes "rep q xs"
  shows "grows grants q (length xs < unat (mCapacity q)) (\<lambda>q'. rep q' xs \<and> length xs < res q')
    (resizeIfRequired grants (mLength q + 1) q)"
proof -
  have n: "unat (mLength q + 1) = length xs + 1" by (rule rep_sizes(5)[OF assms])
  then have "grows grants q (mLength q + 1 \<le> mCapacity q) (\<lambda>q'. rep q' xs \<and> unat (mLength q + 1) \<le> res q')
      (resizeIfRequired grants (mLength q + 1) q)"
    by (intro resizeIfRequired_any[OF assms]) simp
  then show ?thesis using n by (simp add: word_le_nat_alt Suc_le_eq)
qed

section \<open>Elements at the ends\<close>

lemma grows_bind:
  assumes "grows grants q fits P (m q)" "\<And>q1 a. P q1 \<Longrightarrow> mCapacity q1 = mCapacity q \<Longrightarrow> \<exists>b q2. f a q1 = (Inr b, q2) \<and> Q q2 \<and> mCapacity q2 = mCapacity q1"
  shows "grows grants q fits Q (bind_op m f q)"
proof -
  obtain r q1 where m: "m q = (r, q1)" by fastforce
  show ?thesis
  proof (cases r)
    case (Inl e)
    then show ?thesis using assms(1) m by (simp add: grows_def bind_op_def)
  next
    case (Inr a)
    then have q1: "fits" "P q1" "mCapacity q1 = mCapacity q" using assms(1) m by (simp_all add: grows_def)
    from assms(2)[OF q1(2,3), of a] obtain b q2 where "f a q1 = (Inr b, q2)" "Q q2" "mCapacity q2 = mCapacity q1" by blast
    then show ?thesis using m Inr q1 by (simp add: grows_def bind_op_def)
  qed
qed

lemma construct_eval:
  "unat i < length (mData q) \<Longrightarrow> mData q ! unat i = None \<Longrightarrow>
     construct_at i x q = (Inr (), q\<lparr>mData := (mData q)[unat i := Some x]\<rparr>)"
  by (simp add: construct_at_def construct_def)

lemma push_back_grows:
  assumes "rep q xs"
  shows "grows grants q (length xs < unat (mCapacity q)) (\<lambda>q'. rep q' (xs @ [x])) (push_back grants x q)"
  unfolding push_back_def
proof (rule grows_bind[where m = "resizeIfRequired grants (mLength q + 1)" and P = "\<lambda>q'. rep q' xs \<and> length xs < res q'"])
  show "grows grants q (length xs < unat (mCapacity q)) (\<lambda>q'. rep q' xs \<and> length xs < res q')
      (resizeIfRequired grants (mLength q + 1) q)"
    by (rule resizeIfRequired_grows[OF assms])
next
  fix q1 a
  assume q1: "rep q1 xs \<and> length xs < res q1" "mCapacity q1 = mCapacity q"
  let ?i = "slot (res q1) (fro q1) (length xs)"
  have l: "unat (mLength q1) = length xs" "length (mData q1) = res q1" "0 < res q1"
    using q1 rep_sizes[of q1 xs] by auto
  have i: "unat (getUncheckedIndex q1 (mLength q1)) = ?i"
    using index_slot[of q1 xs "mLength q1"] q1 l rep_bounds(4)[of q1 xs] by simp
  have "mData q1 ! ?i = None" using rep_slot[of q1 xs "length xs"] q1 by simp
  then have c: "construct_at (getUncheckedIndex q1 (mLength q1)) x q1 = (Inr (), q1\<lparr>mData := (mData q1)[?i := Some x]\<rparr>)"
    using construct_eval[of "getUncheckedIndex q1 (mLength q1)" q1] i l by simp
  have "(mData q1)[?i := Some x] ! slot (res q1) (fro q1) k = (if k < length (xs @ [x]) then Some ((xs @ [x]) ! k) else None)"
    if k: "k < res q1" for k
    using k q1 l rep_slot[of q1 xs k] slot_eq_iff[of "length xs" "res q1" k "fro q1"]
    by (cases "k = length xs") (auto simp: nth_append)
  then have "rep (q1\<lparr>mData := (mData q1)[?i := Some x], mLength := mLength q1 + 1\<rparr>) (xs @ [x])"
    using q1 l rep_sizes(5)[of q1 xs] by (auto simp: rep_def)
  then show "\<exists>b q2. bind_op (construct_at (getUncheckedIndex q1 (mLength q1)) x)
      (\<lambda>_. modify_op (\<lambda>q. q\<lparr>mLength := mLength q + 1\<rparr>)) q1 = (Inr b, q2) \<and> rep q2 (xs @ [x]) \<and> mCapacity q2 = mCapacity q1"
    using c by (simp add: bind_op_def)
qed

text \<open>The slot before the first one is the last one of the buffer.\<close>

lemma slot_before: "f < r \<Longrightarrow> slot r ((if f = 0 then r else f) - 1) (Suc k) = slot r f k"
  by (auto simp: slot_def)

lemma push_front_grows:
  assumes "rep q xs"
  shows "grows grants q (length xs < unat (mCapacity q)) (\<lambda>q'. rep q' (x # xs)) (push_front grants x q)"
  unfolding push_front_def
proof (rule grows_bind[where m = "resizeIfRequired grants (mLength q + 1)" and P = "\<lambda>q'. rep q' xs \<and> length xs < res q'"])
  show "grows grants q (length xs < unat (mCapacity q)) (\<lambda>q'. rep q' xs \<and> length xs < res q')
      (resizeIfRequired grants (mLength q + 1) q)"
    by (rule resizeIfRequired_grows[OF assms])
next
  fix q1 a
  assume q1: "rep q1 xs \<and> length xs < res q1" "mCapacity q1 = mCapacity q"
  define i where "i = (if mLength q1 = 0 then 0 else (if mFront q1 = 0 then mReserved q1 else mFront q1) - 1)"
  have l: "unat (mLength q1) = length xs" "length (mData q1) = res q1" "0 < res q1" "mLength q1 = 0 \<longleftrightarrow> xs = []"
    using q1 rep_sizes[of q1 xs] by auto
  have f: "fro q1 < res q1" using q1 l rep_bounds(5)[of q1 xs] by simp
  have nz: "mReserved q1 \<noteq> 0" using l(3) by auto
  have ui: "unat i = (if xs = [] then 0 else (if fro q1 = 0 then res q1 else fro q1) - 1)"
    using l(4) nz by (auto simp: i_def unat_minus_one unat_eq_0)
  then have ilt: "unat i < res q1" using f l(3) by auto
  \<comment> \<open>the elements as they are seen from the new first slot\<close>
  have old: "mData q1 ! slot (res q1) (unat i) k = (if 0 < k \<and> k < Suc (length xs) then Some (xs ! (k - 1)) else None)"
    if k: "k < res q1" for k
  proof (cases "xs = []")
    case True
    then have "mData q1 ! j = None" if "j < res q1" for j
      using slot_surj[OF f that] rep_slot[of q1 xs] q1 by auto
    then show ?thesis using True l(3) by (cases k) simp_all
  next
    case False
    then have e: "slot (res q1) (unat i) (Suc j) = slot (res q1) (fro q1) j" for j
      using ui f slot_before[OF f, of j] by simp
    show ?thesis
    proof (cases k)
      case 0
      have "slot (res q1) (unat i) 0 = slot (res q1) (fro q1) (res q1 - 1)"
        using e[of "res q1 - 1"] slot_wrap[of "res q1" "unat i"] l(3) by simp
      moreover have "\<not> res q1 - 1 < length xs" using q1(1) by linarith
      ultimately show ?thesis using 0 rep_slot[of q1 xs "res q1 - 1"] q1 l(3) by simp
    next
      case (Suc j)
      then show ?thesis using e[of j] rep_slot[of q1 xs j] q1 k by auto
    qed
  qed
  have "slot (res q1) (unat i) 0 = unat i" using ilt by simp
  then have "mData q1 ! unat i = None" using old[of 0] l(3) by simp
  then have c: "construct_at i x q1 = (Inr (), q1\<lparr>mData := (mData q1)[unat i := Some x]\<rparr>)"
    using construct_eval[of i q1] ilt l by simp
  have "(mData q1)[unat i := Some x] ! slot (res q1) (unat i) k = (if k < length (x # xs) then Some ((x # xs) ! k) else None)"
    if k: "k < res q1" for k
    using k old[OF k] slot_eq_iff[of 0 "res q1" k "unat i"] l(2,3) ilt
    by (cases k) (auto simp: nth_list_update)
  then have "rep (q1\<lparr>mData := (mData q1)[unat i := Some x], mFront := i, mLength := mLength q1 + 1\<rparr>) (x # xs)"
    using q1 l ilt rep_sizes(5)[of q1 xs] by (auto simp: rep_def word_less_nat_alt)
  then have "\<exists>b q2. bind_op (construct_at i x) (\<lambda>_. modify_op (\<lambda>q. q\<lparr>mFront := i, mLength := mLength q + 1\<rparr>)) q1 = (Inr b, q2) \<and>
      rep q2 (x # xs) \<and> mCapacity q2 = mCapacity q1"
    using c by (simp add: bind_op_def)
  then show "\<exists>b q2. (let index = if mLength q1 = 0 then 0 else (if mFront q1 = 0 then mReserved q1 else mFront q1) - 1
      in bind_op (construct_at index x) (\<lambda>_. modify_op (\<lambda>q. q\<lparr>mFront := index, mLength := mLength q + 1\<rparr>)) q1) = (Inr b, q2) \<and>
      rep q2 (x # xs) \<and> mCapacity q2 = mCapacity q1"
    by (simp add: Let_def i_def)
qed

lemma pop_front_eval:
  assumes "rep q xs"
  shows "xs = [] \<Longrightarrow> pop_front q = (Inl Ex_out_of_range, q)"
    "xs = x # ys \<Longrightarrow> \<exists>q'. pop_front q = (Inr x, q') \<and> rep q' ys \<and> mCapacity q' = mCapacity q"
proof -
  show "pop_front q = (Inl Ex_out_of_range, q)" if "xs = []"
    using cq_front_eval[OF assms] that by (simp add: pop_front_def bind_op_def)
next
  assume xs: "xs = x # ys"
  then have r: "0 < res q" using rep_sizes(3)[OF assms] by simp
  then have f: "fro q < res q" by (rule rep_bounds(5)[OF assms])
  have "mData q ! fro q = Some x" using rep_slot[OF assms, of 0] r f xs by simp
  then have d: "destroy (mFront q) q = (Inr (), q\<lparr>mData := (mData q)[fro q := None]\<rparr>)"
    using f rep_sizes(1)[OF assms] by (simp add: destroy_def)
  let ?q = "q\<lparr>mData := (mData q)[fro q := None]\<rparr>"
  have "getUncheckedIndex ?q 1 = getUncheckedIndex q 1" by (simp add: getUncheckedIndex_def)
  then have nf: "unat (getUncheckedIndex ?q 1) = slot (res q) (fro q) 1"
    using index_slot[OF assms r, of 1] by simp
  have ln: "unat (mLength q - 1) = length ys" using minus_one[OF assms] xs by simp
  have "(mData q)[fro q := None] ! slot (res q) (slot (res q) (fro q) 1) k = (if k < length ys then Some (ys ! k) else None)"
    if k: "k < res q" for k
  proof (cases "Suc k = res q")
    case True
    then have "slot (res q) (fro q) (Suc k) = fro q" using slot_wrap[of "res q" "fro q"] f by simp
    moreover have "length ys \<le> k" using rep_sizes(3)[OF assms] xs True by simp
    ultimately show ?thesis using f rep_sizes(1)[OF assms] by (simp only: slot_next) simp
  next
    case False
    then have sk: "Suc k < res q" using k by simp
    then have "slot (res q) (fro q) (Suc k) \<noteq> fro q" using slot_eq_iff[of 0 "res q" "Suc k" "fro q"] f r by simp
    then show ?thesis using rep_slot[OF assms sk] xs by (simp only: slot_next) simp
  qed
  then have "rep (?q\<lparr>mFront := getUncheckedIndex ?q 1, mLength := mLength ?q - 1\<rparr>) ys"
    using assms xs ln nf r unfolding rep_def by (simp add: word_less_nat_alt)
  then show "\<exists>q'. pop_front q = (Inr x, q') \<and> rep q' ys \<and> mCapacity q' = mCapacity q"
    using cq_front_eval[OF assms] xs d by (simp add: pop_front_def bind_op_def)
qed

lemma pop_back_eval:
  assumes "rep q xs"
  shows "xs = [] \<Longrightarrow> pop_back q = (Inl Ex_out_of_range, q)"
    "xs = ys @ [x] \<Longrightarrow> \<exists>q'. pop_back q = (Inr x, q') \<and> rep q' ys \<and> mCapacity q' = mCapacity q"
proof -
  show "pop_back q = (Inl Ex_out_of_range, q)" if "xs = []"
    using cq_back_eval[OF assms] that by (simp add: pop_back_def bind_op_def)
next
  assume xs: "xs = ys @ [x]"
  have n: "length ys < length xs" "length ys < res q" using xs rep_sizes(3)[OF assms] by simp_all
  have ln: "mLength q - 1 = of_nat (length ys)"
    using minus_one[OF assms] xs of_nat_less[of "length ys"] rep_bounds(4)[OF assms] by (intro word_unat_eq_iff[THEN iffD2]) simp
  let ?i = "slot (res q) (fro q) (length ys)"
  have "mData q ! ?i \<noteq> None" using rep_slot[OF assms n(2)] n(1) by simp
  from destroy_slot[OF assms n(1) rep_sizes(1)[OF assms] this]
  have d: "destroy (getUncheckedIndex q (mLength q - 1)) q = (Inr (), q\<lparr>mData := (mData q)[?i := None]\<rparr>)"
    using ln by simp
  have "(mData q)[?i := None] ! slot (res q) (fro q) k = (if k < length ys then Some (ys ! k) else None)" if k: "k < res q" for k
    using k n xs rep_slot[OF assms k] slot_eq_iff[of "length ys" "res q" k "fro q"] rep_sizes(1)[OF assms]
    by (cases "k = length ys") (auto simp: nth_append)
  then have "rep (q\<lparr>mData := (mData q)[?i := None], mLength := mLength q - 1\<rparr>) ys"
    using assms xs minus_one[OF assms] unfolding rep_def by simp
  then show "\<exists>q'. pop_back q = (Inr x, q') \<and> rep q' ys \<and> mCapacity q' = mCapacity q"
    using cq_back_eval[OF assms] xs d by (simp add: pop_back_def bind_op_def)
qed

lemma shrink_grows:
  assumes "rep q xs"
  shows "grows grants q True (\<lambda>q'. rep q' xs) (shrink_to_fit grants q)"
proof (cases "mReserved q = 0 \<or> mLength q \<noteq> 0 \<and> (mLength q = mReserved q \<or> mReserved q \<le> MIN_ALLOCATE)")
  case True
  then show ?thesis using assms by (auto simp: shrink_to_fit_def grows_def)
next
  case False
  show ?thesis
  proof (cases "mLength q = 0")
    case True
    then have "xs = []" using rep_sizes(4)[OF assms] by simp
    then show ?thesis using False True cq_reset_eval[OF assms] by (auto simp: shrink_to_fit_def grows_def)
  next
    case nz: False
    have "mLength q \<le> mCapacity q"
      using rep_sizes(2,3)[OF assms] rep_bounds(1)[OF assms] by (simp add: word_le_nat_alt)
    with resize_grows[OF assms _ this, of grants] rep_sizes(2)[OF assms] show ?thesis
      using False nz by (auto simp: shrink_to_fit_def grows_def)
  qed
qed

section \<open>Iteration and copies\<close>

lemma each_at:
  assumes "rep q xs" "n \<le> length xs" "\<And>i. i < n \<Longrightarrow> f i q = (Inr (xs ! i), q)"
  shows "each_op f [0 ..< n] q = (Inr (take n xs), q)"
  using assms(2,3) by (induction n) (simp_all add: each_op_append take_Suc_conv_app_nth)

lemma not_negative:
  assumes "unat n < 2 ^ 63"
  shows "\<not> sint (n :: 64 word) < 0"
proof -
  have "int (unat n) < int (2 ^ 63)" using assms by (rule of_nat_less_iff[THEN iffD2])
  then have "uint n < 2 ^ 63" by (simp only: uint_nat of_nat_power of_nat_numeral)
  then have "(uint n + 2 ^ 63) mod 2 ^ 64 = uint n + 2 ^ 63" by (intro mod_pos_pos_trivial) simp_all
  then show ?thesis using int_word_sint[of "uint n", where 'a = 64] by simp
qed

lemma iterate_eval:
  assumes "rep q xs"
  shows "iterate q = (Inr xs, q)"
proof -
  have "iter_deref (of_nat i) q = (Inr (xs ! i), q)" if i: "i < length xs" for i
  proof -
    have "unat (of_nat i :: 64 word) = i" using i rep_bounds(4)[OF assms] by (simp add: of_nat_less)
    then show ?thesis using cq_at_eval[OF assms, of "of_nat i"] i not_negative[of "of_nat i"] rep_bounds(4)[OF assms]
      by (simp add: iter_deref_def iter_cast_def)
  qed
  then show ?thesis using each_at[OF assms order.refl, of "\<lambda>i. iter_deref (of_nat i)"] rep_sizes(2)[OF assms]
    by (simp add: iterate_def)
qed

text \<open>While memory is granted a copy has the elements of the original, and is bounded like it.\<close>

lemma push_each:
  assumes "rep other xs" "n \<le> length xs" "rep q []" "mCapacity q = mCapacity other"
  shows "\<exists>us q'. each_op (\<lambda>i q. case cq_at (of_nat i) other of
      (Inl e, _) \<Rightarrow> (Inl e, q) | (Inr x, _) \<Rightarrow> push_back (\<lambda>_. True) x q) [0 ..< n] q = (Inr us, q') \<and>
    rep q' (take n xs) \<and> mCapacity q' = mCapacity other"
  using assms(2)
proof (induction n)
  case 0
  then show ?case using assms(3,4) by simp
next
  case (Suc n)
  let ?f = "\<lambda>i q. case cq_at (of_nat i) other of (Inl e, _) \<Rightarrow> (Inl e, q) | (Inr x, _) \<Rightarrow> push_back (\<lambda>_. True) x q"
  obtain us q1 where q1: "each_op ?f [0 ..< n] q = (Inr us, q1)" "rep q1 (take n xs)" "mCapacity q1 = mCapacity other"
    using Suc by auto
  have n: "n < length xs" using Suc.prems by simp
  have u: "unat (of_nat n :: 64 word) = n" using n rep_bounds(4)[OF assms(1)] by (simp add: of_nat_less)
  have "?f n q1 = push_back (\<lambda>_. True) (xs ! n) q1" using cq_at_eval[OF assms(1), of "of_nat n"] n u by simp
  moreover have "length (take n xs) < unat (mCapacity q1)"
    using n q1(3) rep_sizes(3)[OF assms(1)] rep_bounds(1)[OF assms(1)] by simp
  ultimately obtain v q2 where q2: "?f n q1 = (Inr v, q2)" "rep q2 (take n xs @ [xs ! n])" "mCapacity q2 = mCapacity q1"
    using push_back_grows[OF q1(2), of "\<lambda>_. True" "xs ! n"] by (cases "?f n q1") (auto simp: grows_def)
  have "take n xs @ [xs ! n] = take (Suc n) xs" using n by (simp add: take_Suc_conv_app_nth)
  with q1(1,3) q2 show ?case by (simp add: each_op_append)
qed

lemma copy_eval:
  assumes "rep other xs"
  shows "\<exists>q'. cqueue_copy (\<lambda>_. True) other = Inr q' \<and> rep q' xs \<and> mCapacity q' = mCapacity other"
proof -
  let ?q = "\<lparr>mData = [], mReserved = 0, mCapacity = mCapacity other, mFront = 0, mLength = 0\<rparr> :: 'a cqueue"
  have q: "rep ?q []" using rep_cap[OF assms] by (simp add: rep_def)
  have "mLength other \<le> mCapacity other"
    using rep_sizes(2,3)[OF assms] rep_bounds(1)[OF assms] by (simp add: word_le_nat_alt)
  with resizeIfRequired_any[OF q, of "mLength other" "\<lambda>_. True"]
  obtain u q1 where q1: "resizeIfRequired (\<lambda>_. True) (mLength other) ?q = (Inr u, q1)" "rep q1 []" "mCapacity q1 = mCapacity other"
    by (cases "resizeIfRequired (\<lambda>_. True) (mLength other) ?q") (auto simp: grows_def)
  with push_each[OF assms order.refl q1(2,3)] rep_sizes(2)[OF assms] show ?thesis
    by (auto simp: cqueue_copy_def bind_op_def Let_def)
qed

section \<open>The queue as a list with a bound\<close>

text \<open>A call of the interface, and what it gives.\<close>

datatype 'a qcall =
    Q_push_back 'a | Q_push_front 'a | Q_pop_front | Q_pop_back | Q_front | Q_back | Q_at "64 word"
  | Q_size | Q_empty | Q_full | Q_capacity | Q_list | Q_clear | Q_reserve "64 word" | Q_shrink

datatype 'a qresult = Done | Elem 'a | Elems "'a list" | Count nat | Flag bool

definition giving :: "('a \<Rightarrow> 'b) \<Rightarrow> ('s, 'a) op \<Rightarrow> ('s, 'b) op" where
  "giving f m = bind_op m (\<lambda>a. return_op (f a))"

primrec cq_call :: "(64 word \<Rightarrow> bool) \<Rightarrow> 'a qcall \<Rightarrow> ('a cqueue, 'a qresult) op" where
  "cq_call grants (Q_push_back x) = giving (\<lambda>_. Done) (push_back grants x)"
| "cq_call grants (Q_push_front x) = giving (\<lambda>_. Done) (push_front grants x)"
| "cq_call grants Q_pop_front = giving Elem pop_front"
| "cq_call grants Q_pop_back = giving Elem pop_back"
| "cq_call grants Q_front = giving Elem cq_front"
| "cq_call grants Q_back = giving Elem cq_back"
| "cq_call grants (Q_at n) = giving Elem (cq_at n)"
| "cq_call grants Q_size = (\<lambda>q. (Inr (Count (unat (mLength q))), q))"
| "cq_call grants Q_empty = (\<lambda>q. (Inr (Flag (cq_empty q)), q))"
| "cq_call grants Q_full = (\<lambda>q. (Inr (Flag (cq_full q)), q))"
| "cq_call grants Q_capacity = (\<lambda>q. (Inr (Count (unat (cq_capacity q))), q))"
| "cq_call grants Q_list = giving Elems iterate"
| "cq_call grants Q_clear = giving (\<lambda>_. Done) cq_clear"
| "cq_call grants (Q_reserve n) = giving (\<lambda>_. Done) (reserve grants n)"
| "cq_call grants Q_shrink = giving (\<lambda>_. Done) (shrink_to_fit grants)"

text \<open>The same on a list of at most \<open>cap\<close> elements.\<close>

definition insert_end :: "nat \<Rightarrow> 'a list \<Rightarrow> ('a list, 'a qresult) op" where
  "insert_end cap ys xs = (if length xs < cap then (Inr Done, ys) else (Inl Ex_length_error, xs))"

definition elem_of :: "('a list \<Rightarrow> 'a) \<Rightarrow> ('a list \<Rightarrow> 'a list) \<Rightarrow> ('a list, 'a qresult) op" where
  "elem_of f rest xs = (if xs = [] then (Inl Ex_out_of_range, xs) else (Inr (Elem (f xs)), rest xs))"

primrec dq_call :: "nat \<Rightarrow> 'a qcall \<Rightarrow> ('a list, 'a qresult) op" where
  "dq_call cap (Q_push_back x) = (\<lambda>xs. insert_end cap (xs @ [x]) xs)"
| "dq_call cap (Q_push_front x) = (\<lambda>xs. insert_end cap (x # xs) xs)"
| "dq_call cap Q_pop_front = elem_of hd tl"
| "dq_call cap Q_pop_back = elem_of last butlast"
| "dq_call cap Q_front = elem_of hd (\<lambda>xs. xs)"
| "dq_call cap Q_back = elem_of last (\<lambda>xs. xs)"
| "dq_call cap (Q_at n) = (\<lambda>xs. (if unat n < length xs then Inr (Elem (xs ! unat n)) else Inl Ex_out_of_range, xs))"
| "dq_call cap Q_size = (\<lambda>xs. (Inr (Count (length xs)), xs))"
| "dq_call cap Q_empty = (\<lambda>xs. (Inr (Flag (xs = [])), xs))"
| "dq_call cap Q_full = (\<lambda>xs. (Inr (Flag (length xs = cap)), xs))"
| "dq_call cap Q_capacity = (\<lambda>xs. (Inr (Count (if cap = 2 ^ 63 - 1 then 0 else cap)), xs))"
| "dq_call cap Q_list = (\<lambda>xs. (Inr (Elems xs), xs))"
| "dq_call cap Q_clear = (\<lambda>xs. (Inr Done, []))"
| "dq_call cap (Q_reserve n) = (\<lambda>xs. (if unat n \<le> cap then Inr Done else Inl Ex_length_error, xs))"
| "dq_call cap Q_shrink = (\<lambda>xs. (Inr Done, xs))"

text \<open>A call of the circular queue is the call of the list, or was refused by the allocator and did nothing.\<close>

definition simulates :: "(64 word \<Rightarrow> bool) \<Rightarrow> 'a cqueue \<Rightarrow> 'a list \<Rightarrow> (exn + 'b) \<times> 'a cqueue \<Rightarrow> (exn + 'b) \<times> 'a list \<Rightarrow> bool" where
  "simulates grants q xs w v \<longleftrightarrow>
     (w = (Inl Ex_bad_alloc, q) \<and> (\<exists>n. \<not> grants n)) \<or>
     (fst w = fst v \<and> rep (snd w) (snd v) \<and> mCapacity (snd w) = mCapacity q)"

lemma grows_simulates:
  assumes "rep q xs" "grows grants q fits (\<lambda>q'. rep q' ys) (m q)"
  shows "simulates grants q xs (giving (\<lambda>_. Done) m q) (if fits then (Inr Done, ys) else (Inl Ex_length_error, xs))"
proof -
  obtain r q' where m: "m q = (r, q')" by fastforce
  show ?thesis
    using assms m by (cases r) (auto simp: simulates_def grows_def giving_def bind_op_def)
qed

lemma returned: "m q = (Inr a, q') \<Longrightarrow> giving f m q = (Inr (f a), q')" "m q = (Inl e, q') \<Longrightarrow> giving f m q = (Inl e, q')"
  by (simp_all add: giving_def bind_op_def)

lemma cq_call_simulates:
  assumes "rep q xs"
  shows "simulates grants q xs (cq_call grants c q) (dq_call (unat (mCapacity q)) c xs)"
proof (cases c)
  case (Q_push_back x)
  have "simulates grants q xs (giving (\<lambda>_. Done) (push_back grants x) q)
      (if length xs < unat (mCapacity q) then (Inr Done, xs @ [x]) else (Inl Ex_length_error, xs))"
    by (rule grows_simulates[OF assms]) (rule push_back_grows[OF assms])
  then show ?thesis using Q_push_back by (simp add: insert_end_def)
next
  case (Q_push_front x)
  have "simulates grants q xs (giving (\<lambda>_. Done) (push_front grants x) q)
      (if length xs < unat (mCapacity q) then (Inr Done, x # xs) else (Inl Ex_length_error, xs))"
    by (rule grows_simulates[OF assms]) (rule push_front_grows[OF assms])
  then show ?thesis using Q_push_front by (simp add: insert_end_def)
next
  case Q_pop_front
  then show ?thesis
    using assms pop_front_eval[OF assms] by (cases xs) (auto simp: simulates_def elem_of_def giving_def bind_op_def)
next
  case Q_pop_back
  show ?thesis
  proof (cases xs rule: rev_cases)
    case Nil
    then show ?thesis using assms pop_back_eval(1)[OF assms] Q_pop_back
      by (simp add: simulates_def elem_of_def giving_def bind_op_def)
  next
    case (snoc ys y)
    then show ?thesis using pop_back_eval(2)[OF assms snoc] Q_pop_back
      by (auto simp: simulates_def elem_of_def giving_def bind_op_def)
  qed
next
  case Q_front
  then show ?thesis using assms cq_front_eval[OF assms] by (auto simp: simulates_def elem_of_def giving_def bind_op_def)
next
  case Q_back
  then show ?thesis using assms cq_back_eval[OF assms] by (auto simp: simulates_def elem_of_def giving_def bind_op_def)
next
  case (Q_at n)
  then show ?thesis using assms cq_at_eval[OF assms, of n] by (simp add: simulates_def giving_def bind_op_def)
next
  case Q_size
  then show ?thesis using assms rep_sizes(2)[OF assms] by (simp add: simulates_def)
next
  case Q_empty
  then show ?thesis using assms rep_sizes(4)[OF assms] by (simp add: simulates_def cq_empty_def)
next
  case Q_full
  then show ?thesis using assms rep_sizes(2)[OF assms] by (simp add: simulates_def cq_full_def word_unat_eq_iff)
next
  case Q_capacity
  have "mCapacity q = MAX_CAPACITY \<longleftrightarrow> unat (mCapacity q) = 2 ^ 63 - 1" by (simp add: word_unat_eq_iff MAX_CAPACITY_def)
  then show ?thesis using assms Q_capacity by (simp add: simulates_def cq_capacity_def)
next
  case Q_list
  then show ?thesis using assms iterate_eval[OF assms] by (simp add: simulates_def giving_def bind_op_def)
next
  case Q_clear
  then show ?thesis using cq_clear_eval[OF assms] by (auto simp: simulates_def giving_def bind_op_def)
next
  case (Q_reserve n)
  have "simulates grants q xs (giving (\<lambda>_. Done) (reserve grants n) q)
      (if n \<le> mCapacity q then (Inr Done, xs) else (Inl Ex_length_error, xs))"
    by (rule grows_simulates[OF assms]) (rule reserve_grows[OF assms])
  then show ?thesis using Q_reserve by (auto simp: word_le_nat_alt split: if_split_asm)
next
  case Q_shrink
  have "simulates grants q xs (giving (\<lambda>_. Done) (shrink_to_fit grants) q)
      (if True then (Inr Done, xs) else (Inl Ex_length_error, xs))"
    by (rule grows_simulates[OF assms]) (rule shrink_grows[OF assms])
  then show ?thesis using Q_shrink by simp
qed

text \<open>A history of calls: what each gives, thrown or not, and what is left.\<close>

fun run_calls :: "('c \<Rightarrow> ('s, 'r) op) \<Rightarrow> 'c list \<Rightarrow> 's \<Rightarrow> (exn + 'r) list \<times> 's" where
  "run_calls f [] s = ([], s)"
| "run_calls f (c # cs) s =
     (case f c s of (r, s') \<Rightarrow> case run_calls f cs s' of (rs, t) \<Rightarrow> (r # rs, t))"

text \<open>The results are those of a list, but for calls refused for want of memory, which leave it alone.\<close>

primrec explained :: "nat \<Rightarrow> ('a qcall \<times> (exn + 'a qresult)) list \<Rightarrow> 'a list \<Rightarrow> 'a list \<Rightarrow> bool" where
  "explained cap [] xs ys \<longleftrightarrow> ys = xs"
| "explained cap (p # log) xs ys \<longleftrightarrow>
     (if snd p = Inl Ex_bad_alloc then explained cap log xs ys
      else fst (dq_call cap (fst p) xs) = snd p \<and> explained cap log (snd (dq_call cap (fst p) xs)) ys)"

lemma dq_call_errors: "fst (dq_call cap c xs) = Inl e \<Longrightarrow> e = Ex_length_error \<or> e = Ex_out_of_range"
  by (cases c) (auto simp: insert_end_def elem_of_def split: if_split_asm)

lemma run_explained:
  assumes "rep q xs" "run_calls (cq_call grants) cs q = (rs, q')"
  shows "\<exists>ys. rep q' ys \<and> explained (unat (mCapacity q)) (zip cs rs) xs ys \<and> length rs = length cs \<and>
    Inl Ex_crash \<notin> set rs \<and> Inl Ex_hang \<notin> set rs \<and>
    ((\<forall>n. grants n) \<longrightarrow> run_calls (dq_call (unat (mCapacity q))) cs xs = (rs, ys))"
  using assms
proof (induction cs arbitrary: q xs rs)
  case Nil
  then show ?case by auto
next
  case (Cons c cs)
  let ?cap = "unat (mCapacity q)"
  obtain r q1 where c: "cq_call grants c q = (r, q1)" by fastforce
  obtain rs1 where rs: "run_calls (cq_call grants) cs q1 = (rs1, q')" "rs = r # rs1"
    using Cons.prems(2) c by (auto split: prod.splits)
  obtain v xs1 where v: "dq_call ?cap c xs = (v, xs1)" by fastforce
  have "simulates grants q xs (r, q1) (v, xs1)"
    using cq_call_simulates[OF Cons.prems(1), of grants c] c v by simp
  then consider "r = Inl Ex_bad_alloc" "q1 = q" "\<not> (\<forall>n. grants n)" | "r = v" "rep q1 xs1" "mCapacity q1 = mCapacity q"
    by (auto simp: simulates_def)
  then show ?case
  proof cases
    case 1
    with Cons.IH[OF Cons.prems(1), of rs1] rs show ?thesis by auto
  next
    case 2
    have "r \<noteq> Inl Ex_bad_alloc" "r \<noteq> Inl Ex_crash" "r \<noteq> Inl Ex_hang"
      using dq_call_errors[of ?cap c xs] v 2(1) by auto
    with Cons.IH[OF 2(2) rs(1)] rs(2) v 2 show ?thesis by auto
  qed
qed

lemma create_rep:
  assumes "cqueue_create capacity = Inr q"
  shows "rep q []" "unat (mCapacity q) = (if capacity = 0 then 2 ^ 63 - 1 else unat capacity)"
  using assms by (auto simp: cqueue_create_def rep_def MAX_CAPACITY_def word_neq_0_conv split: if_split_asm)

text \<open>
  C28: The circular queue is a list with a bound.  Whatever is called in whatever order on a new queue, each
  call gives, returned or thrown, what it gives on a list of at most as many elements, and the iteration
  finds the elements of that list; a call refused for want of memory throws and changes nothing.  No call
  touches a slot it must not touch, and the loop that doubles the buffer always ends.
\<close>

theorem cqueue_refines:
  assumes "cqueue_create capacity = Inr q" "run_calls (cq_call grants) cs q = (rs, q')"
  shows "\<exists>ys. explained (if capacity = 0 then 2 ^ 63 - 1 else unat capacity) (zip cs rs) [] ys \<and> length rs = length cs \<and>
    iterate q' = (Inr ys, q') \<and> Inl Ex_crash \<notin> set rs \<and> Inl Ex_hang \<notin> set rs \<and>
    ((\<forall>n. grants n) \<longrightarrow> run_calls (dq_call (if capacity = 0 then 2 ^ 63 - 1 else unat capacity)) cs [] = (rs, ys))"
  using run_explained[OF create_rep(1)[OF assms(1)] assms(2)] iterate_eval unfolding create_rep(2)[OF assms(1)] by blast

text \<open>A queue for two, filled from both sides, one too many, and emptied.\<close>

theorem cqueue_refines_witness:
  "\<exists>q' ys. run_calls (cq_call (\<lambda>_. True)) [Q_push_back (5 :: nat), Q_push_front 4, Q_push_back 6, Q_pop_front] 
       \<lparr>mData = [], mReserved = 0, mCapacity = 2, mFront = 0, mLength = 0\<rparr> =
     ([Inr Done, Inr Done, Inl Ex_length_error, Inr (Elem 4)], q') \<and> iterate q' = (Inr [5], q')"
proof -
  let ?q = "\<lparr>mData = [], mReserved = 0, mCapacity = 2, mFront = 0, mLength = 0\<rparr> :: nat cqueue"
  let ?cs = "[Q_push_back 5, Q_push_front 4, Q_push_back 6, Q_pop_front]"
  have new: "cqueue_create 2 = Inr ?q" by (simp add: cqueue_create_def MAX_CAPACITY_def word_less_nat_alt)
  obtain rs q' where run: "run_calls (cq_call (\<lambda>_. True)) ?cs ?q = (rs, q')" by fastforce
  from cqueue_refines[OF new run] obtain ys where ys: "iterate q' = (Inr ys, q')" "run_calls (dq_call 2) ?cs [] = (rs, ys)"
    by auto
  then have "rs = [Inr Done, Inr Done, Inl Ex_length_error, Inr (Elem 4)]" "ys = [5]"
    by (simp_all add: insert_end_def elem_of_def)
  with run ys(1) show ?thesis by blast
qed

section \<open>What the client asks of a queue\<close>

text \<open>
  Insertion at one end, removal at the other, a look at the first element.  \<open>room\<close> says when an insertion
  cannot fail.
\<close>

locale fifo =
  fixes enq :: "'a \<Rightarrow> ('q, unit) op"
    and deq :: "('q, 'a) op"
    and peek :: "('q, 'a) op"
    and wipe :: "('q, unit) op"
    and none :: "'q \<Rightarrow> bool"
    and content :: "'q \<Rightarrow> 'a list"
    and ok :: "'q \<Rightarrow> bool"
    and room :: "'q \<Rightarrow> bool"
  assumes enq: "ok q \<Longrightarrow> room q \<Longrightarrow> \<exists>q'. enq x q = (Inr (), q') \<and> ok q' \<and> content q' = content q @ [x]"
    and deq: "ok q \<Longrightarrow> content q = x # xs \<Longrightarrow> \<exists>q'. deq q = (Inr x, q') \<and> ok q' \<and> content q' = xs"
    and peek: "ok q \<Longrightarrow> content q = x # xs \<Longrightarrow> peek q = (Inr x, q)"
    and wipe: "ok q \<Longrightarrow> \<exists>q'. wipe q = (Inr (), q') \<and> ok q' \<and> content q' = []"
    and none: "ok q \<Longrightarrow> none q \<longleftrightarrow> content q = []"

text \<open>
  The loop \<open>while (!q.empty() && P(q.front())) q.pop();\<close>, with a bound on its turns: \<open>process_submit_resp\<close>
  and \<open>process_update\<close> discard what is too old, \<open>cancel_requests\<close> takes everything.  What was removed is
  returned.
\<close>

fun pop_while :: "('q, 'a) op \<Rightarrow> ('q, 'a) op \<Rightarrow> ('q \<Rightarrow> bool) \<Rightarrow> ('a \<Rightarrow> bool) \<Rightarrow> nat \<Rightarrow> ('q, 'a list) op" where
  "pop_while deq peek none P 0 q = (Inr [], q)"
| "pop_while deq peek none P (Suc n) q =
     (if none q then (Inr [], q)
      else bind_op peek (\<lambda>x. if \<not> P x then return_op []
             else bind_op deq (\<lambda>y. bind_op (pop_while deq peek none P n) (\<lambda>ys. return_op (y # ys)))) q)"

context fifo
begin

lemma pop_while:
  "ok q \<Longrightarrow> length (content q) \<le> n \<Longrightarrow>
     \<exists>q'. pop_while deq peek none P n q = (Inr (takeWhile P (content q)), q') \<and> ok q' \<and> content q' = dropWhile P (content q)"
proof (induction n arbitrary: q)
  case 0
  then show ?case by simp
next
  case (Suc n)
  show ?case
  proof (cases "content q")
    case Nil
    then show ?thesis using Suc.prems none by simp
  next
    case (Cons x xs)
    have e: "\<not> none q" "peek q = (Inr x, q)" using none peek Suc.prems(1) Cons by simp_all
    obtain q1 where q1: "deq q = (Inr x, q1)" "ok q1" "content q1 = xs" using deq[OF Suc.prems(1) Cons] by blast
    show ?thesis
    proof (cases "P x")
      case False
      then show ?thesis using e Cons Suc.prems(1) by (simp add: bind_op_def)
    next
      case True
      obtain q2 where "pop_while deq peek none P n q1 = (Inr (takeWhile P xs), q2)" "ok q2" "content q2 = dropWhile P xs"
        using Suc.IH[OF q1(2)] Suc.prems(2) Cons q1(3) by auto
      then show ?thesis using True e q1 Cons by (simp add: bind_op_def)
    qed
  qed
qed

text \<open>Everything is taken in the order it came.\<close>

lemma drain:
  assumes "ok q"
  shows "\<exists>q'. pop_while deq peek none (\<lambda>_. True) (length (content q)) q = (Inr (content q), q') \<and> ok q' \<and> content q' = []"
proof -
  have all: "takeWhile (\<lambda>_. True) (content q) = content q" "dropWhile (\<lambda>_. True) (content q) = []"
    by (simp_all only: takeWhile_eq_all_conv dropWhile_eq_Nil_conv) simp_all
  show ?thesis using pop_while[OF assms order.refl, of "\<lambda>_. True"] by (simp only: all)
qed

end

text \<open>The lists of the client's model, and the circular queue while memory is granted.\<close>

interpretation lq: fifo "\<lambda>x xs. (Inr (), xs @ [x])" "\<lambda>xs. (Inr (hd xs), tl xs)" "\<lambda>xs. (Inr (hd xs), xs)"
    "\<lambda>xs. (Inr (), [])" "\<lambda>xs. xs = []" "\<lambda>xs. xs" "\<lambda>_. True" "\<lambda>_. True"
  by unfold_locales simp_all

definition elements :: "'a cqueue \<Rightarrow> 'a list" where
  "elements q = (case iterate q of (Inl e, _) \<Rightarrow> [] | (Inr xs, _) \<Rightarrow> xs)"

lemma rep_elements: "rep q xs \<Longrightarrow> elements q = xs"
  by (simp add: elements_def iterate_eval)

definition sound_queue :: "'a cqueue \<Rightarrow> bool" where
  "sound_queue q \<longleftrightarrow> rep q (elements q)"

lemma sound_queueI: "rep q xs \<Longrightarrow> sound_queue q \<and> elements q = xs"
  by (simp add: sound_queue_def rep_elements)

lemma push_back_room:
  assumes "sound_queue q" "mLength q < mCapacity q"
  shows "\<exists>q'. push_back (\<lambda>_. True) x q = (Inr (), q') \<and> sound_queue q' \<and> elements q' = elements q @ [x]"
proof -
  have rep: "rep q (elements q)" using assms(1) by (simp add: sound_queue_def)
  obtain r q' where r: "push_back (\<lambda>_. True) x q = (r, q')" by fastforce
  have "length (elements q) < unat (mCapacity q)" using assms(2) rep_sizes(2)[OF rep] by (simp add: word_less_nat_alt)
  with push_back_grows[OF rep, of "\<lambda>_. True" x] r have "\<exists>u. r = Inr u" "rep q' (elements q @ [x])"
    by (auto simp: grows_def)
  then show ?thesis using r sound_queueI by auto
qed

interpretation cq: fifo "push_back (\<lambda>_. True)" pop_front cq_front cq_clear cq_empty elements sound_queue
    "\<lambda>q. mLength q < mCapacity q"
proof unfold_locales
  fix q :: "'b cqueue" and x xs
  assume q: "sound_queue q"
  then have rep: "rep q (elements q)" by (simp add: sound_queue_def)
  show "\<exists>q'. push_back (\<lambda>_. True) x q = (Inr (), q') \<and> sound_queue q' \<and> elements q' = elements q @ [x]"
    if "mLength q < mCapacity q" using push_back_room[OF q that] .
  show "\<exists>q'. pop_front q = (Inr x, q') \<and> sound_queue q' \<and> elements q' = xs" if "elements q = x # xs"
    using pop_front_eval(2)[OF rep that] sound_queueI by blast
  show "cq_front q = (Inr x, q)" if "elements q = x # xs" using cq_front_eval[OF rep] that by simp
  show "\<exists>q'. cq_clear q = (Inr (), q') \<and> sound_queue q' \<and> elements q' = []"
    using cq_clear_eval[OF rep] sound_queueI by blast
  show "cq_empty q \<longleftrightarrow> elements q = []" using rep_sizes(4)[OF rep] by (simp add: cq_empty_def)
qed

end
