(* ===== verification/Nplex_Client_Queues.thy ===== *)
theory Nplex_Client_Queues
  imports Nplex_Client_Safety Nplex_Cqueue_Spec
begin

text \<open>
  The client and its queues together: what the code does with \<open>m_commands\<close>, \<open>m_requests\<close> and \<open>m_accepted\<close>
  on circular queues is what the model of the client does with its lists.
\<close>

text \<open>Each circular queue of a client, with the list of the model it stands for.\<close>

definition holds :: "'a cqueue \<Rightarrow> 'a list \<Rightarrow> bool" where
  "holds q xs \<longleftrightarrow> sound_queue q \<and> elements q = xs"

text \<open>The loop of \<open>process_submit_resp\<close> that discards older requests, and the one of \<open>process_update\<close>.\<close>

lemma discard_older_queue:
  assumes "holds q (cl_requests c)"
  shows "\<exists>q'. pop_while pop_front cq_front cq_empty (\<lambda>r. rq_cid r < cid) (length (cl_requests c)) q =
      (Inr (takeWhile (\<lambda>r. rq_cid r < cid) (cl_requests c)), q') \<and> holds q' (cl_requests (discard_older cid c))"
proof -
  let ?old = "takeWhile (\<lambda>r. rq_cid r < cid) (cl_requests c)"
  have "cl_requests (discard_older cid c) = drop (length ?old) (cl_requests c)"
    using core_fields(3)[OF core_drops(1)] by (simp add: discard_older_def Let_def)
  then show ?thesis
    using cq.pop_while[of q "length (cl_requests c)" "\<lambda>r. rq_cid r < cid"] assms
    by (auto simp: holds_def dropWhile_eq_drop)
qed

lemma accepted_queue:
  assumes "holds q (cl_accepted c)"
  shows "\<exists>q'. pop_while pop_front cq_front cq_empty (\<lambda>r. rq_erev r < rv) (length (cl_accepted c)) q =
      (Inr (takeWhile (\<lambda>r. rq_erev r < rv) (cl_accepted c)), q') \<and> holds q' (dropWhile (\<lambda>r. rq_erev r < rv) (cl_accepted c))"
  using cq.pop_while[of q "length (cl_accepted c)" "\<lambda>r. rq_erev r < rv"] assms by (auto simp: holds_def)

text \<open>\<open>push_command\<close>, when it queues the command.\<close>

lemma push_command_queue:
  assumes "holds q (cl_commands c)" "mLength q < mCapacity q"
    and "\<not> is_closed c" "length (cl_commands c) < unat (p_max_active_txs (cl_params c) + 3)"
  shows "\<exists>q'. push_back (\<lambda>_. True) cmd q = (Inr (), q') \<and> holds q' (cl_commands (snd (push_command cmd c)))"
  using cq.enq[of q cmd] assms by (auto simp: holds_def push_command_def Let_def)

text \<open>The command \<open>process_commands\<close> takes.\<close>

lemma take_command_queue:
  "holds q (cl_commands c) \<Longrightarrow> cl_commands c = cmd # cmds \<Longrightarrow>
     \<exists>q'. pop_front q = (Inr cmd, q') \<and> holds q' (cl_commands (c\<lparr>cl_commands := cmds\<rparr>))"
  using cq.deq[of q cmd cmds] by (auto simp: holds_def)

lemma clear_commands_queue:
  "holds q (cl_commands c) \<Longrightarrow> \<exists>q'. cq_clear q = (Inr (), q') \<and> holds q' (cl_commands (clear_commands c))"
  using cq.wipe[of q] core_fields(5)[OF core_drops(2)] by (auto simp: holds_def clear_commands_def)

end
