(* ===== verification/Nplex_Regex.thy ===== *)
theory Nplex_Regex
  imports Nplex_Decimal
begin

text \<open>
  The regular expressions of \<open>std::regex\<close> that \<open>src/addr.cpp\<close> uses, in the grammar
  \<open>std::regex::extended\<close>: their text, the language each denotes, and a matcher that decides
  \<open>std::regex_match\<close>.  The matcher computes what is left of a string after every way to match the
  expression at its front, as a backtracking executor visits them; \<open>rests_iff\<close> shows that it decides
  the language.  In this grammar a backslash inside brackets is an ordinary byte.
\<close>

section \<open>Expressions\<close>

datatype item = Byte char | Bytes char char     \<comment> \<open>\<open>c\<close> and \<open>c-d\<close> inside brackets\<close>

datatype regex =
    Eps
  | Lit char
  | Esc char                       \<comment> \<open>a byte after a backslash\<close>
  | Bracket "item list"
  | Group regex
  | Cat regex regex
  | Alt regex regex
  | Star regex
  | Exactly regex nat              \<comment> \<open>\<open>r{n}\<close>\<close>
  | Between regex nat nat          \<comment> \<open>\<open>r{m,n}\<close>\<close>
  | At_least regex nat             \<comment> \<open>\<open>r{m,}\<close>\<close>

fun cat :: "regex list \<Rightarrow> regex" where
  "cat [] = Eps" | "cat [r] = r" | "cat (r # rs) = Cat r (cat rs)"

fun alt :: "regex list \<Rightarrow> regex" where
  "alt [] = Eps" | "alt [r] = r" | "alt (r # rs) = Alt r (alt rs)"

abbreviation literal :: "string \<Rightarrow> regex" where
  "literal s \<equiv> cat (map Lit s)"

subsection \<open>The text of an expression\<close>

fun item_text :: "item \<Rightarrow> string" where
  "item_text (Byte c) = [c]"
| "item_text (Bytes c d) = [c, CHR ''-'', d]"

fun regex_text :: "regex \<Rightarrow> string" where
  "regex_text Eps = []"
| "regex_text (Lit c) = [c]"
| "regex_text (Esc c) = [CHR 0x5C, c]"
| "regex_text (Bracket its) = ''['' @ concat (map item_text its) @ '']''"
| "regex_text (Group r) = ''('' @ regex_text r @ '')''"
| "regex_text (Cat r q) = regex_text r @ regex_text q"
| "regex_text (Alt r q) = regex_text r @ ''|'' @ regex_text q"
| "regex_text (Star r) = regex_text r @ ''*''"
| "regex_text (Exactly r n) = regex_text r @ ''{'' @ decimal n @ ''}''"
| "regex_text (Between r m n) = regex_text r @ ''{'' @ decimal m @ '','' @ decimal n @ ''}''"
| "regex_text (At_least r m) = regex_text r @ ''{'' @ decimal m @ '',}''"

section \<open>Languages\<close>

fun item_has :: "item \<Rightarrow> char \<Rightarrow> bool" where
  "item_has (Byte c) x = (x = c)"
| "item_has (Bytes c d) x = (c \<le> x \<and> x \<le> d)"

definition in_bracket :: "item list \<Rightarrow> char \<Rightarrow> bool" where
  "in_bracket its x = list_ex (\<lambda>i. item_has i x) its"

definition conc :: "string set \<Rightarrow> string set \<Rightarrow> string set" where
  "conc A B = {u @ v | u v. u \<in> A \<and> v \<in> B}"

primrec power_lang :: "string set \<Rightarrow> nat \<Rightarrow> string set" where
  "power_lang A 0 = {[]}"
| "power_lang A (Suc n) = conc A (power_lang A n)"

primrec lang :: "regex \<Rightarrow> string set" where
  "lang Eps = {[]}"
| "lang (Lit c) = {[c]}"
| "lang (Esc c) = {[c]}"
| "lang (Bracket its) = {[c] | c. in_bracket its c}"
| "lang (Group r) = lang r"
| "lang (Cat r q) = conc (lang r) (lang q)"
| "lang (Alt r q) = lang r \<union> lang q"
| "lang (Star r) = (\<Union>n. power_lang (lang r) n)"
| "lang (Exactly r n) = power_lang (lang r) n"
| "lang (Between r m n) = (\<Union>k\<in>{m..n}. power_lang (lang r) k)"
| "lang (At_least r m) = (\<Union>k\<in>{m..}. power_lang (lang r) k)"

section \<open>The matcher\<close>

text \<open>What \<open>n\<close> matches in a row leave, and what any number of matches that consume something leave.\<close>

primrec power_rests :: "(string \<Rightarrow> string list) \<Rightarrow> nat \<Rightarrow> string list \<Rightarrow> string list" where
  "power_rests f 0 ss = ss"
| "power_rests f (Suc n) ss = power_rests f n (remdups (concat (map f ss)))"

function star_rests :: "(string \<Rightarrow> string list) \<Rightarrow> string \<Rightarrow> string list" where
  "star_rests f s =
     s # concat (map (star_rests f) (filter (\<lambda>t. length t < length s) (f s)))"
  by auto

termination star_rests
  by (relation "measure (\<lambda>(f, s). length s)") auto

declare star_rests.simps [simp del]

primrec rests :: "regex \<Rightarrow> string \<Rightarrow> string list" where
  "rests Eps s = [s]"
| "rests (Lit c) s = (case s of [] \<Rightarrow> [] | x # t \<Rightarrow> if x = c then [t] else [])"
| "rests (Esc c) s = (case s of [] \<Rightarrow> [] | x # t \<Rightarrow> if x = c then [t] else [])"
| "rests (Bracket its) s = (case s of [] \<Rightarrow> [] | x # t \<Rightarrow> if in_bracket its x then [t] else [])"
| "rests (Group r) s = rests r s"
| "rests (Cat r q) s = remdups (concat (map (rests q) (rests r s)))"
| "rests (Alt r q) s = rests r s @ rests q s"
| "rests (Star r) s = star_rests (rests r) s"
| "rests (Exactly r n) s = power_rests (rests r) n [s]"
| "rests (Between r m n) s =
     concat (map (\<lambda>k. power_rests (rests r) k [s]) [m..<Suc n])"
| "rests (At_least r m) s =
     concat (map (star_rests (rests r)) (power_rests (rests r) m [s]))"

text \<open>\<open>std::regex_match\<close>: the whole string is matched.\<close>

definition regex_match :: "string \<Rightarrow> regex \<Rightarrow> bool" where
  "regex_match s r \<longleftrightarrow> [] \<in> set (rests r s)"

section \<open>The matcher decides the language\<close>

lemma conc_iff: "s \<in> conc A B \<longleftrightarrow> (\<exists>u v. s = u @ v \<and> u \<in> A \<and> v \<in> B)"
  by (auto simp: conc_def)

lemma conc_assoc: "conc (conc A B) C = conc A (conc B C)"
  by (auto simp: conc_def) (metis append.assoc)+

lemma conc_Nil [simp]: "conc {[]} A = A" "conc A {[]} = A"
  by (auto simp: conc_def)

lemma conc_mono: "A \<subseteq> A' \<Longrightarrow> B \<subseteq> B' \<Longrightarrow> conc A B \<subseteq> conc A' B'"
  by (auto simp: conc_def)

lemma power_lang_add: "power_lang A (m + n) = conc (power_lang A m) (power_lang A n)"
  by (induction m) (auto simp: conc_assoc)

text \<open>\<open>leaves f A\<close>: the list function \<open>f\<close> computes what a prefix in \<open>A\<close> leaves.\<close>

definition leaves :: "(string \<Rightarrow> string list) \<Rightarrow> string set \<Rightarrow> bool" where
  "leaves f A \<longleftrightarrow> (\<forall>s t. t \<in> set (f s) \<longleftrightarrow> (\<exists>u\<in>A. s = u @ t))"

lemma leavesD: "leaves f A \<Longrightarrow> t \<in> set (f s) \<longleftrightarrow> (\<exists>u\<in>A. s = u @ t)"
  by (simp add: leaves_def)

lemma power_rests_iff:
  assumes "leaves f A"
  shows "t \<in> set (power_rests f n ss) \<longleftrightarrow> (\<exists>s\<in>set ss. \<exists>u\<in>power_lang A n. s = u @ t)"
proof (induction n arbitrary: ss)
  case 0
  then show ?case by auto
next
  case (Suc n)
  show ?case
  proof
    assume "t \<in> set (power_rests f (Suc n) ss)"
    then obtain x a v u where "x \<in> set ss" "a \<in> A" "x = a @ v" "u \<in> power_lang A n" "v = u @ t"
      by (auto simp: Suc leavesD[OF assms])
    then have "x \<in> set ss" "a @ u \<in> power_lang A (Suc n)" "x = (a @ u) @ t"
      by (auto simp: conc_iff)
    then show "\<exists>s\<in>set ss. \<exists>u\<in>power_lang A (Suc n). s = u @ t" by blast
  next
    assume "\<exists>s\<in>set ss. \<exists>u\<in>power_lang A (Suc n). s = u @ t"
    then obtain x a u where "x \<in> set ss" "a \<in> A" "u \<in> power_lang A n" "x = a @ u @ t"
      by (auto simp: conc_iff)
    then show "t \<in> set (power_rests f (Suc n) ss)"
      by (force simp: Suc leavesD[OF assms])
  qed
qed

lemma star_rests_iff:
  assumes f: "leaves f A"
  shows "t \<in> set (star_rests f s) \<longleftrightarrow> (\<exists>n. \<exists>u\<in>power_lang A n. s = u @ t)"
proof (induction s rule: length_induct)
  case (1 s)
  have unfold: "t \<in> set (star_rests f s) \<longleftrightarrow>
      t = s \<or> (\<exists>v a. s = a @ v \<and> a \<in> A \<and> a \<noteq> [] \<and> t \<in> set (star_rests f v))"
  proof -
    have step: "v \<in> set (f s) \<and> length v < length s \<longleftrightarrow>
        (\<exists>a. s = a @ v \<and> a \<in> A \<and> a \<noteq> [])" for v
    proof -
      have "length v < length (a @ v) \<longleftrightarrow> a \<noteq> []" for a :: string by simp
      then show ?thesis unfolding leavesD[OF f] by blast
    qed
    have "t \<in> set (star_rests f s) \<longleftrightarrow>
        t = s \<or> (\<exists>v. (v \<in> set (f s) \<and> length v < length s) \<and> t \<in> set (star_rests f v))"
      by (subst star_rests.simps) auto
    then show ?thesis unfolding step by (auto simp only: conj_assoc)
  qed
  show ?case
  proof
    assume "t \<in> set (star_rests f s)"
    then consider "t = s"
      | v a where "s = a @ v" "a \<in> A" "a \<noteq> []" "t \<in> set (star_rests f v)"
      using unfold by blast
    then show "\<exists>n. \<exists>u\<in>power_lang A n. s = u @ t"
    proof cases
      case 1
      then have "[] \<in> power_lang A 0" "s = [] @ t" by simp_all
      then show ?thesis by blast
    next
      case 2
      then obtain n u where "u \<in> power_lang A n" "v = u @ t"
        using 1[rule_format, of v] by auto
      with 2 have "a @ u \<in> power_lang A (Suc n)" "s = (a @ u) @ t" by (auto simp: conc_iff)
      then show ?thesis by blast
    qed
  next
    assume "\<exists>n. \<exists>u\<in>power_lang A n. s = u @ t"
    then obtain n u where "u \<in> power_lang A n" "s = u @ t" by blast
    then show "t \<in> set (star_rests f s)"
    proof (induction n arbitrary: u)
      case 0
      then show ?case using unfold by simp
    next
      case (Suc n)
      then obtain a b where ab: "u = a @ b" "a \<in> A" "b \<in> power_lang A n"
        by (auto simp: conc_iff)
      show ?case
      proof (cases "a = []")
        case True
        with Suc ab show ?thesis by simp
      next
        case False
        then have "t \<in> set (star_rests f (b @ t))"
          using 1[rule_format, of "b @ t"] ab Suc.prems(2) by auto
        with unfold ab False Suc.prems(2) show ?thesis by auto
      qed
    qed
  qed
qed

lemma leaves_rests: "leaves (rests r) (lang r)"
proof (induction r)
  case (Bracket its)
  then show ?case by (auto simp: leaves_def split: list.splits)
next
  case (Cat r q)
  then show ?case by (auto simp: leaves_def conc_iff) (metis append.assoc)+
next
  case (Alt r q)
  then show ?case by (auto simp: leaves_def)
next
  case (Star r)
  show ?case by (auto simp: leaves_def star_rests_iff[OF Star])
next
  case (Exactly r n)
  show ?case by (auto simp: leaves_def power_rests_iff[OF Exactly])
next
  case (Between r m n)
  have "m \<le> k \<and> k \<le> n \<longleftrightarrow> k \<in> set [m..<Suc n]" for k by auto
  then show ?case by (auto simp: leaves_def power_rests_iff[OF Between] simp del: upt_Suc)
next
  case (At_least r m)
  show ?case
  proof (unfold leaves_def, intro allI iffI)
    fix s t
    assume "t \<in> set (rests (At_least r m) s)"
    then obtain n u v where "s = u @ v @ t" "u \<in> power_lang (lang r) m" "v \<in> power_lang (lang r) n"
      by (auto simp: star_rests_iff[OF At_least] power_rests_iff[OF At_least])
    then have "u @ v \<in> power_lang (lang r) (m + n)" "s = (u @ v) @ t"
      by (auto simp: power_lang_add conc_iff)
    then show "\<exists>u\<in>lang (At_least r m). s = u @ t"
      by (auto intro!: bexI[of _ "u @ v"] bexI[of _ "m + n"])
  next
    fix s t
    assume "\<exists>u\<in>lang (At_least r m). s = u @ t"
    then obtain k w where "s = w @ t" "w \<in> power_lang (lang r) k" "m \<le> k" by auto
    then obtain u v where "s = u @ v @ t" "u \<in> power_lang (lang r) m"
      "v \<in> power_lang (lang r) (k - m)"
      using power_lang_add[of "lang r" m "k - m"] by (auto simp: conc_iff)
    then have "v @ t \<in> set (power_rests (rests r) m [s])" "t \<in> set (star_rests (rests r) (v @ t))"
      by (auto simp: star_rests_iff[OF At_least] power_rests_iff[OF At_least])
    then show "t \<in> set (rests (At_least r m) s)" by auto
  qed
qed (auto simp: leaves_def split: list.splits)

theorem regex_match_iff: "regex_match s r \<longleftrightarrow> s \<in> lang r"
  by (simp add: regex_match_def leavesD[OF leaves_rests])

end
