(* ===== verification/Nplex_Addr.thy ===== *)
theory Nplex_Addr
  imports Nplex_Regex
begin

text \<open>
  Server addresses, \<open>src/addr.cpp\<close> and \<open>src/addr.hpp\<close>: the three patterns, \<open>addr_t(str)\<close> and
  \<open>str()\<close>.  Every \<open>throw\<close> of the constructor is a \<open>std::invalid_argument\<close>.
\<close>

section \<open>Patterns\<close>

definition re_digit :: regex where
  "re_digit = Bracket [Bytes (CHR ''0'') (CHR ''9'')]"

definition re_nonzero :: regex where
  "re_nonzero = Bracket [Bytes (CHR ''1'') (CHR ''9'')]"

text \<open>\<open>([0-9]|[1-9][0-9]|1[0-9]{2}|2[0-4][0-9]|25[0-5])\<close>\<close>

definition re_octet :: regex where
  "re_octet = Group (alt
     [re_digit,
      Cat re_nonzero re_digit,
      Cat (Lit (CHR ''1'')) (Exactly re_digit 2),
      cat [Lit (CHR ''2''), Bracket [Bytes (CHR ''0'') (CHR ''4'')], re_digit],
      Cat (literal ''25'') (Bracket [Bytes (CHR ''0'') (CHR ''5'')])])"

definition ipv4_regex :: regex where
  "ipv4_regex = Cat (Exactly (Group (Cat re_octet (Esc (CHR ''.'')))) 3) re_octet"

text \<open>\<open>[0-9a-fA-F]{1,4}\<close>, the same and a colon, a colon and the same.\<close>

definition re_hex :: regex where
  "re_hex = Bracket [Bytes (CHR ''0'') (CHR ''9''), Bytes (CHR ''a'') (CHR ''f''),
                     Bytes (CHR ''A'') (CHR ''F'')]"

definition re_h16 :: regex where
  "re_h16 = Between re_hex 1 4"

definition re_h16_colon :: regex where
  "re_h16_colon = Group (Cat re_h16 (Lit (CHR '':'')))"

definition re_colon_h16 :: regex where
  "re_colon_h16 = Group (Cat (Lit (CHR '':'')) re_h16)"

text \<open>\<open>(25[0-5]|(2[0-4]|1{0,1}[0-9]){0,1}[0-9])\<close>, and four of them.\<close>

definition re_octet6 :: regex where
  "re_octet6 = Group (Alt
     (Cat (literal ''25'') (Bracket [Bytes (CHR ''0'') (CHR ''5'')]))
     (Cat (Between (Group (Alt (Cat (Lit (CHR ''2'')) (Bracket [Bytes (CHR ''0'') (CHR ''4'')]))
                               (Cat (Between (Lit (CHR ''1'')) 0 1) re_digit))) 0 1)
          re_digit))"

definition re_ipv4_in6 :: regex where
  "re_ipv4_in6 = Cat (Between (Group (Cat re_octet6 (Esc (CHR ''.'')))) 3 3) re_octet6"

text \<open>The alternatives without a zone and without an IPv4 part.\<close>

definition re_ipv6_plain :: "regex list" where
  "re_ipv6_plain =
     [Cat (Between re_h16_colon 7 7) re_h16,
      Cat (Between re_h16_colon 1 7) (Lit (CHR '':'')),
      Cat (Between re_h16_colon 1 6) (Cat (Lit (CHR '':'')) re_h16),
      Cat (Between re_h16_colon 1 5) (Between re_colon_h16 1 2),
      Cat (Between re_h16_colon 1 4) (Between re_colon_h16 1 3),
      Cat (Between re_h16_colon 1 3) (Between re_colon_h16 1 4),
      Cat (Between re_h16_colon 1 2) (Between re_colon_h16 1 5),
      cat [re_h16, Lit (CHR '':''), Group (Between re_colon_h16 1 6)],
      Cat (Lit (CHR '':'')) (Group (Alt (Between re_colon_h16 1 7) (Lit (CHR '':''))))]"

text \<open>\<open>fe80:(:[0-9a-fA-F]{0,4}){0,4}%[0-9a-zA-Z]{1,}\<close>\<close>

definition re_ipv6_zone :: regex where
  "re_ipv6_zone =
     cat [literal ''fe80:'', Between (Group (Cat (Lit (CHR '':'')) (Between re_hex 0 4))) 0 4,
          Lit (CHR ''%''),
          At_least (Bracket [Bytes (CHR ''0'') (CHR ''9''), Bytes (CHR ''a'') (CHR ''z''),
                             Bytes (CHR ''A'') (CHR ''Z'')]) 1]"

definition re_ipv6_mixed :: "regex list" where
  "re_ipv6_mixed =
     [cat [literal ''::'',
           Between (Group (cat [literal ''ffff'',
             Between (Group (Cat (Lit (CHR '':'')) (Between (Lit (CHR ''0'')) 1 4))) 0 1,
             Lit (CHR '':'')])) 0 1,
           re_ipv4_in6],
      cat [Between re_h16_colon 1 4, Lit (CHR '':''), re_ipv4_in6]]"

definition ipv6_regex :: regex where
  "ipv6_regex = Group (alt (re_ipv6_plain @ re_ipv6_zone # re_ipv6_mixed))"

text \<open>
  \<open>([a-zA-Z0-9]|[a-zA-Z0-9][a-zA-Z0-9\-]{0,61}[a-zA-Z0-9])\<close>: the backslash is one of the bytes of the
  second bracket.
\<close>

definition re_label :: "item list \<Rightarrow> regex" where
  "re_label alnum =
     Group (Alt (Bracket alnum)
       (cat [Bracket alnum, Between (Bracket (alnum @ [Byte (CHR 0x5C), Byte (CHR ''-'')])) 0 61,
             Bracket alnum]))"

definition alnum_az :: "item list" where
  "alnum_az = [Bytes (CHR ''a'') (CHR ''z''), Bytes (CHR ''A'') (CHR ''Z''),
               Bytes (CHR ''0'') (CHR ''9'')]"

definition alnum_AZ :: "item list" where
  "alnum_AZ = [Bytes (CHR ''A'') (CHR ''Z''), Bytes (CHR ''a'') (CHR ''z''),
               Bytes (CHR ''0'') (CHR ''9'')]"

definition hostname_regex :: regex where
  "hostname_regex = Cat (Star (Group (Cat (re_label alnum_az) (Esc (CHR ''.''))))) (re_label alnum_AZ)"

section \<open>Addresses\<close>

datatype addr_family = AF_INET | AF_INET6 | AF_UNSPEC

record addr_t =
  a_host :: string
  a_port :: "16 word"
  a_family :: addr_family

definition default_addr :: addr_t where
  "default_addr = \<lparr>a_host = ''localhost'', a_port = 0, a_family = AF_UNSPEC\<rparr>"

text \<open>\<open>std::string_view::find_last_of\<close> of one byte.\<close>

fun find_last_of :: "char \<Rightarrow> string \<Rightarrow> nat option" where
  "find_last_of c [] = None"
| "find_last_of c (x # xs) =
     (case find_last_of c xs of
        Some n \<Rightarrow> Some (Suc n)
      | None \<Rightarrow> if x = c then Some 0 else None)"

text \<open>
  \<open>std::from_chars\<close> for a 32-bit \<open>int\<close>: a value and what follows the digits, or \<^term>\<open>None\<close> for an
  error code.
\<close>

definition from_chars :: "string \<Rightarrow> (int \<times> string) option" where
  "from_chars s =
     (let neg = (s \<noteq> [] \<and> hd s = CHR ''-'');
          t = (if neg then tl s else s);
          ds = takeWhile is_digit t;
          n = (if neg then - int (digits_value ds) else int (digits_value ds))
      in if ds = [] \<or> n < - (2 ^ 31) \<or> 2 ^ 31 \<le> n then None
         else Some (n, dropWhile is_digit t))"

text \<open>\<open>addr_t(const std::string_view &str)\<close>.\<close>

definition addr_of :: "string \<Rightarrow> exn + addr_t" where
  "addr_of s =
     (case find_last_of (CHR '':'') s of
        None \<Rightarrow> Inl Ex_invalid_argument
      | Some pos \<Rightarrow>
          if length s - pos > 6 then Inl Ex_invalid_argument
          else if \<not> list_all is_digit (drop (pos + 1) s) then Inl Ex_invalid_argument
          else
            (case from_chars (drop (pos + 1) s) of
               None \<Rightarrow> Inl Ex_invalid_argument
             | Some (num, rest) \<Rightarrow>
                 if rest \<noteq> [] \<or> num \<le> 0 \<or> num > 65535 then Inl Ex_invalid_argument
                 else
                   let port = word_of_int num; host = take pos s
                   in if host \<noteq> [] \<and> hd host = CHR ''['' \<and> last host = CHR '']'' then
                        let inner = take (length host - 2) (drop 1 host)
                        in if \<not> regex_match inner ipv6_regex then Inl Ex_invalid_argument
                           else Inr \<lparr>a_host = inner, a_port = port, a_family = AF_INET6\<rparr>
                      else if regex_match host ipv4_regex then
                        Inr \<lparr>a_host = host, a_port = port, a_family = AF_INET\<rparr>
                      else if regex_match host hostname_regex then
                        Inr \<lparr>a_host = host, a_port = port, a_family = AF_UNSPEC\<rparr>
                      else Inl Ex_invalid_argument))"

text \<open>\<open>addr_t(const char *str)\<close>: a null pointer is the default address.\<close>

definition addr_of_cstr :: "string option \<Rightarrow> exn + addr_t" where
  "addr_of_cstr p = (case p of None \<Rightarrow> Inr default_addr | Some s \<Rightarrow> addr_of (c_str s))"

text \<open>\<open>str()\<close>, with \<open>std::to_string\<close> of the port.\<close>

definition addr_str :: "addr_t \<Rightarrow> string" where
  "addr_str a =
     (if a_family a = AF_INET6 then ''['' @ a_host a @ '']:'' @ decimal (unat (a_port a))
      else a_host a @ '':'' @ decimal (unat (a_port a)))"

section \<open>The text of the patterns\<close>

lemma ipv4_pattern:
  "''^'' @ regex_text ipv4_regex @ ''$'' =
   ''^(([0-9]|[1-9][0-9]|1[0-9]{2}|2[0-4][0-9]|25[0-5])'' @ [CHR 0x5C] @ ''.){3}([0-9]|[1-9][0-9]|1[0-9]{2}|2[0-4][0-9]|25[0-5])$''"
  by code_simp

lemma ipv6_pattern:
  "''^'' @ regex_text ipv6_regex @ ''$'' =
   ''^(([0-9a-fA-F]{1,4}:){7,7}[0-9a-fA-F]{1,4}|([0-9a-fA-F]{1,4}:){1,7}:|([0-9a-fA-F]{1,4}:){1,6}:[0-9a-fA-F]{1,4}|([0-9a-fA-F]{1,4}:){1,5}(:[0-9a-fA-F]{1,4}){1,2}|([0-9a-fA-F]{1,4}:){1,4}(:[0-9a-fA-F]{1,4}){1,3}|([0-9a-fA-F]{1,4}:){1,3}(:[0-9a-fA-F]{1,4}){1,4}|([0-9a-fA-F]{1,4}:){1,2}(:[0-9a-fA-F]{1,4}){1,5}|[0-9a-fA-F]{1,4}:((:[0-9a-fA-F]{1,4}){1,6})|:((:[0-9a-fA-F]{1,4}){1,7}|:)|fe80:(:[0-9a-fA-F]{0,4}){0,4}%[0-9a-zA-Z]{1,}|::(ffff(:0{1,4}){0,1}:){0,1}((25[0-5]|(2[0-4]|1{0,1}[0-9]){0,1}[0-9])''
   @ [CHR 0x5C] @ ''.){3,3}(25[0-5]|(2[0-4]|1{0,1}[0-9]){0,1}[0-9])|([0-9a-fA-F]{1,4}:){1,4}:((25[0-5]|(2[0-4]|1{0,1}[0-9]){0,1}[0-9])''
   @ [CHR 0x5C] @ ''.){3,3}(25[0-5]|(2[0-4]|1{0,1}[0-9]){0,1}[0-9]))$''"
  by code_simp

lemma hostname_pattern:
  "''^'' @ regex_text hostname_regex @ ''$'' =
   ''^(([a-zA-Z0-9]|[a-zA-Z0-9][a-zA-Z0-9'' @ [CHR 0x5C] @ ''-]{0,61}[a-zA-Z0-9])'' @ [CHR 0x5C] @
   ''.)*([A-Za-z0-9]|[A-Za-z0-9][A-Za-z0-9'' @ [CHR 0x5C] @ ''-]{0,61}[A-Za-z0-9])$''"
  by code_simp

end
