(* ===== verification/Nplex_Params.thy ===== *)
theory Nplex_Params
  imports Complex_Main Nplex_Addr Nplex_Client_Loop
begin

text \<open>
  The parameters of a client, \<open>src/client.cpp\<close> and \<open>src/params.hpp\<close>: \<open>convert_params\<close>, which checks
  them and splits the list of servers, and \<open>client::create\<close>, which builds a client from the result.
\<close>

section \<open>Parameters\<close>

text \<open>The values of a \<open>float\<close>, as far as a comparison tells them apart.\<close>

datatype cfloat = Finite rat | Infinite bool | NaN     \<comment> \<open>\<open>Infinite True\<close> is the negative one\<close>

fun float_le :: "cfloat \<Rightarrow> rat \<Rightarrow> bool" where
  "float_le (Finite r) q \<longleftrightarrow> r \<le> q"
| "float_le (Infinite neg) q \<longleftrightarrow> neg"
| "float_le NaN q \<longleftrightarrow> False"

record params =
  pr_servers :: string
  pr_user :: string
  pr_password :: string
  pr_max_active_txs :: u32
  pr_max_unack_msgs :: u32
  pr_max_unack_bytes :: u32
  pr_timeout_factor :: cfloat

text \<open>\<open>client_params_t\<close>, with the addresses whole and the factor as it is.\<close>

record checked_params =
  q_user :: string
  q_password :: string
  q_servers :: "addr_t list"
  q_max_active_txs :: u32
  q_max_unack_msgs :: u32
  q_max_unack_bytes :: u32
  q_timeout_factor :: cfloat

section \<open>The list of servers\<close>

text \<open>\<open>while (std::getline(ss, addr, ','))\<close>: a piece per comma, and a last one when bytes remain.\<close>

fun getlines :: "string \<Rightarrow> string \<Rightarrow> string list" where
  "getlines acc [] = (if acc = [] then [] else [acc])"
| "getlines acc (c # s) = (if c = CHR '','' then acc # getlines [] s else getlines (acc @ [c]) s)"

text \<open>\<open>addr.erase(0, addr.find_first_not_of(' '))\<close>, then \<open>addr.erase(addr.find_last_not_of(' ') + 1)\<close>.\<close>

definition trim :: "string \<Rightarrow> string" where
  "trim s = rev (dropWhile (\<lambda>c. c = CHR '' '') (rev (dropWhile (\<lambda>c. c = CHR '' '') s)))"

fun parse_servers :: "string list \<Rightarrow> exn + addr_t list" where
  "parse_servers [] = Inr []"
| "parse_servers (p # ps) =
     (case addr_of (trim p) of
        Inl e \<Rightarrow> Inl e
      | Inr a \<Rightarrow> (case parse_servers ps of Inl e \<Rightarrow> Inl e | Inr as \<Rightarrow> Inr (a # as)))"

definition no_limit :: "u32 \<Rightarrow> u32" where
  "no_limit n = (if n = 0 then 0xFFFFFFFF else n)"

definition convert_params :: "params \<Rightarrow> exn + checked_params" where
  "convert_params p =
     (if pr_user p = [] then Inl Ex_no_user
      else if pr_password p = [] then Inl Ex_no_password
      else if pr_servers p = [] then Inl Ex_no_servers
      else
        (case parse_servers (getlines [] (pr_servers p)) of
           Inl e \<Rightarrow> Inl e
         | Inr as \<Rightarrow>
             if as = [] then Inl Ex_no_servers
             else if float_le (pr_timeout_factor p) 1 then Inl Ex_bad_timeout
             else Inr
               \<lparr>q_user = pr_user p, q_password = pr_password p, q_servers = as,
                q_max_active_txs = no_limit (pr_max_active_txs p),
                q_max_unack_msgs = no_limit (pr_max_unack_msgs p),
                q_max_unack_bytes = no_limit (pr_max_unack_bytes p),
                q_timeout_factor = pr_timeout_factor p\<rparr>))"

section \<open>Creation of a client\<close>

text \<open>
  What the client model keeps of the parameters: the port of each server, and the factor as the
  function \<open>product factor\<close> that multiplies and casts back, which depends on floating point.
\<close>

definition client_params_of :: "(cfloat \<Rightarrow> u32 \<Rightarrow> 64 word) \<Rightarrow> checked_params \<Rightarrow> client_params" where
  "client_params_of product q =
     \<lparr>p_user = q_user q, p_password = q_password q,
      p_servers = map (\<lambda>a. unat (a_port a)) (q_servers q),
      p_max_active_txs = q_max_active_txs q,
      p_connection = \<lparr>max_unack_msgs = q_max_unack_msgs q, max_unack_bytes = q_max_unack_bytes q\<rparr>,
      p_timeout = product (q_timeout_factor q)\<rparr>"

definition client_create ::
    "(cfloat \<Rightarrow> u32 \<Rightarrow> 64 word) \<Rightarrow> bool \<Rightarrow> nat \<Rightarrow> params \<Rightarrow> exn + client" where
  "client_create product uv_ok now p =
     (case convert_params p of
        Inl e \<Rightarrow> Inl e
      | Inr q \<Rightarrow> new_client uv_ok now (client_params_of product q))"

end
