(* ===== verification/Nplex_Addr_Spec.thy ===== *)
theory Nplex_Addr_Spec
  imports Nplex_Addr
begin

text \<open>
  What the patterns of \<open>src/addr.cpp\<close> accept, in words of their own: an IPv4 host is four numbers
  below 256 in decimal, a host name is dotted labels, an IPv6 host without a zone or an IPv4 part is
  eight groups or fewer around one \<open>::\<close>.  From there, which strings are addresses, and that \<open>str()\<close>
  and the constructor are inverse.
\<close>

section \<open>Joined strings\<close>

fun join :: "string \<Rightarrow> string list \<Rightarrow> string" where
  "join sep [] = []"
| "join sep [x] = x"
| "join sep (x # xs) = x @ sep @ join sep xs"

lemma join_before: "xs \<noteq> [] \<Longrightarrow> concat (map (\<lambda>x. x @ sep) xs) = join sep xs @ sep"
  by (induction sep xs rule: join.induct) auto

lemma join_after: "xs \<noteq> [] \<Longrightarrow> concat (map (\<lambda>x. sep @ x) xs) = sep @ join sep xs"
  by (induction sep xs rule: join.induct) auto

lemma join_snoc: "concat (map (\<lambda>x. x @ sep) xs) @ x = join sep (xs @ [x])"
  by (induction sep xs rule: join.induct) auto

lemma join_set: "c \<in> set (join sep xs) \<Longrightarrow> c \<in> set sep \<or> (\<exists>x\<in>set xs. c \<in> set x)"
  by (induction sep xs rule: join.induct) auto

section \<open>Languages of the building blocks\<close>

lemma power_lang_iff:
  "s \<in> power_lang A n \<longleftrightarrow> (\<exists>us. length us = n \<and> (\<forall>u\<in>set us. u \<in> A) \<and> s = concat us)"
proof (induction n arbitrary: s)
  case (Suc n)
  show ?case
  proof
    assume "s \<in> power_lang A (Suc n)"
    then obtain u us where "u \<in> A" "length us = n" "\<forall>u\<in>set us. u \<in> A" "s = u @ concat us"
      by (auto simp: conc_iff Suc)
    then have "length (u # us) = Suc n" "\<forall>v\<in>set (u # us). v \<in> A" "s = concat (u # us)" by auto
    then show "\<exists>us. length us = Suc n \<and> (\<forall>u\<in>set us. u \<in> A) \<and> s = concat us" by blast
  next
    assume "\<exists>us. length us = Suc n \<and> (\<forall>u\<in>set us. u \<in> A) \<and> s = concat us"
    then obtain u us where "u \<in> A" "length us = n" "\<forall>u\<in>set us. u \<in> A" "s = u @ concat us"
      by (auto simp: length_Suc_conv)
    then show "s \<in> power_lang A (Suc n)" by (auto simp: conc_iff Suc)
  qed
qed auto

lemma head_split:
  "(\<exists>u v. s = u @ v \<and> (\<exists>c. u = [c] \<and> P c) \<and> Q v) \<longleftrightarrow> (\<exists>c t. s = c # t \<and> P c \<and> Q t)"
proof
  assume "\<exists>c t. s = c # t \<and> P c \<and> Q t"
  then obtain c t where "s = [c] @ t" "P c" "Q t" by auto
  then show "\<exists>u v. s = u @ v \<and> (\<exists>c. u = [c] \<and> P c) \<and> Q v" by blast
qed auto

lemma power_bracket:
  "s \<in> power_lang {[c] |c. P c} n \<longleftrightarrow> length s = n \<and> list_all P s"
proof (induction n arbitrary: s)
  case (Suc n)
  have "s \<in> power_lang {[c] |c. P c} (Suc n) \<longleftrightarrow>
      (\<exists>u v. s = u @ v \<and> (\<exists>c. u = [c] \<and> P c) \<and> v \<in> power_lang {[c] |c. P c} n)"
    by (simp add: conc_iff)
  also have "\<dots> \<longleftrightarrow> (\<exists>c t. s = c # t \<and> P c \<and> t \<in> power_lang {[c] |c. P c} n)"
    by (rule head_split)
  finally have "s \<in> power_lang {[c] |c. P c} (Suc n) \<longleftrightarrow>
      (\<exists>c t. s = c # t \<and> P c \<and> length t = n \<and> list_all P t)"
    by (simp add: Suc)
  then show ?case by (cases s) auto
qed auto

text \<open>Repeated words of the form \<open>f g\<close>.\<close>

lemma map_witnesses:
  "(\<forall>u\<in>set us. \<exists>g. P g \<and> u = f g) \<longleftrightarrow> (\<exists>gs. (\<forall>g\<in>set gs. P g) \<and> us = map f gs)"
proof
  show "\<exists>gs. (\<forall>g\<in>set gs. P g) \<and> us = map f gs" if "\<forall>u\<in>set us. \<exists>g. P g \<and> u = f g"
    using that
  proof (induction us)
    case (Cons u us)
    then obtain g where g: "P g" "u = f g" by fastforce
    from Cons.prems have "\<forall>u\<in>set us. \<exists>g. P g \<and> u = f g" by simp
    from Cons.IH[OF this] obtain gs where "\<forall>g\<in>set gs. P g" "us = map f gs" by blast
    with g have "(\<forall>g\<in>set (g # gs). P g) \<and> u # us = map f (g # gs)" by simp
    then show ?case by (rule exI)
  qed simp
next
  show "\<forall>u\<in>set us. \<exists>g. P g \<and> u = f g" if "\<exists>gs. (\<forall>g\<in>set gs. P g) \<and> us = map f gs"
    using that by fastforce
qed

lemma power_map:
  "s \<in> power_lang {f g |g. P g} n \<longleftrightarrow>
    (\<exists>gs. length gs = n \<and> (\<forall>g\<in>set gs. P g) \<and> s = concat (map f gs))"
proof -
  have "(\<forall>u\<in>set us. u \<in> {f g |g. P g}) \<longleftrightarrow> (\<exists>gs. (\<forall>g\<in>set gs. P g) \<and> us = map f gs)" for us
    using map_witnesses[of us P f] by auto
  then have "s \<in> power_lang {f g |g. P g} n \<longleftrightarrow>
      (\<exists>us. length us = n \<and> (\<exists>gs. (\<forall>g\<in>set gs. P g) \<and> us = map f gs) \<and> s = concat us)"
    unfolding power_lang_iff by simp
  also have "\<dots> \<longleftrightarrow> (\<exists>gs. length gs = n \<and> (\<forall>g\<in>set gs. P g) \<and> s = concat (map f gs))"
    by force
  finally show ?thesis .
qed

lemma in_bracket_byte [simp]: "in_bracket (Byte c # its) x \<longleftrightarrow> x = c \<or> in_bracket its x"
  and in_bracket_bytes [simp]: "in_bracket (Bytes c d # its) x \<longleftrightarrow> (c \<le> x \<and> x \<le> d) \<or> in_bracket its x"
  and in_bracket_Nil [simp]: "in_bracket [] x \<longleftrightarrow> False"
  by (auto simp: in_bracket_def)

lemma in_lang_bracket: "lang (Bracket its) = {[c] |c. in_bracket its c}"
  by simp

lemma lang_suffixed:
  "lang (Group (Cat r (Lit c))) = {g @ [c] |g. g \<in> lang r}"
  "lang (Group (Cat r (Esc c))) = {g @ [c] |g. g \<in> lang r}"
  by (auto simp: conc_def)

lemma lang_prefixed: "lang (Group (Cat (Lit c) r)) = {[c] @ g |g. g \<in> lang r}"
  by (auto simp: conc_def)

lemma lang_Cat: "s \<in> lang (Cat r q) \<longleftrightarrow> (\<exists>u v. s = u @ v \<and> u \<in> lang r \<and> v \<in> lang q)"
  by (simp add: conc_iff)

lemma in_Cat_head:
  "s \<in> lang (Cat (Bracket its) q) \<longleftrightarrow> (\<exists>c t. s = c # t \<and> in_bracket its c \<and> t \<in> lang q)"
  "s \<in> lang (Cat (Lit c) q) \<longleftrightarrow> (\<exists>t. s = c # t \<and> t \<in> lang q)"
  "s \<in> lang (Cat (Cat r r') q) \<longleftrightarrow> s \<in> lang (Cat r (Cat r' q))"
  using head_split[of s "in_bracket its" "\<lambda>v. v \<in> lang q"]
  by (auto simp: conc_iff conc_assoc)

lemma in_single:
  "s \<in> lang (Bracket its) \<longleftrightarrow> (\<exists>c. s = [c] \<and> in_bracket its c)"
  "s \<in> lang (Lit c) \<longleftrightarrow> s = [c]"
  "s \<in> lang (Group r) \<longleftrightarrow> s \<in> lang r"
  "s \<in> lang (Alt r q) \<longleftrightarrow> s \<in> lang r \<or> s \<in> lang q"
  by auto

lemma in_Exactly_bracket:
  "s \<in> lang (Exactly (Bracket its) n) \<longleftrightarrow> length s = n \<and> list_all (in_bracket its) s"
  using power_bracket[of s "in_bracket its" n] by simp

lemmas in_lang = in_Cat_head in_single in_Exactly_bracket

section \<open>IPv4 hosts\<close>

definition dotted_quad :: "string \<Rightarrow> bool" where
  "dotted_quad s \<longleftrightarrow>
     (\<exists>ns. length ns = 4 \<and> (\<forall>n\<in>set ns. n < 256) \<and> s = join ''.'' (map decimal ns))"

lemma digit_mod [simp]: "digit (n mod 10) = digit n"
  by (simp add: digit_def)

lemma of_char_digit: "d < 10 \<Longrightarrow> of_char (digit d) = 48 + d"
  by (simp add: digit_def)

lemma between_digits:
  assumes "a < 10" "b < 10"
  shows "digit a \<le> c \<and> c \<le> digit b \<longleftrightarrow> (\<exists>d. a \<le> d \<and> d \<le> b \<and> c = digit d)"
proof
  assume "digit a \<le> c \<and> c \<le> digit b"
  with assms have "48 + a \<le> (of_char c :: nat)" "(of_char c :: nat) \<le> 48 + b"
    by (simp_all add: of_char_digit less_eq_char_def)
  moreover from this have "c = digit (of_char c - 48)"
    using assms by (simp add: digit_def)
  ultimately have "a \<le> of_char c - 48" "of_char c - 48 \<le> b" "c = digit (of_char c - 48)"
    by simp_all
  then show "\<exists>d. a \<le> d \<and> d \<le> b \<and> c = digit d" by blast
qed (use assms in \<open>auto simp: of_char_digit less_eq_char_def\<close>)

lemma digit_chars:
  "CHR ''0'' = digit 0" "CHR ''1'' = digit 1" "CHR ''2'' = digit 2" "CHR ''4'' = digit 4"
  "CHR ''5'' = digit 5" "CHR ''9'' = digit 9"
  by (simp_all add: digit_def char_of_def bit_iff_odd)

lemma bracket_digits:
  assumes "a < 10" "b < 10"
  shows "in_bracket [Bytes (digit a) (digit b)] c \<longleftrightarrow> (\<exists>d. a \<le> d \<and> d \<le> b \<and> c = digit d)"
  using between_digits[OF assms, of c] by simp

lemma bracket_0_9: "in_bracket [Bytes (CHR ''0'') (CHR ''9'')] c \<longleftrightarrow> (\<exists>d<10. c = digit d)"
  and bracket_1_9: "in_bracket [Bytes (CHR ''1'') (CHR ''9'')] c \<longleftrightarrow> (\<exists>d\<ge>1. d < 10 \<and> c = digit d)"
  and bracket_0_4: "in_bracket [Bytes (CHR ''0'') (CHR ''4'')] c \<longleftrightarrow> (\<exists>d<5. c = digit d)"
  and bracket_0_5: "in_bracket [Bytes (CHR ''0'') (CHR ''5'')] c \<longleftrightarrow> (\<exists>d<6. c = digit d)"
proof -
  have le: "(d :: nat) \<le> 9 \<longleftrightarrow> d < 10" "d \<le> 4 \<longleftrightarrow> d < 5" "d \<le> 5 \<longleftrightarrow> d < 6" for d by auto
  show "in_bracket [Bytes (CHR ''0'') (CHR ''9'')] c \<longleftrightarrow> (\<exists>d<10. c = digit d)"
    "in_bracket [Bytes (CHR ''1'') (CHR ''9'')] c \<longleftrightarrow> (\<exists>d\<ge>1. d < 10 \<and> c = digit d)"
    "in_bracket [Bytes (CHR ''0'') (CHR ''4'')] c \<longleftrightarrow> (\<exists>d<5. c = digit d)"
    "in_bracket [Bytes (CHR ''0'') (CHR ''5'')] c \<longleftrightarrow> (\<exists>d<6. c = digit d)"
    unfolding digit_chars by (simp_all add: bracket_digits le del: in_bracket_bytes)
qed

lemma in_two_digits:
  "s \<in> lang (Exactly re_digit 2) \<longleftrightarrow> (\<exists>a<10. \<exists>b<10. s = [digit a, digit b])"
proof -
  have "length s = 2 \<and> list_all P s \<longleftrightarrow> (\<exists>x y. s = [x, y] \<and> P x \<and> P y)" for P
    by (auto simp: numeral_2_eq_2 length_Suc_conv)
  note two = this
  show ?thesis unfolding re_digit_def in_Exactly_bracket two bracket_0_9
    by (intro iffI; elim exE conjE; hypsubst; blast)
qed

lemma octet_alternatives:
  "s \<in> lang re_octet \<longleftrightarrow>
      (\<exists>a<10. s = [digit a]) \<or>
      (\<exists>a\<ge>1. a < 10 \<and> (\<exists>b<10. s = [digit a, digit b])) \<or>
      (\<exists>a<10. \<exists>b<10. s = [digit 1, digit a, digit b]) \<or>
      (\<exists>a<5. \<exists>b<10. s = [digit 2, digit a, digit b]) \<or>
      (\<exists>a<6. s = [digit 2, digit 5, digit a])"
proof -
  have two: "s \<in> lang (Cat re_nonzero re_digit) \<longleftrightarrow> (\<exists>a\<ge>1. a < 10 \<and> (\<exists>b<10. s = [digit a, digit b]))"
    unfolding re_nonzero_def re_digit_def in_lang bracket_1_9 bracket_0_9 by blast
  have one: "s \<in> lang (Cat (Lit (CHR ''1'')) (Exactly re_digit 2)) \<longleftrightarrow>
      (\<exists>a<10. \<exists>b<10. s = [digit 1, digit a, digit b])"
    unfolding in_lang in_two_digits digit_chars by blast
  have other: "s \<in> lang (cat [Lit (CHR ''2''), Bracket [Bytes (CHR ''0'') (CHR ''4'')], re_digit]) \<longleftrightarrow>
      (\<exists>a<5. \<exists>b<10. s = [digit 2, digit a, digit b])"
    unfolding cat.simps re_digit_def in_lang bracket_0_4 bracket_0_9 unfolding digit_chars by blast
  have last: "s \<in> lang (Cat (literal ''25'') (Bracket [Bytes (CHR ''0'') (CHR ''5'')])) \<longleftrightarrow>
      (\<exists>a<6. s = [digit 2, digit 5, digit a])"
    unfolding list.map cat.simps in_lang bracket_0_5 unfolding digit_chars by blast
  have first: "s \<in> lang re_digit \<longleftrightarrow> (\<exists>a<10. s = [digit a])"
    unfolding re_digit_def in_lang bracket_0_9 by blast
  show ?thesis
    unfolding re_octet_def alt.simps in_single first two one other last by blast
qed

lemma decimal_digits_of:
  "a < 10 \<Longrightarrow> [digit a] = decimal a"
  "1 \<le> a \<Longrightarrow> a < 10 \<Longrightarrow> b < 10 \<Longrightarrow> [digit a, digit b] = decimal (10 * a + b)"
  "1 \<le> a \<Longrightarrow> a < 10 \<Longrightarrow> b < 10 \<Longrightarrow> c < 10 \<Longrightarrow>
     [digit a, digit b, digit c] = decimal (100 * a + 10 * b + c)"
proof -
  show "a < 10 \<Longrightarrow> [digit a] = decimal a" by (simp add: decimal_small)
  have low: "digit (10 * n + b) = digit b" for n b by (simp add: digit_def)
  show "[digit a, digit b] = decimal (10 * a + b)" if "1 \<le> a" "a < 10" "b < 10"
    using that by (subst decimal_small(2)) (auto simp: low)
  show "[digit a, digit b, digit c] = decimal (100 * a + 10 * b + c)"
    if "1 \<le> a" "a < 10" "b < 10" "c < 10"
  proof -
    have eq: "100 * a + 10 * b + c = 10 * (10 * a + b) + c" by simp
    have "(10 * (10 * a + b) + c) div 10 = 10 * a + b" using that by simp
    moreover have "(10 * (10 * a + b) + c) div 100 = a" using that by (intro div_nat_eqI) simp_all
    ultimately have "decimal (10 * (10 * a + b) + c) = [digit a, digit (10 * a + b), digit (10 * (10 * a + b) + c)]"
      using that by (subst decimal_small(3)) simp_all
    then show ?thesis by (simp only: eq low)
  qed
qed

lemma lang_octet: "lang re_octet = {decimal n |n. n < 256}"
proof (intro set_eqI iffI)
  fix s assume "s \<in> lang re_octet"
  then show "s \<in> {decimal n |n. n < 256}"
    unfolding octet_alternatives
  proof (elim disjE exE conjE)
    fix a assume "s = [digit a]" "a < 10"
    then have "s = decimal a" "a < 256" using decimal_digits_of(1)[of a] by simp_all
    then show ?thesis by (intro CollectI exI conjI)
  next
    fix a b assume "s = [digit a, digit b]" "1 \<le> a" "a < 10" "b < 10"
    then have "s = decimal (10 * a + b)" "10 * a + b < 256"
      using decimal_digits_of(2)[of a b] by simp_all
    then show ?thesis by blast
  next
    fix a b assume "s = [digit 1, digit a, digit b]" "a < 10" "b < 10"
    then have "s = decimal (100 + 10 * a + b)" "100 + 10 * a + b < 256"
      using decimal_digits_of(3)[of 1 a b] by simp_all
    then show ?thesis by blast
  next
    fix a b assume "s = [digit 2, digit a, digit b]" "a < 5" "b < 10"
    then have "s = decimal (200 + 10 * a + b)" "200 + 10 * a + b < 256"
      using decimal_digits_of(3)[of 2 a b] by simp_all
    then show ?thesis by blast
  next
    fix a assume "s = [digit 2, digit 5, digit a]" "a < 6"
    then have "s = decimal (250 + a)" "250 + a < 256"
      using decimal_digits_of(3)[of 2 5 a] by simp_all
    then show ?thesis by blast
  qed
next
  fix s assume "s \<in> {decimal n |n. n < 256}"
  then obtain n where n: "s = decimal n" "n < 256" by blast
  have low: "digit n = digit (n mod 10)" "n mod 10 < 10"
    "digit (n div 10) = digit (n div 10 mod 10)" "n div 10 mod 10 < 10" by simp_all
  consider "n < 10" | "10 \<le> n" "n < 100" | "100 \<le> n" "n < 200" | "200 \<le> n" "n < 250" | "250 \<le> n"
    by linarith
  then show "s \<in> lang re_octet"
  proof cases
    case 1
    then show ?thesis using n decimal_small(1) unfolding octet_alternatives by blast
  next
    case 2
    then have "s = [digit (n div 10), digit (n mod 10)]" "1 \<le> n div 10" "n div 10 < 10"
      using n decimal_small(2) by auto
    with low show ?thesis unfolding octet_alternatives by blast
  next
    case 3
    have "n div 100 = 1" using 3 n by (intro div_nat_eqI) auto
    then have "s = [digit 1, digit (n div 10 mod 10), digit (n mod 10)]"
      using n 3 decimal_small(3)[of n] by auto
    with low show ?thesis unfolding octet_alternatives by blast
  next
    case 4
    have "n div 100 = 2" using 4 n by (intro div_nat_eqI) auto
    moreover have "n div 10 mod 10 < 5"
    proof -
      have "n div 10 < 25" "20 \<le> n div 10" using 4 by auto
      then show ?thesis 
      proof -
        assume "n div 10 < 25" "20 \<le> n div 10"
        then have "n div 10 = 20 \<or> n div 10 = 21 \<or> n div 10 = 22 \<or> n div 10 = 23 \<or> n div 10 = 24"
          by linarith
        then show ?thesis by (elim disjE) simp_all
      qed
    qed
    ultimately have "s = [digit 2, digit (n div 10 mod 10), digit (n mod 10)]" "n div 10 mod 10 < 5"
      using n 4 decimal_small(3)[of n] by auto
    with low show ?thesis unfolding octet_alternatives by blast
  next
    case 5
    have "n div 100 = 2" using 5 n by (intro div_nat_eqI) auto
    moreover have "n div 10 = 25" using 5 n by (intro div_nat_eqI) auto
    moreover have "n mod 10 < 6"
      using n 5 mult_div_mod_eq[of 10 n] \<open>n div 10 = 25\<close> by linarith
    moreover have "digit 25 = digit 5" by (simp add: digit_def)
    ultimately have "s = [digit 2, digit 5, digit (n mod 10)]" "n mod 10 < 6"
      using n 5 decimal_small(3)[of n] by simp_all
    then show ?thesis unfolding octet_alternatives by blast
  qed
qed

text \<open>\<open>n\<close> repetitions of an element and a separator, then an element.\<close>

lemma repeated_then:
  assumes "\<And>s. s \<in> lang q \<longleftrightarrow> s \<in> lang r"
  shows "(\<exists>u v. s = u @ v \<and> u \<in> power_lang {g @ sep |g. g \<in> lang r} n \<and> v \<in> lang q) \<longleftrightarrow>
    (\<exists>gs. length gs = Suc n \<and> (\<forall>g\<in>set gs. g \<in> lang r) \<and> s = join sep gs)" (is "?l \<longleftrightarrow> ?r")
proof
  assume ?l
  then obtain gs v where "length gs = n" "\<forall>g\<in>set gs. g \<in> lang r" "v \<in> lang r"
    "s = concat (map (\<lambda>g. g @ sep) gs) @ v"
    unfolding power_map assms by blast
  then have "length (gs @ [v]) = Suc n" "\<forall>g\<in>set (gs @ [v]). g \<in> lang r" "s = join sep (gs @ [v])"
    by (auto simp: join_snoc)
  then show ?r by blast
next
  assume ?r
  then obtain gs where gs: "length gs = Suc n" "\<forall>g\<in>set gs. g \<in> lang r" "s = join sep gs" by blast
  define hs v where "hs = butlast gs" and "v = last gs"
  have split: "gs = hs @ [v]" using gs(1) by (simp add: hs_def v_def flip: length_0_conv)
  then have "s = concat (map (\<lambda>g. g @ sep) hs) @ v" using gs(3) by (simp add: join_snoc)
  moreover have "concat (map (\<lambda>g. g @ sep) hs) \<in> power_lang {g @ sep |g. g \<in> lang r} n"
    unfolding power_map using gs split by auto
  moreover have "v \<in> lang q" using gs(2) split assms by simp
  ultimately show ?l by blast
qed

lemma ipv4_language: "s \<in> lang ipv4_regex \<longleftrightarrow> dotted_quad s"
proof -
  have "s \<in> lang ipv4_regex \<longleftrightarrow>
      (\<exists>u v. s = u @ v \<and> u \<in> power_lang {g @ ''.'' |g. g \<in> lang re_octet} 3 \<and> v \<in> lang re_octet)"
    unfolding ipv4_regex_def lang_Cat lang.simps(9) lang_suffixed ..
  also have "\<dots> \<longleftrightarrow> (\<exists>gs. length gs = 4 \<and> (\<forall>g\<in>set gs. \<exists>n. n < 256 \<and> g = decimal n) \<and> s = join ''.'' gs)"
    by (subst repeated_then) (simp_all add: lang_octet conj_commute)
  also have "\<dots> \<longleftrightarrow> dotted_quad s"
    unfolding dotted_quad_def map_witnesses by (metis length_map)
  finally show ?thesis .
qed

section \<open>Host names\<close>

definition alnum :: "char \<Rightarrow> bool" where
  "alnum c \<longleftrightarrow> in_bracket alnum_az c"

definition host_label :: "string \<Rightarrow> bool" where
  "host_label l \<longleftrightarrow>
     l \<noteq> [] \<and> length l \<le> 63 \<and> alnum (hd l) \<and> alnum (last l) \<and>
     list_all (\<lambda>c. alnum c \<or> c = CHR ''-'' \<or> c = CHR 0x5C) l"

definition host_name :: "string \<Rightarrow> bool" where
  "host_name s \<longleftrightarrow> (\<exists>ls. ls \<noteq> [] \<and> (\<forall>l\<in>set ls. host_label l) \<and> s = join ''.'' ls)"

lemma alnum_AZ_iff [simp]: "in_bracket alnum_AZ c \<longleftrightarrow> alnum c"
  by (auto simp: alnum_def alnum_AZ_def alnum_az_def)

lemma in_bracket_append: "in_bracket (xs @ ys) c \<longleftrightarrow> in_bracket xs c \<or> in_bracket ys c"
  by (simp add: in_bracket_def)

lemma in_Between_bracket:
  "s \<in> lang (Between (Bracket its) m n) \<longleftrightarrow>
    m \<le> length s \<and> length s \<le> n \<and> list_all (in_bracket its) s"
  by (auto simp: power_bracket)

lemma lang_label:
  assumes "\<And>c. in_bracket its c \<longleftrightarrow> alnum c"
  shows "s \<in> lang (re_label its) \<longleftrightarrow> host_label s"
proof -
  have mid: "in_bracket (its @ [Byte (CHR 0x5C), Byte (CHR ''-'')]) c \<longleftrightarrow>
      alnum c \<or> c = CHR ''-'' \<or> c = CHR 0x5C" for c
    using assms by (auto simp: in_bracket_append)
  have "s \<in> lang (re_label its) \<longleftrightarrow> (\<exists>c. s = [c] \<and> alnum c) \<or>
    (\<exists>a m b. s = a # m @ [b] \<and> alnum a \<and> alnum b \<and> length m \<le> 61 \<and>
       list_all (\<lambda>c. alnum c \<or> c = CHR ''-'' \<or> c = CHR 0x5C) m)"
    unfolding re_label_def cat.simps in_single in_Cat_head assms
    unfolding lang_Cat in_Between_bracket in_single assms mid by blast
  also have "\<dots> \<longleftrightarrow> host_label s"
    unfolding host_label_def
    by (cases s; cases "tl s" rule: rev_cases) auto
  finally show ?thesis .
qed

lemma hostname_language: "s \<in> lang hostname_regex \<longleftrightarrow> host_name s"
proof -
  have same: "s \<in> lang (re_label alnum_AZ) \<longleftrightarrow> s \<in> lang (re_label alnum_az)" for s
    by (simp add: lang_label alnum_def[symmetric] del: re_label_def)
  have "s \<in> lang hostname_regex \<longleftrightarrow>
      (\<exists>n. \<exists>u v. s = u @ v \<and> u \<in> power_lang {g @ ''.'' |g. g \<in> lang (re_label alnum_az)} n \<and>
         v \<in> lang (re_label alnum_AZ))"
    unfolding hostname_regex_def lang_Cat lang.simps(8) lang_suffixed by blast
  also have "\<dots> \<longleftrightarrow> (\<exists>n. \<exists>gs. length gs = Suc n \<and> (\<forall>g\<in>set gs. host_label g) \<and> s = join ''.'' gs)"
    unfolding repeated_then[OF same] by (simp add: lang_label alnum_def[symmetric])
  also have "\<dots> \<longleftrightarrow> host_name s"
    unfolding host_name_def by (metis length_0_conv not0_implies_Suc nat.distinct(1))
  finally show ?thesis .
qed

section \<open>IPv6 hosts\<close>

definition is_hex :: "char \<Rightarrow> bool" where
  "is_hex c \<longleftrightarrow> in_bracket [Bytes (CHR ''0'') (CHR ''9''), Bytes (CHR ''a'') (CHR ''f''),
                          Bytes (CHR ''A'') (CHR ''F'')] c"

definition hex_group :: "string \<Rightarrow> bool" where
  "hex_group g \<longleftrightarrow> 1 \<le> length g \<and> length g \<le> 4 \<and> list_all is_hex g"

definition hex_groups :: "string list \<Rightarrow> bool" where
  "hex_groups gs \<longleftrightarrow> (\<forall>g\<in>set gs. hex_group g)"

text \<open>Eight groups, or at most seven around one \<open>::\<close>.\<close>

definition ipv6_text :: "string \<Rightarrow> bool" where
  "ipv6_text s \<longleftrightarrow>
     (\<exists>gs. length gs = 8 \<and> hex_groups gs \<and> s = join '':'' gs) \<or>
     (\<exists>as bs. hex_groups as \<and> hex_groups bs \<and> length as + length bs \<le> 7 \<and>
        s = join '':'' as @ ''::'' @ join '':'' bs)"

text \<open>What the alternative with a zone accepts: colons and at most four digits each, four times.\<close>

definition ipv6_zoned :: "string \<Rightarrow> bool" where
  "ipv6_zoned s \<longleftrightarrow>
     (\<exists>gs z. length gs \<le> 4 \<and> (\<forall>g\<in>set gs. length g \<le> 4 \<and> list_all is_hex g) \<and>
        z \<noteq> [] \<and> list_all alnum z \<and> s = ''fe80:'' @ concat (map (\<lambda>g. '':'' @ g) gs) @ ''%'' @ z)"

lemma lang_h16: "g \<in> lang re_h16 \<longleftrightarrow> hex_group g"
  unfolding re_h16_def re_hex_def in_Between_bracket hex_group_def is_hex_def[abs_def]
  by (simp del: in_bracket_bytes)

lemma length_between:
  "(\<exists>k\<in>{m..n}. \<exists>gs. length gs = k \<and> P gs) \<longleftrightarrow> (\<exists>gs. m \<le> length gs \<and> length gs \<le> n \<and> P gs)"
  by auto

lemma lang_h16_colons:
  "s \<in> lang (Between re_h16_colon m n) \<longleftrightarrow>
    (\<exists>gs. m \<le> length gs \<and> length gs \<le> n \<and> hex_groups gs \<and> s = concat (map (\<lambda>g. g @ '':'') gs))"
  unfolding re_h16_colon_def lang.simps(10) lang_suffixed power_map UN_iff hex_groups_def lang_h16
  by (rule length_between)

lemma lang_colon_h16s:
  "s \<in> lang (Between re_colon_h16 m n) \<longleftrightarrow>
    (\<exists>gs. m \<le> length gs \<and> length gs \<le> n \<and> hex_groups gs \<and> s = concat (map (\<lambda>g. '':'' @ g) gs))"
  unfolding re_colon_h16_def lang.simps(10) lang_prefixed power_map UN_iff hex_groups_def lang_h16
  by (rule length_between)

text \<open>At least one group, and its colon, written with \<^const>\<open>join\<close>.\<close>

lemma some_colons:
  "s \<in> lang (Between re_h16_colon 1 n) \<longleftrightarrow>
    (\<exists>gs. gs \<noteq> [] \<and> length gs \<le> n \<and> hex_groups gs \<and> s = join '':'' gs @ '':'')"
  unfolding lang_h16_colons by (auto simp: Suc_le_eq join_before simp del: length_greater_0_conv)

lemma colons_some:
  "s \<in> lang (Between re_colon_h16 1 n) \<longleftrightarrow>
    (\<exists>gs. gs \<noteq> [] \<and> length gs \<le> n \<and> hex_groups gs \<and> s = '':'' @ join '':'' gs)"
  unfolding lang_colon_h16s by (auto simp: Suc_le_eq join_after simp del: length_greater_0_conv)

definition around :: "nat set \<Rightarrow> nat set \<Rightarrow> string \<Rightarrow> bool" where
  "around A B s \<longleftrightarrow>
     (\<exists>as bs. hex_groups as \<and> hex_groups bs \<and> length as \<in> A \<and> length bs \<in> B \<and>
        s = join '':'' as @ ''::'' @ join '':'' bs)"

lemma aroundI:
  "hex_groups as \<Longrightarrow> hex_groups bs \<Longrightarrow> length as \<in> A \<Longrightarrow> length bs \<in> B \<Longrightarrow>
    s = join '':'' as @ ''::'' @ join '':'' bs \<Longrightarrow> around A B s"
  unfolding around_def by blast

lemma around_middle:
  "s \<in> lang (Cat (Between re_h16_colon 1 m) (Between re_colon_h16 1 n)) \<longleftrightarrow> around {1..m} {1..n} s"
proof -
  have "s \<in> lang (Cat (Between re_h16_colon 1 m) (Between re_colon_h16 1 n)) \<longleftrightarrow>
    (\<exists>as bs. as \<noteq> [] \<and> length as \<le> m \<and> hex_groups as \<and> bs \<noteq> [] \<and> length bs \<le> n \<and> hex_groups bs \<and>
      s = (join '':'' as @ '':'') @ '':'' @ join '':'' bs)"
    unfolding lang_Cat some_colons colons_some by blast
  then show ?thesis
    unfolding around_def by (simp add: Suc_le_eq) blast
qed

lemma around_left:
  "s \<in> lang (Cat (Between re_h16_colon 1 m) (Lit (CHR '':''))) \<longleftrightarrow> around {1..m} {0} s"
proof -
  have "s \<in> lang (Cat (Between re_h16_colon 1 m) (Lit (CHR '':''))) \<longleftrightarrow>
    (\<exists>as. as \<noteq> [] \<and> length as \<le> m \<and> hex_groups as \<and> s = (join '':'' as @ '':'') @ '':'')"
    unfolding lang_Cat some_colons in_single by blast
  then show ?thesis unfolding around_def by (auto simp: Suc_le_eq hex_groups_def)
qed

lemma hex_groups_single: "hex_groups [g] \<longleftrightarrow> hex_group g"
  by (simp add: hex_groups_def)

lemma length_1_iff: "length xs \<in> {1} \<longleftrightarrow> (\<exists>x. xs = [x])"
  by (auto simp: length_Suc_conv)

lemma around_one_right:
  "s \<in> lang (Cat (Between re_h16_colon 1 m) (Cat (Lit (CHR '':'')) re_h16)) \<longleftrightarrow> around {1..m} {1} s"
proof -
  have "s \<in> lang (Cat (Between re_h16_colon 1 m) (Cat (Lit (CHR '':'')) re_h16)) \<longleftrightarrow>
    (\<exists>as g. as \<noteq> [] \<and> length as \<le> m \<and> hex_groups as \<and> hex_group g \<and>
      s = (join '':'' as @ '':'') @ '':'' @ g)"
    unfolding lang_Cat some_colons in_single lang_h16 by blast
  also have "\<dots> \<longleftrightarrow> (\<exists>as g. as \<noteq> [] \<and> length as \<le> m \<and> hex_groups as \<and> hex_groups [g] \<and>
      s = join '':'' as @ ''::'' @ join '':'' [g])"
    by (simp add: hex_groups_single)
  finally show ?thesis
    unfolding around_def length_1_iff by (simp add: Suc_le_eq del: join.simps) blast
qed

lemma around_one_left:
  "s \<in> lang (cat [re_h16, Lit (CHR '':''), Group (Between re_colon_h16 1 n)]) \<longleftrightarrow> around {1} {1..n} s"
proof -
  have "s \<in> lang (cat [re_h16, Lit (CHR '':''), Group (Between re_colon_h16 1 n)]) \<longleftrightarrow>
    (\<exists>g bs. hex_group g \<and> bs \<noteq> [] \<and> length bs \<le> n \<and> hex_groups bs \<and>
      s = g @ '':'' @ '':'' @ join '':'' bs)"
    unfolding cat.simps lang_Cat in_single lang_h16 colons_some by blast
  also have "\<dots> \<longleftrightarrow> (\<exists>g bs. hex_groups [g] \<and> bs \<noteq> [] \<and> length bs \<le> n \<and> hex_groups bs \<and>
      s = join '':'' [g] @ ''::'' @ join '':'' bs)"
    by (simp add: hex_groups_single)
  finally show ?thesis
    unfolding around_def length_1_iff by (simp add: Suc_le_eq del: join.simps) blast
qed

lemma around_right:
  "s \<in> lang (Cat (Lit (CHR '':'')) (Group (Alt (Between re_colon_h16 1 n) (Lit (CHR '':''))))) \<longleftrightarrow>
    around {0} {0..n} s"
proof -
  have "s \<in> lang (Cat (Lit (CHR '':'')) (Group (Alt (Between re_colon_h16 1 n) (Lit (CHR '':''))))) \<longleftrightarrow>
    (\<exists>bs. length bs \<le> n \<and> hex_groups bs \<and> bs \<noteq> [] \<and> s = '':'' @ '':'' @ join '':'' bs) \<or> s = ''::''"
    unfolding lang_Cat in_single colons_some by auto
  also have "\<dots> \<longleftrightarrow> (\<exists>bs. length bs \<le> n \<and> hex_groups bs \<and> s = '':'' @ '':'' @ join '':'' bs)"
    by (auto simp: hex_groups_def intro: exI[of _ "[]"])
  also have "\<dots> \<longleftrightarrow> (\<exists>as bs. as = [] \<and> hex_groups as \<and> hex_groups bs \<and> length bs \<le> n \<and>
      s = join '':'' as @ ''::'' @ join '':'' bs)"
    by (auto simp: hex_groups_def)
  finally show ?thesis unfolding around_def by (simp del: join.simps) blast
qed

lemma re_seven_one: "s \<in> lang (Cat (Between re_h16_colon 7 7) re_h16) \<longleftrightarrow>
    (\<exists>gs. length gs = 8 \<and> hex_groups gs \<and> s = join '':'' gs)"
proof -
  have "s \<in> lang (Cat (Between re_h16_colon 7 7) re_h16) \<longleftrightarrow>
      (\<exists>u v. s = u @ v \<and> u \<in> power_lang {g @ '':'' |g. g \<in> lang re_h16} 7 \<and> v \<in> lang re_h16)"
    unfolding lang_Cat re_h16_colon_def lang.simps(10) lang_suffixed by simp
  also have "\<dots> \<longleftrightarrow> (\<exists>gs. length gs = 8 \<and> hex_groups gs \<and> s = join '':'' gs)"
    by (subst repeated_then) (simp_all add: lang_h16 hex_groups_def)
  finally show ?thesis .
qed

text \<open>The nine plain alternatives together.\<close>

lemma in_alt: "rs \<noteq> [] \<Longrightarrow> s \<in> lang (alt rs) \<longleftrightarrow> (\<exists>r\<in>set rs. s \<in> lang r)"
  by (induction rs rule: alt.induct) auto

lemma around_Un:
  "around A B s \<or> around C D s \<longleftrightarrow>
    (\<exists>as bs. hex_groups as \<and> hex_groups bs \<and>
       (length as \<in> A \<and> length bs \<in> B \<or> length as \<in> C \<and> length bs \<in> D) \<and>
       s = join '':'' as @ ''::'' @ join '':'' bs)"
  unfolding around_def by blast

lemma around_at_most:
  "around A B s \<Longrightarrow> (\<And>a b. a \<in> A \<Longrightarrow> b \<in> B \<Longrightarrow> a + b \<le> n) \<Longrightarrow>
    \<exists>as bs. hex_groups as \<and> hex_groups bs \<and> length as + length bs \<le> n \<and>
       s = join '':'' as @ ''::'' @ join '':'' bs"
  unfolding around_def by blast

lemma around_cases:
  "around {1..7} {0} s \<or> around {1..6} {1} s \<or> around {1..5} {1..2} s \<or> around {1..4} {1..3} s \<or>
    around {1..3} {1..4} s \<or> around {1..2} {1..5} s \<or> around {1} {1..6} s \<or> around {0} {0..7} s \<longleftrightarrow>
    (\<exists>as bs. hex_groups as \<and> hex_groups bs \<and> length as + length bs \<le> 7 \<and>
       s = join '':'' as @ ''::'' @ join '':'' bs)" (is "?l \<longleftrightarrow> ?r")
proof
  assume ?l
  then show ?r by (elim disjE) (erule around_at_most, simp)+
next
  assume ?r
  then obtain as bs where ab: "hex_groups as" "hex_groups bs" "s = join '':'' as @ ''::'' @ join '':'' bs"
    and le: "length as + length bs \<le> 7" by blast
  have *: "length as \<in> A \<Longrightarrow> length bs \<in> B \<Longrightarrow> around A B s" for A B
    using aroundI[OF ab(1,2) _ _ ab(3)] .
  consider "length as = 0" | "length bs = 0" "1 \<le> length as" | "1 \<le> length as" "1 \<le> length bs" by linarith
  then show ?l
  proof cases
    case 1
    with le have "around {0} {0..7} s" by (intro *) auto
    then show ?thesis by blast
  next
    case 2
    with le have "around {1..7} {0} s" by (intro *) auto
    then show ?thesis by blast
  next
    case 3
    with le have "length bs \<in> {1, 2, 3, 4, 5, 6}" by auto
    then consider "length bs = 1" | "length bs = 2" | "length bs = 3" | "length bs = 4" | "length bs = 5"
      | "length bs = 6" by blast
    then show ?thesis
    proof cases
      case 1 with 3 le have "around {1..6} {1} s" by (intro *) auto
      then show ?thesis by blast
    next
      case 2 with 3 le have "around {1..5} {1..2} s" by (intro *) auto
      then show ?thesis by blast
    next
      case 3 with \<open>1 \<le> length as\<close> le have "around {1..4} {1..3} s" by (intro *) auto
      then show ?thesis by blast
    next
      case 4 with 3 le have "around {1..3} {1..4} s" by (intro *) auto
      then show ?thesis by blast
    next
      case 5 with 3 le have "around {1..2} {1..5} s" by (intro *) auto
      then show ?thesis by blast
    next
      case 6 with 3 le have "around {1} {1..6} s" by (intro *) auto
      then show ?thesis by blast
    qed
  qed
qed

lemma ipv6_plain_language: "s \<in> lang (alt re_ipv6_plain) \<longleftrightarrow> ipv6_text s"
proof -
  have "s \<in> lang (alt re_ipv6_plain) \<longleftrightarrow>
    (\<exists>gs. length gs = 8 \<and> hex_groups gs \<and> s = join '':'' gs) \<or>
    (around {1..7} {0} s \<or> around {1..6} {1} s \<or> around {1..5} {1..2} s \<or> around {1..4} {1..3} s \<or>
    around {1..3} {1..4} s \<or> around {1..2} {1..5} s \<or> around {1} {1..6} s \<or> around {0} {0..7} s)"
    unfolding re_ipv6_plain_def alt.simps lang.simps(7) Un_iff re_seven_one around_middle around_left
      around_one_right around_one_left around_right ..
  then show ?thesis unfolding around_cases ipv6_text_def .
qed

lemma in_At_least_bracket:
  "s \<in> lang (At_least (Bracket its) 1) \<longleftrightarrow> s \<noteq> [] \<and> list_all (in_bracket its) s"
  by (auto simp: power_bracket Suc_le_eq)

lemma ipv6_zone_language: "s \<in> lang re_ipv6_zone \<longleftrightarrow> ipv6_zoned s"
proof -
  define colon_hex where "colon_hex = Group (Cat (Lit (CHR '':'')) (Between re_hex 0 4))"
  define short where "short g \<longleftrightarrow> length g \<le> 4 \<and> list_all is_hex g" for g
  have hex: "g \<in> lang (Between re_hex 0 4) \<longleftrightarrow> short g" for g
    unfolding re_hex_def in_Between_bracket short_def is_hex_def[abs_def] by (simp del: in_bracket_bytes)
  have groups: "u \<in> lang (Between colon_hex 0 4) \<longleftrightarrow>
      (\<exists>gs. length gs \<le> 4 \<and> (\<forall>g\<in>set gs. short g) \<and> u = concat (map (\<lambda>g. '':'' @ g) gs))" for u
    unfolding colon_hex_def lang.simps(10)[of "Group _"] lang_prefixed power_map UN_iff hex
    using length_between[of 0 4] by simp
  have "in_bracket [Bytes (CHR ''0'') (CHR ''9''), Bytes (CHR ''a'') (CHR ''z''),
      Bytes (CHR ''A'') (CHR ''Z'')] c \<longleftrightarrow> alnum c" for c
    by (auto simp: alnum_def alnum_az_def)
  then have zone: "in_bracket [Bytes (CHR ''0'') (CHR ''9''), Bytes (CHR ''a'') (CHR ''z''),
      Bytes (CHR ''A'') (CHR ''Z'')] = alnum" by blast
  define tail where "tail = Cat (Lit (CHR ''%''))
    (At_least (Bracket [Bytes (CHR ''0'') (CHR ''9''), Bytes (CHR ''a'') (CHR ''z''), Bytes (CHR ''A'') (CHR ''Z'')]) 1)"
  have tail: "v \<in> lang tail \<longleftrightarrow> (\<exists>z. v = ''%'' @ z \<and> z \<noteq> [] \<and> list_all alnum z)" for v
    unfolding tail_def in_Cat_head in_At_least_bracket zone by simp
  have "s \<in> lang re_ipv6_zone \<longleftrightarrow> (\<exists>w. s = ''fe80:'' @ w \<and> w \<in> lang (Cat (Between colon_hex 0 4) tail))"
    unfolding re_ipv6_zone_def colon_hex_def[symmetric] list.map cat.simps in_Cat_head tail_def[symmetric]
    by (simp del: lang.simps) blast
  also have "\<dots> \<longleftrightarrow> (\<exists>u z. s = ''fe80:'' @ u @ ''%'' @ z \<and> u \<in> lang (Between colon_hex 0 4) \<and> z \<noteq> [] \<and> list_all alnum z)"
    unfolding lang_Cat tail by blast
  also have "\<dots> \<longleftrightarrow> ipv6_zoned s"
    unfolding groups ipv6_zoned_def short_def by blast
  finally show ?thesis .
qed

text \<open>The alternatives with an IPv4 part need a dot.\<close>

lemma mixed_has_dot:
  assumes "s \<in> lang (alt re_ipv6_mixed)"
  shows "CHR ''.'' \<in> set s"
proof -
  have quad: "CHR ''.'' \<in> set v" if "v \<in> lang re_ipv4_in6" for v
  proof -
    from that obtain u w where v: "v = u @ w"
      "u \<in> power_lang {g @ ''.'' |g. g \<in> lang re_octet6} 3"
      unfolding re_ipv4_in6_def lang_Cat lang.simps(10)[of "Group _"] lang_suffixed by auto
    from v(2) obtain gs where "length gs = 3" "u = concat (map (\<lambda>g. g @ ''.'') gs)"
      unfolding power_map by blast
    with v(1) show ?thesis by (auto simp: numeral_3_eq_3 length_Suc_conv)
  qed
  show ?thesis
    using assms unfolding re_ipv6_mixed_def alt.simps lang.simps(7) Un_iff cat.simps lang_Cat
    by (auto dest: quad)
qed

lemma alt_append: "rs \<noteq> [] \<Longrightarrow> qs \<noteq> [] \<Longrightarrow> lang (alt (rs @ qs)) = lang (alt rs) \<union> lang (alt qs)"
  by (auto simp: in_alt)

theorem ipv6_language:
  assumes "CHR ''.'' \<notin> set s"
  shows "s \<in> lang ipv6_regex \<longleftrightarrow> ipv6_text s \<or> ipv6_zoned s"
proof -
  have "re_ipv6_plain \<noteq> []" "re_ipv6_mixed \<noteq> []"
    by (simp_all add: re_ipv6_plain_def re_ipv6_mixed_def)
  then have "s \<in> lang ipv6_regex \<longleftrightarrow>
    s \<in> lang (alt re_ipv6_plain) \<or> s \<in> lang re_ipv6_zone \<or> s \<in> lang (alt re_ipv6_mixed)"
    unfolding ipv6_regex_def in_single by (auto simp: in_alt)
  with assms mixed_has_dot show ?thesis
    unfolding ipv6_plain_language ipv6_zone_language by blast
qed

section \<open>Addresses\<close>

lemma find_last_of_found: "c \<notin> set t \<Longrightarrow> find_last_of c (h @ c # t) = Some (length h)"
proof -
  assume t: "c \<notin> set t"
  have none: "c \<notin> set u \<Longrightarrow> find_last_of c u = None" for u by (induction u) auto
  show ?thesis by (induction h) (use none[OF t] in auto)
qed

lemma find_last_of_None: "find_last_of c s = None \<longleftrightarrow> c \<notin> set s"
  by (induction s) (auto split: option.splits)

lemma find_last_of_Some:
  assumes "find_last_of c s = Some n"
  obtains h t where "s = h @ c # t" "c \<notin> set t" "n = length h"
proof -
  from assms have "c \<in> set s" using find_last_of_None[of c s] by auto
  then obtain h t where "s = h @ c # t" "c \<notin> set t" using split_list_last[of c s] by blast
  with assms find_last_of_found[of c t h] that show ?thesis by simp
qed

lemma takeWhile_digits: "list_all P ds \<Longrightarrow> takeWhile P ds = ds"
  and dropWhile_digits: "list_all P ds \<Longrightarrow> dropWhile P ds = []"
  by (induction ds) auto

lemma from_chars_digits:
  assumes "list_all is_digit ds" "length ds \<le> 5"
  shows "from_chars ds = (if ds = [] then None else Some (int (digits_value ds), []))"
proof (cases ds)
  case (Cons d ds')
  have "is_digit d" using assms(1) Cons by simp
  then have "d \<noteq> CHR ''-''" by (auto simp: is_digit_def less_eq_char_def)
  moreover have "digits_value ds < 10 ^ 5"
    using digits_value_bound[OF assms(1)] power_increasing[OF assms(2), of "10 :: nat"] by simp
  ultimately show ?thesis
    using assms(1) Cons by (simp add: from_chars_def Let_def takeWhile_digits dropWhile_digits)
qed (simp add: from_chars_def)

text \<open>The bytes of a host without brackets.\<close>

definition host_char :: "char \<Rightarrow> bool" where
  "host_char c \<longleftrightarrow> alnum c \<or> c \<in> {CHR ''-'', CHR 0x5C, CHR ''.''}"

lemma join_all: "list_all P sep \<Longrightarrow> list_all P (concat ls) \<Longrightarrow> list_all P (join sep ls)"
  by (induction sep ls rule: join.induct) auto

lemma join_chars: "list_all host_char (concat ls) \<Longrightarrow> list_all host_char (join ''.'' ls)"
  by (rule join_all) (simp_all add: host_char_def)

lemma host_name_chars: "host_name s \<Longrightarrow> list_all host_char s"
proof -
  assume "host_name s"
  then obtain ls where ls: "\<forall>l\<in>set ls. host_label l" "s = join ''.'' ls"
    unfolding host_name_def by blast
  have "list_all host_char l" if "host_label l" for l
    using that unfolding host_label_def list_all_iff host_char_def by blast
  with ls(1) have "\<forall>l\<in>set ls. list_all host_char l" by blast
  then have "list_all host_char (concat ls)" by (simp add: list_all_iff)
  with ls(2) show ?thesis by (simp add: join_chars)
qed

lemma digit_alnum: "is_digit c \<Longrightarrow> alnum c"
  by (simp add: is_digit_def alnum_def alnum_az_def)

lemma dotted_quad_chars: "dotted_quad s \<Longrightarrow> list_all host_char s"
proof -
  assume "dotted_quad s"
  then obtain ns where "s = join ''.'' (map decimal ns)" unfolding dotted_quad_def by blast
  moreover have "list_all host_char (decimal n)" for n
    using decimal_digits[of n] by (simp add: list_all_iff host_char_def digit_alnum)
  then have "list_all host_char (concat (map decimal ns))" by (simp add: list_all_iff)
  ultimately show ?thesis by (simp add: join_chars)
qed

lemma not_host_char [simp]: "\<not> host_char (CHR ''['')" "\<not> host_char (CHR '':'')"
  by (simp_all add: host_char_def alnum_def alnum_az_def less_eq_char_def)

text \<open>What the class promises of an address: its port, and a host of its family.\<close>

fun host_ok :: "addr_family \<Rightarrow> string \<Rightarrow> bool" where
  "host_ok AF_INET h \<longleftrightarrow> dotted_quad h"
| "host_ok AF_INET6 h \<longleftrightarrow> h \<in> lang ipv6_regex"
| "host_ok AF_UNSPEC h \<longleftrightarrow> host_name h \<and> \<not> dotted_quad h"

definition addr_wf :: "addr_t \<Rightarrow> bool" where
  "addr_wf a \<longleftrightarrow> a_port a \<noteq> 0 \<and> host_ok (a_family a) (a_host a)"

definition host_text :: "addr_t \<Rightarrow> string" where
  "host_text a = (if a_family a = AF_INET6 then ''['' @ a_host a @ '']'' else a_host a)"

lemma addr_str_alt: "addr_str a = host_text a @ '':'' @ decimal (unat (a_port a))"
  by (simp add: addr_str_def host_text_def)

text \<open>The choice of a family from the host.\<close>

definition family_of :: "string \<Rightarrow> (string \<times> addr_family) option" where
  "family_of host =
     (if host \<noteq> [] \<and> hd host = CHR ''['' \<and> last host = CHR '']'' then
        let inner = take (length host - 2) (drop 1 host)
        in if regex_match inner ipv6_regex then Some (inner, AF_INET6) else None
      else if regex_match host ipv4_regex then Some (host, AF_INET)
      else if regex_match host hostname_regex then Some (host, AF_UNSPEC)
      else None)"

lemma inner_text:
  assumes "host \<noteq> []" "hd host = CHR ''[''" "last host = CHR '']''"
  shows "host = ''['' @ take (length host - 2) (drop 1 host) @ '']''"
proof -
  obtain t where t: "host = CHR ''['' # t" using assms(1,2) by (cases host) auto
  with assms(3) have "t \<noteq> []" by auto
  then obtain m where "t = m @ [last t]" by (metis append_butlast_last_id)
  moreover have "last t = CHR '']''" using t assms(3) \<open>t \<noteq> []\<close> by simp
  ultimately have "host = CHR ''['' # m @ '']''" using t by metis
  then show ?thesis by simp
qed

lemma family_of_iff:
  "family_of host = Some (h, f) \<longleftrightarrow>
    host_ok f h \<and> host = (if f = AF_INET6 then ''['' @ h @ '']'' else h)"
proof (cases "host \<noteq> [] \<and> hd host = CHR ''['' \<and> last host = CHR '']''")
  case True
  define inner where "inner = take (length host - 2) (drop 1 host)"
  have host: "host = ''['' @ inner @ '']''" using inner_text True unfolding inner_def by blast
  have no: "\<not> host_ok f host" if "f \<noteq> AF_INET6" for f
    using that host dotted_quad_chars[of host] host_name_chars[of host] by (cases f) auto
  have "family_of host = (if inner \<in> lang ipv6_regex then Some (inner, AF_INET6) else None)"
    using True unfolding family_of_def inner_def[symmetric] regex_match_iff by (simp add: Let_def)
  then show ?thesis using host no[of AF_INET] no[of AF_UNSPEC] by (cases f) auto
next
  case False
  have "family_of host =
    (if dotted_quad host then Some (host, AF_INET)
     else if host_name host then Some (host, AF_UNSPEC) else None)"
    using False unfolding family_of_def regex_match_iff ipv4_language hostname_language by auto
  with False show ?thesis by (cases f) auto
qed

text \<open>The constructor, with its checks in this order, in one line.\<close>

lemma addr_of_alt:
  assumes "CHR '':'' \<notin> set ds"
  shows "addr_of (host @ CHR '':'' # ds) =
    (if length ds \<le> 5 \<and> list_all is_digit ds \<and> ds \<noteq> [] \<and> 0 < digits_value ds \<and> digits_value ds \<le> 65535
     then (case family_of host of
             None \<Rightarrow> Inl Ex_invalid_argument
           | Some (h, f) \<Rightarrow> Inr \<lparr>a_host = h, a_port = word_of_nat (digits_value ds), a_family = f\<rparr>)
     else Inl Ex_invalid_argument)"
proof (cases "length ds \<le> 5 \<and> list_all is_digit ds")
  case True
  then show ?thesis
    unfolding addr_of_def find_last_of_found[OF assms]
    by (simp add: from_chars_digits family_of_def Let_def) 
next
  case False
  then show ?thesis
    unfolding addr_of_def find_last_of_found[OF assms] by auto
qed

lemma no_colon_digits: "list_all is_digit ds \<Longrightarrow> CHR '':'' \<notin> set ds"
  by (auto simp: list_all_iff is_digit_def less_eq_char_def)

lemma port_bound: "unat (p :: 16 word) < 65536"
  using unsigned_less[of p, where ?'a = nat] by simp

lemma addr_of_iff:
  "addr_of s = Inr a \<longleftrightarrow>
     (\<exists>ds. ds \<noteq> [] \<and> length ds \<le> 5 \<and> list_all is_digit ds \<and> digits_value ds = unat (a_port a) \<and>
        addr_wf a \<and> s = host_text a @ '':'' @ ds)" (is "?l \<longleftrightarrow> ?r")
proof
  assume l: ?l
  then obtain host ds where s: "s = host @ CHR '':'' # ds" "CHR '':'' \<notin> set ds"
    by (auto simp: addr_of_def split: option.splits elim!: find_last_of_Some)
  have ok: "length ds \<le> 5" "list_all is_digit ds" "ds \<noteq> []" "0 < digits_value ds" "digits_value ds \<le> 65535"
    using l addr_of_alt[OF s(2), of host] unfolding s(1) by (auto split: if_splits)
  obtain h f where hf: "family_of host = Some (h, f)"
    "a = \<lparr>a_host = h, a_port = word_of_nat (digits_value ds), a_family = f\<rparr>"
    using l addr_of_alt[OF s(2), of host] ok unfolding s(1) by (auto split: option.splits)
  have "unat (a_port a) = digits_value ds" using hf(2) ok(5) by (simp add: unat_of_nat take_bit_eq_mod)
  moreover have "addr_wf a" "host = host_text a"
    using hf ok(4,5) calculation unfolding family_of_iff addr_wf_def host_text_def
    by (auto simp: unat_eq_0[symmetric] split: if_splits)
  ultimately show ?r using ok s(1) by auto
next
  assume ?r
  then obtain ds where ds: "ds \<noteq> []" "length ds \<le> 5" "list_all is_digit ds"
    "digits_value ds = unat (a_port a)" "addr_wf a" "s = host_text a @ CHR '':'' # ds" by auto
  have port: "0 < digits_value ds" "digits_value ds \<le> 65535"
    using ds(4,5) port_bound[of "a_port a"] by (auto simp: addr_wf_def unat_gt_0)
  have fam: "family_of (host_text a) = Some (a_host a, a_family a)"
    using ds(5) unfolding family_of_iff addr_wf_def host_text_def by simp
  have "word_of_nat (digits_value ds) = a_port a" using ds(4) by simp
  then show ?l
    unfolding ds(6) addr_of_alt[OF no_colon_digits[OF ds(3)]] using ds fam port by simp
qed

lemma addr_of_str: "addr_wf a \<Longrightarrow> addr_of (addr_str a) = Inr a"
  unfolding addr_of_iff addr_str_alt
  using port_bound[of "a_port a"]
  by (intro exI[of _ "decimal (unat (a_port a))"]) (auto intro!: decimal_length[of _ 5])

section \<open>Properties\<close>

text \<open>
  C27: A string is accepted as an address exactly when it is a host of one of the three kinds, a colon
  and one to five digits of a number that is not 0 and fits the port; the result is well formed (a
  port that is not 0, a host of its family).  The well-formed addresses are those that their own text
  \<open>str()\<close> parses to.
\<close>

theorem addresses_well_formed:
  "(addr_of s = Inr a \<longleftrightarrow>
      (\<exists>ds. ds \<noteq> [] \<and> length ds \<le> 5 \<and> list_all is_digit ds \<and> digits_value ds = unat (a_port a) \<and>
         addr_wf a \<and> s = host_text a @ '':'' @ ds)) \<and>
   (addr_wf a \<longleftrightarrow> addr_of (addr_str a) = Inr a)"
  using addr_of_iff[of s a] addr_of_iff[of "addr_str a" a] addr_of_str[of a] by blast



text \<open>A backslash inside a host name is accepted: in the extended grammar \<open>\-\<close> in brackets is two bytes.\<close>

lemma backslash_in_host:
  "addr_of (''a'' @ [CHR 0x5C] @ ''b:80'') =
     Inr \<lparr>a_host = ''a'' @ [CHR 0x5C] @ ''b'', a_port = 80, a_family = AF_UNSPEC\<rparr>"
  by code_simp

lemma address_ipv4: "addr_of ''127.0.0.1:1234'' = Inr \<lparr>a_host = ''127.0.0.1'', a_port = 1234, a_family = AF_INET\<rparr>"
  by code_simp

lemma address_ipv6: "addr_of ''[::1]:25888'' = Inr \<lparr>a_host = ''::1'', a_port = 25888, a_family = AF_INET6\<rparr>"
  by code_simp

lemma address_port_0: "addr_of ''localhost:0'' = Inl Ex_invalid_argument"
  by code_simp

end
