(* ===== verification/Nplex_Params_Spec.thy ===== *)
theory Nplex_Params_Spec
  imports Nplex_Params Nplex_Addr_Spec
begin

text \<open>
  What \<open>client::create\<close> promises: a list of servers written from well-formed addresses, with blanks
  after the commas, gives back those addresses, and the client it creates has one closed connection
  for each; and the checks of the parameters are the only ones that can refuse.
\<close>

section \<open>No comma and no blank inside an address\<close>

text \<open>The bytes an expression can match.\<close>

primrec occurs :: "char \<Rightarrow> regex \<Rightarrow> bool" where
  "occurs x Eps = False"
| "occurs x (Lit c) = (x = c)"
| "occurs x (Esc c) = (x = c)"
| "occurs x (Bracket its) = in_bracket its x"
| "occurs x (Group r) = occurs x r"
| "occurs x (Cat r q) = (occurs x r \<or> occurs x q)"
| "occurs x (Alt r q) = (occurs x r \<or> occurs x q)"
| "occurs x (Star r) = occurs x r"
| "occurs x (Exactly r n) = occurs x r"
| "occurs x (Between r m n) = occurs x r"
| "occurs x (At_least r m) = occurs x r"

lemma power_lang_chars:
  assumes "\<And>s. s \<in> A \<Longrightarrow> x \<notin> set s" "s \<in> power_lang A n"
  shows "x \<notin> set s"
  using assms(2) assms(1) unfolding power_lang_iff by auto

lemma lang_chars: "\<not> occurs x r \<Longrightarrow> s \<in> lang r \<Longrightarrow> x \<notin> set s"
proof (induction r arbitrary: s)
  case (Cat r q)
  then show ?case by (auto simp: conc_iff)
qed (auto dest: power_lang_chars[rotated])

lemma ipv6_no_separator: "\<not> occurs (CHR '','') ipv6_regex" "\<not> occurs (CHR '' '') ipv6_regex"
  by code_simp+

lemma host_char_no_separator [simp]: "\<not> host_char (CHR '','')" "\<not> host_char (CHR '' '')"
  by (simp_all add: host_char_def alnum_def alnum_az_def less_eq_char_def)

lemma decimal_no_separator: "CHR '','' \<notin> set (decimal n)" "CHR '' '' \<notin> set (decimal n)"
  using decimal_digits[of n] by (auto simp: list_all_iff is_digit_def less_eq_char_def)

lemma host_ok_no_separator:
  assumes "host_ok f h" "x \<in> {CHR '','', CHR '' ''}"
  shows "x \<notin> set h"
proof (cases f)
  case AF_INET6
  with assms lang_chars[of x ipv6_regex h] ipv6_no_separator show ?thesis by auto
next
  case AF_INET
  with assms dotted_quad_chars[of h] show ?thesis by (auto simp: list_all_iff)
next
  case AF_UNSPEC
  with assms host_name_chars[of h] show ?thesis by (auto simp: list_all_iff)
qed

lemma addr_str_no_separator:
  assumes "addr_wf a"
  shows "CHR '','' \<notin> set (addr_str a)" "CHR '' '' \<notin> set (addr_str a)"
  using assms host_ok_no_separator[of "a_family a" "a_host a"] decimal_no_separator
  by (auto simp: addr_str_def addr_wf_def)

lemma addr_str_not_Nil: "addr_str a \<noteq> []"
  by (simp add: addr_str_def)

section \<open>Splitting and trimming\<close>

lemma getlines_piece:
  "CHR '','' \<notin> set t \<Longrightarrow> getlines acc (t @ CHR '','' # s) = (acc @ t) # getlines [] s"
  by (induction t arbitrary: acc) auto

lemma getlines_last:
  "CHR '','' \<notin> set t \<Longrightarrow> getlines acc t = (if acc @ t = [] then [] else [acc @ t])"
  by (induction t arbitrary: acc) auto

lemma getlines_join:
  assumes "\<forall>t\<in>set ts. CHR '','' \<notin> set t \<and> t \<noteq> []" "CHR '','' \<notin> set blanks"
  shows "getlines [] (join ('','' @ blanks) ts) =
    (case ts of [] \<Rightarrow> [] | t # us \<Rightarrow> t # map (\<lambda>u. blanks @ u) us)"
proof -
  have after: "u \<noteq> [] \<Longrightarrow> CHR '','' \<notin> set u \<Longrightarrow> getlines [] (u @ concat (map (\<lambda>u. '','' @ blanks @ u) us)) =
      u # map (\<lambda>u. blanks @ u) us" if "\<forall>t\<in>set us. CHR '','' \<notin> set t \<and> t \<noteq> []" for u us
    using that
  proof (induction us arbitrary: u)
    case Nil
    then show ?case by (simp add: getlines_last)
  next
    case (Cons v us)
    then have "getlines [] ((blanks @ v) @ concat (map (\<lambda>u. '','' @ blanks @ u) us)) =
      (blanks @ v) # map (\<lambda>u. blanks @ u) us"
      using assms(2) by (intro Cons.IH) auto
    with Cons.prems show ?case using getlines_piece[of u "[]"] by simp
  qed
  have "join sep (t # us) = t @ concat (map (\<lambda>u. sep @ u) us)" for sep t us
    by (cases "us = []") (auto simp: join_after neq_Nil_conv)
  then show ?thesis using assms(1) after by (cases ts) auto
qed

lemma trim_blanks:
  assumes "CHR '' '' \<notin> set t" "set blanks \<subseteq> {CHR '' ''}"
  shows "trim (blanks @ t) = t"
proof -
  have keep: "dropWhile (\<lambda>c. c = CHR '' '') u = u" if "CHR '' '' \<notin> set u" for u
    using that by (cases u) auto
  have "dropWhile (\<lambda>c. c = CHR '' '') (blanks @ t) = t"
    using assms keep[OF assms(1)] by (induction blanks) auto
  moreover have "dropWhile (\<lambda>c. c = CHR '' '') (rev t) = rev t"
    using assms(1) by (simp add: keep)
  ultimately show ?thesis unfolding trim_def by simp
qed

lemma parse_servers_map:
  assumes "list_all2 (\<lambda>p a. addr_of (trim p) = Inr a) ps as"
  shows "parse_servers ps = Inr as"
  using assms by (induction rule: list_all2_induct) auto

text \<open>A list of addresses, written with \<open>n\<close> blanks after each comma.\<close>

definition server_list :: "nat \<Rightarrow> addr_t list \<Rightarrow> string" where
  "server_list n as = join ('','' @ replicate n (CHR '' '')) (map addr_str as)"

lemma parse_server_list:
  assumes "\<forall>a\<in>set as. addr_wf a"
  shows "parse_servers (getlines [] (server_list n as)) = Inr as"
proof (rule parse_servers_map)
  have lines: "getlines [] (server_list n as) = (case map addr_str as of [] \<Rightarrow> []
      | t # us \<Rightarrow> t # map (\<lambda>u. replicate n (CHR '' '') @ u) us)"
    unfolding server_list_def using assms
    by (intro getlines_join) (auto simp: addr_str_no_separator addr_str_not_Nil)
  have trimmed: "addr_of (trim (replicate k (CHR '' '') @ addr_str a)) = Inr a" if "addr_wf a" for k a
  proof -
    have "set (replicate k (CHR '' '')) \<subseteq> {CHR '' ''}" by auto
    with trim_blanks[of "addr_str a" "replicate k (CHR '' '')"] that show ?thesis
      by (simp add: addr_str_no_separator addr_of_str)
  qed
  show "list_all2 (\<lambda>p a. addr_of (trim p) = Inr a) (getlines [] (server_list n as)) as"
  proof (cases as)
    case Nil
    with lines show ?thesis by simp
  next
    case (Cons a bs)
    have "addr_of (trim (addr_str a)) = Inr a" using trimmed[of a 0] assms Cons by simp
    then show ?thesis
      using assms trimmed[of _ n] lines by (auto simp: Cons list_all2_map1 list_all2_same intro!: trimmed)
  qed
qed

section \<open>Creation\<close>

lemma parse_servers_wf: "parse_servers ps = Inr as \<Longrightarrow> \<forall>a\<in>set as. addr_wf a"
  by (induction ps arbitrary: as) (auto split: sum.splits simp: addr_of_iff)

lemma convert_params_wf:
  "convert_params p = Inr q \<Longrightarrow> q_servers q \<noteq> [] \<and> (\<forall>a\<in>set (q_servers q). addr_wf a)"
  using parse_servers_wf by (auto simp: convert_params_def split: sum.splits if_splits)

lemma create_connections_ok:
  assumes "\<forall>p\<in>set ports. p \<noteq> 0"
  shows "create_connections ports cp = Inr (map (\<lambda>p. projr (connection_create p cp)) ports)"
  using assms by (induction ports) (auto simp: connection_create_def)

lemma connections_closed:
  assumes "\<forall>p\<in>set ports. p \<noteq> 0"
  shows "map c_state (map (\<lambda>p. projr (connection_create p cp)) ports) = replicate (length ports) C_CLOSED"
  using assms by (induction ports) (auto simp: connection_create_def)

lemma new_client_of_params:
  assumes "convert_params p = Inr q"
  shows "\<exists>c. new_client True now (client_params_of product q) = Inr c"
proof -
  have "\<forall>n\<in>set (p_servers (client_params_of product q)). n \<noteq> 0"
    using convert_params_wf[OF assms]
    by (auto simp: client_params_of_def addr_wf_def unat_gt_0)
  from create_connections_ok[OF this] show ?thesis
    using convert_params_wf[OF assms]
    by (simp add: new_client_def Let_def client_params_of_def)
qed

lemma parse_servers_total:
  "(\<exists>as. parse_servers ps = Inr as) \<longleftrightarrow> (\<forall>p\<in>set ps. \<exists>a. addr_of (trim p) = Inr a)"
  by (induction ps) (auto split: sum.splits)

lemma getlines_not_Nil: "acc @ s \<noteq> [] \<Longrightarrow> getlines acc s \<noteq> []"
  by (induction s arbitrary: acc) auto

lemma parse_servers_not_Nil: "parse_servers ps = Inr as \<Longrightarrow> ps \<noteq> [] \<Longrightarrow> as \<noteq> []"
  by (cases ps) (auto split: sum.splits)

text \<open>
  C25: A client is created exactly when there are a user, a password and a list of servers, every piece
  of the list is an address once its blanks are removed, and the timeout factor is not at most 1: no
  later step refuses such parameters, neither the constructor of the client nor that of a connection.
\<close>

theorem creation_exact:
  "(\<exists>c. client_create product True now p = Inr c) \<longleftrightarrow>
     pr_user p \<noteq> [] \<and> pr_password p \<noteq> [] \<and> pr_servers p \<noteq> [] \<and>
     (\<forall>s\<in>set (getlines [] (pr_servers p)). \<exists>a. addr_of (trim s) = Inr a) \<and>
     \<not> float_le (pr_timeout_factor p) 1"
proof -
  have "(\<exists>c. client_create product True now p = Inr c) \<longleftrightarrow> (\<exists>q. convert_params p = Inr q)"
    using new_client_of_params[of p _ now product]
    by (auto simp: client_create_def split: sum.splits)
  also have "\<dots> \<longleftrightarrow> pr_user p \<noteq> [] \<and> pr_password p \<noteq> [] \<and> pr_servers p \<noteq> [] \<and>
      (\<exists>as. parse_servers (getlines [] (pr_servers p)) = Inr as \<and> as \<noteq> []) \<and>
      \<not> float_le (pr_timeout_factor p) 1"
    by (auto simp: convert_params_def split: sum.splits)
  also have "\<dots> \<longleftrightarrow> pr_user p \<noteq> [] \<and> pr_password p \<noteq> [] \<and> pr_servers p \<noteq> [] \<and>
      (\<exists>as. parse_servers (getlines [] (pr_servers p)) = Inr as) \<and>
      \<not> float_le (pr_timeout_factor p) 1"
    using parse_servers_not_Nil getlines_not_Nil[of "[]" "pr_servers p"] by auto
  finally show ?thesis unfolding parse_servers_total .
qed

theorem creation_exact_witness:
  "\<exists>c. client_create (\<lambda>f k. ucast k) True 7
     \<lparr>pr_servers = ''[::1]:14022 , localhost:80'', pr_user = ''ann'', pr_password = ''x'',
      pr_max_active_txs = 0, pr_max_unack_msgs = 0, pr_max_unack_bytes = 0,
      pr_timeout_factor = Finite 2.5\<rparr> = Inr c"
proof -
  have "addr_of (trim ''[::1]:14022 '') = Inr \<lparr>a_host = ''::1'', a_port = 14022, a_family = AF_INET6\<rparr>"
    by code_simp
  moreover have "addr_of (trim '' localhost:80'') = Inr \<lparr>a_host = ''localhost'', a_port = 80, a_family = AF_UNSPEC\<rparr>"
    by code_simp
  ultimately show ?thesis unfolding creation_exact by simp
qed

text \<open>
  C26: A list of servers that is written from well-formed addresses, in any number and with any number
  of blanks after the commas, is read back as these addresses, and the client has one closed
  connection for each, in this order; limits of 0 become the largest ones.
\<close>

theorem server_list_roundtrip:
  assumes "as \<noteq> []" "\<forall>a\<in>set as. addr_wf a" "pr_servers p = server_list n as"
    and "pr_user p \<noteq> []" "pr_password p \<noteq> []" "\<not> float_le (pr_timeout_factor p) 1"
  shows "\<exists>q c. convert_params p = Inr q \<and> q_servers q = as \<and>
    client_create product True now p = Inr c \<and>
    p_servers (cl_params c) = map (\<lambda>a. unat (a_port a)) as \<and>
    map c_state (cl_connections c) = replicate (length as) C_CLOSED \<and>
    p_max_active_txs (cl_params c) = no_limit (pr_max_active_txs p) \<and>
    0 < p_max_active_txs (cl_params c)"
proof -
  have "pr_servers p \<noteq> []"
    using assms(1,3) by (cases as rule: remdups_adj.cases)
      (auto simp: server_list_def addr_str_not_Nil)
  then obtain q where q: "convert_params p = Inr q" "q_servers q = as"
    "q_max_active_txs q = no_limit (pr_max_active_txs p)"
    using assms parse_server_list[OF assms(2), of n] by (simp add: convert_params_def)
  have ports: "\<forall>n\<in>set (p_servers (client_params_of product q)). n \<noteq> 0"
    using assms(2) q(2) by (auto simp: client_params_of_def addr_wf_def unat_gt_0)
  have "0 < no_limit (pr_max_active_txs p)" by (simp add: no_limit_def word_gt_0)
  moreover have "\<exists>c. new_client True now (client_params_of product q) = Inr c \<and>
      cl_params c = client_params_of product q \<and>
      map c_state (cl_connections c) = replicate (length as) C_CLOSED"
    using create_connections_ok[OF ports] connections_closed[OF ports] q assms(1) calculation
    by (simp add: new_client_def Let_def client_params_of_def)
  ultimately show ?thesis
    using q by (auto simp: client_create_def client_params_of_def)
qed

theorem server_list_roundtrip_witness:
  "\<exists>q c. convert_params
       \<lparr>pr_servers = ''h:1,  h:2'', pr_user = ''u'', pr_password = ''p'', pr_max_active_txs = 5,
        pr_max_unack_msgs = 0, pr_max_unack_bytes = 0, pr_timeout_factor = Finite 2\<rparr> = Inr q \<and>
     map a_port (q_servers q) = [1, 2]"
proof -
  define a b where "a = \<lparr>a_host = ''h'', a_port = 1, a_family = AF_UNSPEC\<rparr>"
    and "b = \<lparr>a_host = ''h'', a_port = 2, a_family = AF_UNSPEC\<rparr>"
  have "addr_str a = ''h:1''" "addr_str b = ''h:2''" by (unfold a_def b_def, code_simp+)
  moreover have "addr_of ''h:1'' = Inr a" "addr_of ''h:2'' = Inr b" by (unfold a_def b_def, code_simp+)
  ultimately have wf: "addr_wf a" "addr_wf b" using addr_of_iff by metis+
  have "server_list 2 [a, b] = ''h:1,  h:2''"
    using \<open>addr_str a = ''h:1''\<close> \<open>addr_str b = ''h:2''\<close>
    by (simp add: server_list_def numeral_2_eq_2)
  then show ?thesis
    using server_list_roundtrip[of "[a, b]" "\<lparr>pr_servers = ''h:1,  h:2'', pr_user = ''u'', pr_password = ''p'',
      pr_max_active_txs = 5, pr_max_unack_msgs = 0, pr_max_unack_bytes = 0,
      pr_timeout_factor = Finite 2\<rparr>" 2 "\<lambda>f k. ucast k" 0] wf
    by (auto simp: a_def b_def)
qed

text \<open>A factor that is not a number passes the check.\<close>

lemma nan_factor_accepted: "\<not> float_le NaN 1"
  by simp

end
