(* ===== verification/Nplex_Iso8601.thy ===== *)
theory Nplex_Iso8601
  imports Nplex_Decimal "HOL-Library.Signed_Division"
begin

text \<open>
  Instants as text, \<open>to_iso8601\<close> of \<open>src/utils.cpp\<close>.  \<open>gmtime_r\<close> counts whole years and months of the
  Gregorian calendar from the epoch, as POSIX defines it; a count of milliseconds in 64 bits never leaves
  the range of its \<open>tm_year\<close>.
\<close>

section \<open>Calendar\<close>

definition leap_year :: "int \<Rightarrow> bool" where
  "leap_year y \<longleftrightarrow> y mod 4 = 0 \<and> (y mod 100 \<noteq> 0 \<or> y mod 400 = 0)"

definition year_days :: "int \<Rightarrow> int" where
  "year_days y = (if leap_year y then 366 else 365)"

definition month_days :: "int \<Rightarrow> int list" where
  "month_days y = [31, if leap_year y then 29 else 28, 31, 30, 31, 30, 31, 31, 30, 31, 30, 31]"

text \<open>The year and month a number of days falls in, and the days left.\<close>

function count_years :: "int \<Rightarrow> int \<Rightarrow> int \<times> int" where
  "count_years y d = (if d < year_days y then (y, d) else count_years (y + 1) (d - year_days y))"
  by pat_completeness auto
termination by (relation "measure (\<lambda>(y, d). nat d)") (auto simp: year_days_def split: if_splits)

declare count_years.simps [simp del]

fun count_months :: "int list \<Rightarrow> int \<Rightarrow> int \<times> int" where
  "count_months [] d = (0, d)"
| "count_months (m # ms) d = (if d < m then (0, d) else case count_months ms (d - m) of (n, r) \<Rightarrow> (n + 1, r))"

text \<open>\<open>struct tm\<close> with the year and the month as they are printed: \<open>tm_year + 1900\<close> and \<open>tm_mon + 1\<close>.\<close>

record tm =
  tm_year :: int
  tm_mon :: int
  tm_mday :: int
  tm_hour :: int
  tm_min :: int
  tm_sec :: int

definition gmtime :: "int \<Rightarrow> tm" where
  "gmtime t =
     (let days = t div 86400; secs = t mod 86400; (y, yday) = count_years 1970 (days mod 146097);
          (mon, mday) = count_months (month_days y) yday
      in \<lparr>tm_year = y + 400 * (days div 146097), tm_mon = mon + 1, tm_mday = mday + 1,
          tm_hour = secs div 3600, tm_min = secs mod 3600 div 60, tm_sec = secs mod 60\<rparr>)"

section \<open>Printing\<close>

text \<open>
  \<open>fmt::format\<close> is a parameter: the text of a number under the format \<open>{:0wd}\<close>.  What its documentation
  says of it is \<open>padded\<close>: zeros between the sign and the digits, up to the width.
\<close>

definition padded :: "nat \<Rightarrow> int \<Rightarrow> string" where
  "padded w n =
     (let sign = (if n < 0 then ''-'' else ''''); ds = decimal (nat \<bar>n\<bar>)
      in sign @ replicate (w - length sign - length ds) (CHR ''0'') @ ds)"

definition to_iso8601 :: "(nat \<Rightarrow> int \<Rightarrow> string) \<Rightarrow> millis_t \<Rightarrow> string" where
  "to_iso8601 fmt ms_since_epoch =
     (let total_secs = sint ms_since_epoch sdiv 1000; millis = sint ms_since_epoch smod 1000; t = gmtime total_secs
      in fmt 4 (tm_year t) @ ''-'' @ fmt 2 (tm_mon t) @ ''-'' @ fmt 2 (tm_mday t) @ ''T'' @
         fmt 2 (tm_hour t) @ '':'' @ fmt 2 (tm_min t) @ '':'' @ fmt 2 (tm_sec t) @ ''.'' @
         fmt 3 millis @ ''Z'')"

section \<open>Days\<close>

text \<open>The days before a year, by the count of leap years, and those before a date.\<close>

definition days_before_year :: "int \<Rightarrow> int" where
  "days_before_year y = 365 * (y - 1970) + ((y - 1) div 4 - (y - 1) div 100 + (y - 1) div 400 - 477)"

definition valid_date :: "int \<Rightarrow> int \<Rightarrow> int \<Rightarrow> bool" where
  "valid_date y m d \<longleftrightarrow> 1 \<le> m \<and> m \<le> 12 \<and> 1 \<le> d \<and> d \<le> month_days y ! nat (m - 1)"

definition days_before :: "int \<Rightarrow> int \<Rightarrow> int \<Rightarrow> int" where
  "days_before y m d = days_before_year y + sum_list (take (nat (m - 1)) (month_days y)) + (d - 1)"

lemma quotient_of_pred:
  fixes y k :: int
  assumes "0 < k"
  shows "y div k = (y - 1) div k + of_bool (k dvd y)"
proof (cases "k dvd y")
  case True
  then obtain q where y: "y = k * q" ..
  have "(y - 1) div k = q - 1" using assms by (intro int_div_pos_eq[of _ _ _ "k - 1"]) (simp_all add: y algebra_simps)
  then show ?thesis using assms by (simp add: y)
next
  case False
  then have "y mod k \<noteq> 0" by (simp add: dvd_eq_mod_eq_0)
  then have r: "0 < y mod k" "y mod k < k" using pos_mod_sign[OF assms, of y] pos_mod_bound[OF assms, of y] by linarith+
  have "(y - 1) div k = y div k"
    using r by (intro int_div_pos_eq[of _ _ _ "y mod k - 1"]) (simp_all add: algebra_simps)
  then show ?thesis using False by simp
qed

lemma quotient_range:
  fixes u k b :: int
  assumes "0 \<le> u" "u < b * k" "0 < k"
  shows "0 \<le> u div k \<and> u div k < b"
proof -
  have "u div k * k \<le> u" using assms(3) by (metis div_mult_mod_eq pos_mod_sign le_add_same_cancel1)
  with assms(2) have "u div k * k < b * k" by simp
  then show ?thesis using assms by (simp add: pos_imp_zdiv_nonneg_iff)
qed

lemma leap_year_dvd: "leap_year y \<longleftrightarrow> 4 dvd y \<and> (\<not> 100 dvd y \<or> 400 dvd y)"
  by (simp add: leap_year_def dvd_eq_mod_eq_0)

lemma year_days_dvd: "year_days y = 365 + (of_bool (4 dvd y) - of_bool (100 dvd y) + of_bool (400 dvd y))"
proof -
  have "100 dvd y \<Longrightarrow> 4 dvd y" "400 dvd y \<Longrightarrow> 100 dvd y"
    using dvd_trans[of 4 100 y] dvd_trans[of 100 400 y] by simp_all
  then show ?thesis
    unfolding year_days_def leap_year_dvd by (cases "4 dvd y"; cases "100 dvd y"; cases "400 dvd y") simp_all
qed

lemma days_before_year_Suc: "days_before_year (y + 1) = days_before_year y + year_days y"
proof -
  have arith: "365 * (y + 1 - 1970) + (b4 + o4 - (b100 + o100) + (b400 + o400) - 477) =
      365 * (y - 1970) + (b4 - b100 + b400 - 477) + (365 + (o4 - o100 + o400))"
    for b4 o4 b100 o100 b400 o400 :: int by simp
  have quot: "y div 4 = (y - 1) div 4 + of_bool (4 dvd y)" "y div 100 = (y - 1) div 100 + of_bool (100 dvd y)"
    "y div 400 = (y - 1) div 400 + of_bool (400 dvd y)" by (rule quotient_of_pred, rule zero_less_numeral)+
  show ?thesis
    unfolding days_before_year_def add_diff_cancel year_days_dvd quot by (rule arith)
qed

lemma days_before_cycle: "days_before_year (y + 400 * c) = days_before_year y + 146097 * c"
proof -
  have shift: "(y + 400 * c - 1) div k = (y - 1) div k + q * c" if "400 = k * q" "0 < k" for k q
  proof -
    have "y + 400 * c - 1 = (y - 1) + (q * c) * k" using that by (simp add: algebra_simps)
    then show ?thesis using that(2) by (simp only: div_mult_self1)
  qed
  show ?thesis using shift[of 4 100] shift[of 100 4] shift[of 400 1] by (simp add: days_before_year_def)
qed

lemma days_before_1970 [simp]: "days_before_year 1970 = 0"
  by (simp add: days_before_year_def)

lemma count_years_days:
  "0 \<le> d \<Longrightarrow> count_years y d = (z, r) \<Longrightarrow> 0 \<le> r \<and> r < year_days z \<and> days_before_year z + r = days_before_year y + d"
proof (induction y d rule: count_years.induct)
  case (1 y d)
  show ?case
  proof (cases "d < year_days y")
    case True
    with 1 show ?thesis by (simp add: count_years.simps[of y])
  next
    case False
    with 1 show ?thesis by (subst (asm) (2) count_years.simps) (simp add: days_before_year_Suc)
  qed
qed

lemma count_months_days:
  "0 \<le> d \<Longrightarrow> d < sum_list ms \<Longrightarrow> count_months ms d = (n, r) \<Longrightarrow>
     0 \<le> n \<and> nat n < length ms \<and> 0 \<le> r \<and> r < ms ! nat n \<and> d = sum_list (take (nat n) ms) + r"
proof (induction ms d arbitrary: n r rule: count_months.induct)
  case (2 m ms d)
  show ?case
  proof (cases "d < m")
    case True
    with 2 show ?thesis by auto
  next
    case False
    obtain n' r' where c: "count_months ms (d - m) = (n', r')" by fastforce
    with 2 False have n: "n = n' + 1" "r = r'" by simp_all
    from 2 False c have "0 \<le> n'" "nat n' < length ms" "0 \<le> r'" "r' < ms ! nat n'" "d - m = sum_list (take (nat n') ms) + r'"
      by simp_all
    then show ?thesis unfolding n by (simp add: nat_add_distrib)
  qed
qed simp

lemma month_days_sum: "sum_list (month_days y) = year_days y"
  by (simp add: month_days_def year_days_def)

text \<open>The date and time of an instant: a date of the calendar, whose days and seconds add up to the instant.\<close>

lemma gmtime_exact:
  "valid_date (tm_year (gmtime t)) (tm_mon (gmtime t)) (tm_mday (gmtime t))"
  "0 \<le> tm_hour (gmtime t) \<and> tm_hour (gmtime t) < 24"
  "0 \<le> tm_min (gmtime t) \<and> tm_min (gmtime t) < 60"
  "0 \<le> tm_sec (gmtime t) \<and> tm_sec (gmtime t) < 60"
  "t = days_before (tm_year (gmtime t)) (tm_mon (gmtime t)) (tm_mday (gmtime t)) * 86400
       + tm_hour (gmtime t) * 3600 + tm_min (gmtime t) * 60 + tm_sec (gmtime t)"
proof -
  let ?days = "t div 86400" and ?secs = "t mod 86400"
  obtain y yday where cy: "count_years 1970 (?days mod 146097) = (y, yday)" by fastforce
  obtain mon mday where cm: "count_months (month_days y) yday = (mon, mday)" by fastforce
  have tm: "gmtime t = \<lparr>tm_year = y + 400 * (?days div 146097), tm_mon = mon + 1, tm_mday = mday + 1,
      tm_hour = ?secs div 3600, tm_min = ?secs mod 3600 div 60, tm_sec = ?secs mod 60\<rparr>"
    by (simp add: gmtime_def Let_def cy cm)
  have y: "0 \<le> yday" "yday < year_days y" "days_before_year y + yday = ?days mod 146097"
    using count_years_days[OF _ cy] by simp_all
  have m: "0 \<le> mon" "nat mon < length (month_days y)" "0 \<le> mday" "mday < month_days y ! nat mon"
      "yday = sum_list (take (nat mon) (month_days y)) + mday"
    using count_months_days[OF y(1) _ cm] y(2) by (simp_all add: month_days_sum)
  have "leap_year (y + 400 * c) \<longleftrightarrow> leap_year y" for c
  proof -
    have "(y + 400 * c) mod k = y mod k" if "400 = k * q" for k q :: int
    proof -
      have "y + 400 * c = y + k * (q * c)" unfolding that by (simp only: mult.assoc)
      then show ?thesis by (simp only: mod_mult_self2)
    qed
    from this[of 4 100] this[of 100 4] this[of 400 1]
    show ?thesis by (simp add: leap_year_def)
  qed
  then have md: "month_days (y + 400 * c) = month_days y" for c by (simp add: month_days_def)
  show "valid_date (tm_year (gmtime t)) (tm_mon (gmtime t)) (tm_mday (gmtime t))"
    using m by (simp add: tm valid_date_def md) (simp add: month_days_def)
  show "0 \<le> tm_hour (gmtime t) \<and> tm_hour (gmtime t) < 24" "0 \<le> tm_min (gmtime t) \<and> tm_min (gmtime t) < 60"
    "0 \<le> tm_sec (gmtime t) \<and> tm_sec (gmtime t) < 60"
    unfolding tm tm.select_convs by (rule quotient_range; simp)+ simp
  have days: "days_before (tm_year (gmtime t)) (tm_mon (gmtime t)) (tm_mday (gmtime t)) = ?days"
  proof -
    have "days_before_year y + sum_list (take (nat mon) (month_days y)) + mday = ?days mod 146097" using y(3) m(5) by simp
    then have "days_before_year y + 146097 * (?days div 146097) + sum_list (take (nat mon) (month_days y)) + mday = ?days"
      by (metis add.assoc add.commute mult_div_mod_eq)
    then show ?thesis by (simp add: tm days_before_def md days_before_cycle)
  qed
  have "u = u div 3600 * 3600 + u mod 3600 div 60 * 60 + u mod 60" for u :: int
  proof -
    have "u mod 3600 mod 60 = u mod 60" by (rule mod_mod_cancel) simp
    then have "u mod 3600 = u mod 3600 div 60 * 60 + u mod 60" by (metis div_mult_mod_eq)
    then show ?thesis by (metis div_mult_mod_eq add.assoc)
  qed
  from this[of ?secs] have secs: "?secs = ?secs div 3600 * 3600 + ?secs mod 3600 div 60 * 60 + ?secs mod 60" .
  have "t = ?days * 86400 + ?secs" by (rule div_mult_mod_eq[symmetric])
  also have "\<dots> = ?days * 86400 + (?secs div 3600 * 3600 + ?secs mod 3600 div 60 * 60 + ?secs mod 60)"
    by (rule arg_cong[OF secs])
  finally show "t = days_before (tm_year (gmtime t)) (tm_mon (gmtime t)) (tm_mday (gmtime t)) * 86400
       + tm_hour (gmtime t) * 3600 + tm_min (gmtime t) * 60 + tm_sec (gmtime t)"
    unfolding days unfolding tm by (simp only: tm.select_convs add.assoc)
qed

section \<open>The text\<close>

lemma padded_number:
  "0 \<le> n \<Longrightarrow> padded w n = replicate (w - length (decimal (nat n))) (CHR ''0'') @ decimal (nat n)"
  by (simp add: padded_def Let_def)

lemma padded_length: "0 \<le> n \<Longrightarrow> n < 10 ^ w \<Longrightarrow> 0 < w \<Longrightarrow> length (padded w n) = w"
  using decimal_length[of "nat n" w] by (simp add: padded_number nat_less_iff)

lemma digits_value_zeros: "digits_value (replicate k (CHR ''0'') @ ds) = digits_value ds"
  by (induction k) (simp_all add: digits_value_def digit_value_def)

lemma padded_digits: "0 \<le> n \<Longrightarrow> list_all is_digit (padded w n)"
  by (simp add: padded_number list_all_iff is_digit_def set_replicate_conv_if less_eq_char_def)
    (use decimal_digits in \<open>auto simp: list_all_iff is_digit_def less_eq_char_def\<close>)

text \<open>Reading the text: the fields stand at fixed distances from its end.\<close>

definition field :: "nat \<Rightarrow> nat \<Rightarrow> string \<Rightarrow> int" where
  "field i n s = int (digits_value (rev (take n (drop i (rev s)))))"

definition read_iso8601 :: "string \<Rightarrow> int" where
  "read_iso8601 s =
     (((days_before (field 20 (length s) s) (field 17 2 s) (field 14 2 s) * 24 + field 11 2 s) * 60 + field 8 2 s) * 60
      + field 5 2 s) * 1000 + field 1 3 s"

lemma read_padded: "0 \<le> k \<Longrightarrow> int (digits_value (padded w k)) = k"
  by (simp add: padded_number digits_value_zeros)

lemma count_years_from: "y \<le> fst (count_years y d)"
  by (induction y d rule: count_years.induct) (subst count_years.simps, auto)

lemma gmtime_year: "0 \<le> t \<Longrightarrow> 1970 \<le> tm_year (gmtime t)"
  using count_years_from[of 1970 "t div 86400 mod 146097"]
  by (cases "count_years 1970 (t div 86400 mod 146097)")
    (simp add: gmtime_def Let_def pos_imp_zdiv_nonneg_iff add_increasing2 split: prod.split)

lemma month_days_le: "i < 12 \<Longrightarrow> month_days y ! i \<le> 31"
  by (auto simp: month_days_def less_Suc_eq eval_nat_numeral)

lemma whole_millis:
  "0 \<le> sint t \<Longrightarrow> sint t sdiv 1000 = sint t div 1000" "0 \<le> sint t \<Longrightarrow> sint t smod 1000 = sint t mod 1000"
  by (simp_all add: signed_divide_int_def signed_modulo_int_def sgn_if minus_mult_div_eq_mod)

lemma iso8601_read:
  assumes "0 \<le> sint t"
  shows "read_iso8601 (to_iso8601 padded t) = sint t"
proof -
  let ?secs = "sint t div 1000" and ?ms = "sint t mod 1000"
  let ?tm = "gmtime ?secs"
  note g = gmtime_exact[of ?secs]
  have month: "1 \<le> tm_mon ?tm" "tm_mon ?tm \<le> 12" and day: "1 \<le> tm_mday ?tm"
    "tm_mday ?tm \<le> month_days (tm_year ?tm) ! nat (tm_mon ?tm - 1)"
    using g(1) by (auto simp: valid_date_def)
  have "tm_mday ?tm \<le> 31" using day(2) month_days_le[of "nat (tm_mon ?tm - 1)" "tm_year ?tm"] month(2) by linarith
  then have len: "length (padded 2 (tm_mon ?tm)) = 2" "length (padded 2 (tm_mday ?tm)) = 2"
    "length (padded 2 (tm_hour ?tm)) = 2" "length (padded 2 (tm_min ?tm)) = 2" "length (padded 2 (tm_sec ?tm)) = 2"
    "length (padded 3 ?ms) = 3"
    using month day(1) g(2-4) pos_mod_bound[of 1000 "sint t"] by (auto intro!: padded_length)
  have year: "0 \<le> tm_year ?tm" using gmtime_year[of ?secs] assms by (simp add: pos_imp_zdiv_nonneg_iff)
  let ?s = "to_iso8601 padded t"
  have rev: "rev ?s = CHR ''Z'' # rev (padded 3 ?ms) @ CHR ''.'' # rev (padded 2 (tm_sec ?tm)) @ CHR '':'' #
      rev (padded 2 (tm_min ?tm)) @ CHR '':'' # rev (padded 2 (tm_hour ?tm)) @ CHR ''T'' # rev (padded 2 (tm_mday ?tm)) @
      CHR ''-'' # rev (padded 2 (tm_mon ?tm)) @ CHR ''-'' # rev (padded 4 (tm_year ?tm))"
    unfolding to_iso8601_def whole_millis[OF assms] Let_def by simp
  have "length ?s = length (rev ?s)" by simp
  then have "length (padded 4 (tm_year ?tm)) \<le> length ?s" unfolding rev by simp
  then have fields: "field 1 3 ?s = ?ms" "field 5 2 ?s = tm_sec ?tm" "field 8 2 ?s = tm_min ?tm" "field 11 2 ?s = tm_hour ?tm"
    "field 14 2 ?s = tm_mday ?tm" "field 17 2 ?s = tm_mon ?tm" "field 20 (length ?s) ?s = tm_year ?tm"
    using month day(1) g(2-4) year unfolding field_def rev by (simp_all add: len read_padded)
  have "?secs = ((days_before (tm_year ?tm) (tm_mon ?tm) (tm_mday ?tm) * 24 + tm_hour ?tm) * 60 + tm_min ?tm) * 60 + tm_sec ?tm"
    using g(5) by (simp add: algebra_simps)
  then show ?thesis unfolding read_iso8601_def fields using div_mult_mod_eq[of "sint t" 1000] by simp
qed

text \<open>Before the epoch the milliseconds of the last second are printed as a negative number.\<close>

lemma iso8601_negative: "to_iso8601 padded (- 5) = ''1970-01-01T00:00:00.-05Z''"
  by code_simp

text \<open>
  C31: For an instant of the epoch or later, \<open>to_iso8601\<close> prints a date of the Gregorian calendar and a time of
  day, in fixed columns after the year, and they are that instant to the millisecond: it can be read back
  from the text.  The formatting library is assumed to do what its documentation says.
\<close>

theorem iso8601_roundtrip:
  assumes "fmt = padded" "0 \<le> sint t"
  shows "read_iso8601 (to_iso8601 fmt t) = sint t \<and>
    (\<exists>y mo d h mi s ms. valid_date y mo d \<and> 1970 \<le> y \<and> 0 \<le> h \<and> h < 24 \<and> 0 \<le> mi \<and> mi < 60 \<and> 0 \<le> s \<and> s < 60 \<and>
       0 \<le> ms \<and> ms < 1000 \<and>
       to_iso8601 fmt t = padded 4 y @ ''-'' @ padded 2 mo @ ''-'' @ padded 2 d @ ''T'' @
         padded 2 h @ '':'' @ padded 2 mi @ '':'' @ padded 2 s @ ''.'' @ padded 3 ms @ ''Z'')"
proof -
  have "to_iso8601 padded t = (let tm = gmtime (sint t div 1000) in padded 4 (tm_year tm) @ ''-'' @ padded 2 (tm_mon tm) @
      ''-'' @ padded 2 (tm_mday tm) @ ''T'' @ padded 2 (tm_hour tm) @ '':'' @ padded 2 (tm_min tm) @ '':'' @
      padded 2 (tm_sec tm) @ ''.'' @ padded 3 (sint t mod 1000) @ ''Z'')"
    by (simp only: to_iso8601_def whole_millis[OF assms(2)] Let_def)
  moreover have "1970 \<le> tm_year (gmtime (sint t div 1000))"
    using assms(2) by (intro gmtime_year) (simp add: pos_imp_zdiv_nonneg_iff)
  ultimately show ?thesis
    using iso8601_read[OF assms(2)] gmtime_exact[of "sint t div 1000"] pos_mod_sign[OF zero_less_numeral, of "sint t"] pos_mod_bound[OF zero_less_numeral, of "sint t"]
    unfolding assms(1) Let_def by blast
qed

theorem iso8601_roundtrip_witness:
  "read_iso8601 ''2024-06-30T12:34:56.789Z'' = 1719750896789 \<and> to_iso8601 padded 1719750896789 = ''2024-06-30T12:34:56.789Z''"
proof -
  have s: "sint (1719750896789 :: 64 word) = 1719750896789" by simp
  have printed: "to_iso8601 padded 1719750896789 = ''2024-06-30T12:34:56.789Z''" by code_simp
  have "read_iso8601 (to_iso8601 padded 1719750896789) = sint (1719750896789 :: 64 word)"
    by (rule conjunct1[OF iso8601_roundtrip[OF refl]]) (unfold s, simp)
  then show ?thesis unfolding s printed by blast
qed

end
