(* ===== verification/Nplex_Json.thy ===== *)
theory Nplex_Json
  imports Nplex_Client Nplex_Base64 Nplex_Iso8601
begin

text \<open>
  Printing as JSON, \<open>src/json.cpp\<close>.  The functions append to a string, the state here; the one fault is
  a change that lacks a value its action promises, whose null pointer the code uses.
\<close>

section \<open>Texts and numbers\<close>

definition out_plus :: "string \<Rightarrow> (string, unit) op" where
  "out_plus s = modify_op (\<lambda>out. out @ s)"

text \<open>Statements one after another.\<close>

fun seq_ops :: "('s, unit) op list \<Rightarrow> ('s, unit) op" where
  "seq_ops [] = return_op ()"
| "seq_ops (f # fs) = bind_op f (\<lambda>_. seq_ops fs)"

definition quote :: char where
  "quote = CHR 0x22"

definition json_append_number :: "nat \<Rightarrow> (string, unit) op" where
  "json_append_number n = out_plus (decimal n)"

definition json_append_text :: "string \<Rightarrow> (string, unit) op" where
  "json_append_text s = seq_ops [out_plus [quote], out_plus s, out_plus [quote]]"

text \<open>The format \<open>%04x\<close> of a number below 65536.\<close>

definition hex_digit :: "nat \<Rightarrow> char" where
  "hex_digit n = (if n < 10 then char_of (48 + n) else char_of (87 + n))"

definition hex4 :: "nat \<Rightarrow> string" where
  "hex4 n = [hex_digit (n div 4096 mod 16), hex_digit (n div 256 mod 16), hex_digit (n div 16 mod 16), hex_digit (n mod 16)]"

definition plain_char :: "char \<Rightarrow> bool" where
  "plain_char c \<longleftrightarrow> CHR 0x20 \<le> c \<and> c \<noteq> quote \<and> c \<noteq> CHR 0x5C"

text \<open>The \<open>switch\<close>.\<close>

definition escape_of :: "char \<Rightarrow> string" where
  "escape_of c =
     (if c = quote then [CHR 0x5C, quote]
      else if c = CHR 0x5C then [CHR 0x5C, CHR 0x5C]
      else if c = CHR 0x08 then CHR 0x5C # ''b''
      else if c = CHR 0x0C then CHR 0x5C # ''f''
      else if c = CHR 0x0A then CHR 0x5C # ''n''
      else if c = CHR 0x0D then CHR 0x5C # ''r''
      else if c = CHR 0x09 then CHR 0x5C # ''t''
      else CHR 0x5C # ''u'' @ hex4 (of_char c))"

text \<open>The \<open>while\<close> loop: the bytes from \<open>start\<close> to \<open>p\<close> and those from \<open>p\<close> to \<open>end\<close>.\<close>

fun escape_loop :: "string \<Rightarrow> string \<Rightarrow> (string, unit) op" where
  "escape_loop run [] = out_plus run"
| "escape_loop run (c # cs) =
     (if plain_char c then escape_loop (run @ [c]) cs
      else seq_ops [out_plus run, out_plus (escape_of c), escape_loop [] cs])"

definition json_append_escaped_text :: "string \<Rightarrow> (string, unit) op" where
  "json_append_escaped_text s = seq_ops [out_plus [quote], escape_loop [] s, out_plus [quote]]"

section \<open>Values and changes\<close>

fun action_to_string :: "change_action \<Rightarrow> string" where
  "action_to_string CREATE = ''CREATE''"
| "action_to_string UPDATE = ''UPDATE''"
| "action_to_string DELETE = ''DELETE''"

fun code_to_string :: "exit_code \<Rightarrow> string" where
  "code_to_string EC_CONNECTED = ''CONNECTED''"
| "code_to_string EC_CLOSED_BY_SERVER = ''CLOSED_BY_SERVER''"
| "code_to_string EC_CLOSED_BY_USER = ''CLOSED_BY_USER''"
| "code_to_string EC_COMM_ERROR = ''COMM_ERROR''"
| "code_to_string EC_CON_LOST = ''CON_LOST''"
| "code_to_string EC_EXCD_LIMITS = ''EXCD_LIMITS''"
| "code_to_string (EC_unnamed _) = ''UNKNOWN''"

definition json_append_value :: "meta list \<Rightarrow> val \<Rightarrow> (string, unit) op" where
  "json_append_value h v =
     (let content = v_data v; is_utf8 = utf8nvalid content
      in seq_ops
        ([out_plus ''{'', json_append_text ''data'', out_plus '':''] @
         (if is_utf8 then
            [json_append_escaped_text content, out_plus '','', json_append_text ''encoding'', out_plus '':'',
             json_append_text ''text'']
          else
            [json_append_text (to_base64 content), out_plus '','', json_append_text ''encoding'', out_plus '':'',
             json_append_text ''base64'']) @
         [out_plus '','', json_append_text ''rev'', out_plus '':'', json_append_number (unat (value_rev h v)),
          out_plus ''}'']))"

text \<open>\<open>*p\<close>, the value a pointer points at.\<close>

definition json_append_value_ptr :: "meta list \<Rightarrow> val option \<Rightarrow> (string, unit) op" where
  "json_append_value_ptr h p = (case p of None \<Rightarrow> raise_op Ex_crash | Some v \<Rightarrow> json_append_value h v)"

definition json_append_change :: "meta list \<Rightarrow> change \<Rightarrow> (string, unit) op" where
  "json_append_change h c =
     seq_ops
       ([out_plus ''{'', json_append_text ''action'', out_plus '':'', json_append_text (action_to_string (ch_action c)),
         out_plus '','', json_append_text ''key'', out_plus '':'', json_append_escaped_text (ch_key c)] @
        (if ch_action c \<noteq> DELETE then
           [out_plus '','', json_append_text ''new_value'', out_plus '':'', json_append_value_ptr h (ch_new c)]
         else []) @
        (if ch_action c \<noteq> CREATE then
           [out_plus '','', json_append_text ''old_value'', out_plus '':'', json_append_value_ptr h (ch_old c)]
         else []) @
        [out_plus ''}''])"

definition json_append_keyval :: "meta list \<Rightarrow> string \<Rightarrow> val \<Rightarrow> (string, unit) op" where
  "json_append_keyval h key v =
     seq_ops [out_plus ''{'', json_append_text ''key'', out_plus '':'', json_append_escaped_text key, out_plus '','',
       json_append_text ''value'', out_plus '':'', json_append_value h v, out_plus ''}'']"

section \<open>Sessions and events\<close>

definition json_append_session :: "(nat \<Rightarrow> int \<Rightarrow> string) \<Rightarrow> session_t \<Rightarrow> (string, unit) op" where
  "json_append_session fmt s =
     seq_ops [out_plus ''{'', json_append_text ''user'', out_plus '':'', json_append_escaped_text (s_user s), out_plus '','',
       json_append_text ''address'', out_plus '':'', json_append_escaped_text (s_address s), out_plus '','',
       json_append_text ''since'', out_plus '':'', json_append_text (to_iso8601 fmt (s_since s)), out_plus ''}'']"

definition json_append_event_session :: "(nat \<Rightarrow> int \<Rightarrow> string) \<Rightarrow> session_t \<Rightarrow> (string, unit) op" where
  "json_append_event_session fmt s =
     seq_ops
       ([out_plus ''{'', json_append_text ''user'', out_plus '':'', json_append_escaped_text (s_user s), out_plus '','',
         json_append_text ''address'', out_plus '':'', json_append_escaped_text (s_address s), out_plus '','',
         json_append_text ''code'', out_plus '':'', json_append_text (code_to_string (s_code s)), out_plus '','',
         json_append_text ''since'', out_plus '':'', json_append_text (to_iso8601 fmt (s_since s))] @
        (if s_until s \<noteq> 0 then
           [out_plus '','', json_append_text ''until'', out_plus '':'', json_append_text (to_iso8601 fmt (s_until s))]
         else []) @
        [out_plus ''}''])"

text \<open>The \<open>for\<close> loop over the changes.\<close>

fun json_append_changes :: "meta list \<Rightarrow> change list \<Rightarrow> (string, unit) op" where
  "json_append_changes h [] = return_op ()"
| "json_append_changes h (c # cs) =
     seq_ops [json_append_change h c, if cs \<noteq> [] then out_plus '','' else return_op (), json_append_changes h cs]"

definition json_append_event_data :: "(nat \<Rightarrow> int \<Rightarrow> string) \<Rightarrow> meta list \<Rightarrow> addr option \<Rightarrow> change list \<Rightarrow> (string, unit) op" where
  "json_append_event_data fmt h m changes =
     seq_ops [out_plus ''{'', json_append_text ''rev'', out_plus '':'',
       json_append_number (case m of None \<Rightarrow> 0 | Some a \<Rightarrow> unat (meta_rev (h ! a))), out_plus '','',
       json_append_text ''user'', out_plus '':'',
       json_append_escaped_text (case m of None \<Rightarrow> [] | Some a \<Rightarrow> meta_user (h ! a)), out_plus '','',
       json_append_text ''timestamp'', out_plus '':'',
       json_append_text (to_iso8601 fmt (case m of None \<Rightarrow> 0 | Some a \<Rightarrow> meta_timestamp (h ! a))), out_plus '','',
       json_append_text ''tx_type'', out_plus '':'',
       json_append_number (case m of None \<Rightarrow> 0 | Some a \<Rightarrow> unat (meta_tx_type (h ! a))), out_plus '','',
       json_append_text ''changes'', out_plus '':'', out_plus ''['', json_append_changes h changes, out_plus '']'',
       out_plus ''}'']"

section \<open>The interface\<close>

text \<open>A new string, wrapped around one member.\<close>

definition json_string :: "string \<Rightarrow> (string, unit) op \<Rightarrow> exn + string" where
  "json_string name body =
     (case seq_ops [out_plus ''{'', json_append_text name, out_plus '':'', body, out_plus ''}''] [] of
        (Inl e, _) \<Rightarrow> Inl e
      | (Inr _, str) \<Rightarrow> Inr str)"

definition data_to_json :: "meta list \<Rightarrow> string \<Rightarrow> val \<Rightarrow> exn + string" where
  "data_to_json h key v = json_string ''data'' (json_append_keyval h key v)"

definition session_to_json :: "(nat \<Rightarrow> int \<Rightarrow> string) \<Rightarrow> session_t \<Rightarrow> exn + string" where
  "session_to_json fmt s = json_string ''session'' (json_append_session fmt s)"

definition event_data_to_json :: "(nat \<Rightarrow> int \<Rightarrow> string) \<Rightarrow> meta list \<Rightarrow> addr option \<Rightarrow> change list \<Rightarrow> exn + string" where
  "event_data_to_json fmt h m changes = json_string ''event_data'' (json_append_event_data fmt h m changes)"

definition event_session_to_json :: "(nat \<Rightarrow> int \<Rightarrow> string) \<Rightarrow> session_t \<Rightarrow> exn + string" where
  "event_session_to_json fmt s = json_string ''event_session'' (json_append_event_session fmt s)"

end
