(* ===== verification/Nplex_Base64_Tables.thy ===== *)
theory Nplex_Base64_Tables
  imports Nplex_Base64
begin

text \<open>
  The tables of the base64 codec as formulas: the alphabet of RFC 4648, and what each table for decoding
  puts where in the word.
\<close>

unbundle bit_operations_syntax

section \<open>The tables\<close>

definition alphabet :: string where
  "alphabet = ''ABCDEFGHIJKLMNOPQRSTUVWXYZabcdefghijklmnopqrstuvwxyz0123456789+/''"

text \<open>The value of a byte in the alphabet.\<close>

definition sextet :: "nat \<Rightarrow> nat option" where
  "sextet t =
     (if 65 \<le> t \<and> t \<le> 90 then Some (t - 65) else if 97 \<le> t \<and> t \<le> 122 then Some (t - 71)
      else if 48 \<le> t \<and> t \<le> 57 then Some (t + 4) else if t = 43 then Some 62
      else if t = 47 then Some 63 else None)"

definition tab_of :: "(u32 \<Rightarrow> u32) \<Rightarrow> u32 list" where
  "tab_of f = map (\<lambda>t. case sextet t of None \<Rightarrow> bad_char | Some v \<Rightarrow> f (of_nat v)) [0 ..< 256]"

definition le_0 :: "u32 \<Rightarrow> u32" where "le_0 v = push_bit 2 v"
definition le_1 :: "u32 \<Rightarrow> u32" where "le_1 v = drop_bit 4 v OR push_bit 12 (v AND 15)"
definition le_2 :: "u32 \<Rightarrow> u32" where "le_2 v = push_bit 8 (drop_bit 2 v) OR push_bit 22 (v AND 3)"
definition le_3 :: "u32 \<Rightarrow> u32" where "le_3 v = push_bit 16 v"
definition be_0 :: "u32 \<Rightarrow> u32" where "be_0 v = push_bit 18 v"
definition be_1 :: "u32 \<Rightarrow> u32" where "be_1 v = push_bit 12 v"
definition be_2 :: "u32 \<Rightarrow> u32" where "be_2 v = push_bit 6 v"
definition be_3 :: "u32 \<Rightarrow> u32" where "be_3 v = v"

lemma le_table_0: "le_decode_table_0 = tab_of le_0" by code_simp
lemma le_table_1: "le_decode_table_1 = tab_of le_1" by code_simp
lemma le_table_2: "le_decode_table_2 = tab_of le_2" by code_simp
lemma le_table_3: "le_decode_table_3 = tab_of le_3" by code_simp
lemma be_table_0: "be_decode_table_0 = tab_of be_0" by code_simp
lemma be_table_1: "be_decode_table_1 = tab_of be_1" by code_simp
lemma be_table_2: "be_decode_table_2 = tab_of be_2" by code_simp
lemma be_table_3: "be_decode_table_3 = tab_of be_3" by code_simp

lemma encode_tables_formulas:
  "encode_table_0 = map (\<lambda>t. alphabet ! (t div 4)) [0 ..< 256]"
  "encode_table_1 = map (\<lambda>t. alphabet ! (t mod 64)) [0 ..< 256]"
  by code_simp+

lemma alphabet_sextets: "map (\<lambda>c. sextet (byte_of c)) alphabet = map Some [0 ..< 64]"
  by code_simp

text \<open>What each table adds to the bytes of the word, the most significant ones first in value.\<close>

definition parts :: "machine \<Rightarrow> u32 \<Rightarrow> u8 list \<times> u32" where
  "parts m w = (map ((!) (memory_bytes m w)) (decidx m), drop_bit 24 w)"

lemma le_parts_0:
  "map (\<lambda>v. parts little_endian (le_0 (of_nat v))) [0 ..< 64] = map (\<lambda>v. ([of_nat (4 * v), of_nat (0), of_nat (0)], 0)) [0 ..< 64]"
  by code_simp
lemma le_parts_1:
  "map (\<lambda>v. parts little_endian (le_1 (of_nat v))) [0 ..< 64] = map (\<lambda>v. ([of_nat (v div 16), of_nat (16 * (v mod 16)), of_nat (0)], 0)) [0 ..< 64]"
  by code_simp
lemma le_parts_2:
  "map (\<lambda>v. parts little_endian (le_2 (of_nat v))) [0 ..< 64] = map (\<lambda>v. ([of_nat (0), of_nat (v div 4), of_nat (64 * (v mod 4))], 0)) [0 ..< 64]"
  by code_simp
lemma le_parts_3:
  "map (\<lambda>v. parts little_endian (le_3 (of_nat v))) [0 ..< 64] = map (\<lambda>v. ([of_nat (0), of_nat (0), of_nat (v)], 0)) [0 ..< 64]"
  by code_simp
lemma be_parts_0:
  "map (\<lambda>v. parts big_endian (be_0 (of_nat v))) [0 ..< 64] = map (\<lambda>v. ([of_nat (4 * v), of_nat (0), of_nat (0)], 0)) [0 ..< 64]"
  by code_simp
lemma be_parts_1:
  "map (\<lambda>v. parts big_endian (be_1 (of_nat v))) [0 ..< 64] = map (\<lambda>v. ([of_nat (v div 16), of_nat (16 * (v mod 16)), of_nat (0)], 0)) [0 ..< 64]"
  by code_simp
lemma be_parts_2:
  "map (\<lambda>v. parts big_endian (be_2 (of_nat v))) [0 ..< 64] = map (\<lambda>v. ([of_nat (0), of_nat (v div 4), of_nat (64 * (v mod 4))], 0)) [0 ..< 64]"
  by code_simp
lemma be_parts_3:
  "map (\<lambda>v. parts big_endian (be_3 (of_nat v))) [0 ..< 64] = map (\<lambda>v. ([of_nat (0), of_nat (0), of_nat (v)], 0)) [0 ..< 64]"
  by code_simp

end
