(* ===== verification/Nplex_Base64_Spec.thy ===== *)
theory Nplex_Base64_Spec
  imports Nplex_Base64_Tables
begin

text \<open>
  What the base64 codec promises: the text of RFC 4648, which its decoder reads back on machines of either
  byte order, and exactly which texts the decoder accepts.
\<close>

unbundle bit_operations_syntax

section \<open>Sextets and bytes\<close>

text \<open>The three bytes of four sextets; and the sextets of bytes, as RFC 4648 has them.\<close>

definition triple :: "nat \<Rightarrow> nat \<Rightarrow> nat \<Rightarrow> nat \<Rightarrow> nat list" where
  "triple a b c d = [4 * a + b div 16, 16 * (b mod 16) + c div 4, 64 * (c mod 4) + d]"

fun undigits :: "nat list \<Rightarrow> nat list" where
  "undigits (a # b # c # d # vs) = triple a b c d @ undigits vs"
| "undigits [a, b, c] = take 2 (triple a b c 0)"
| "undigits [a, b] = take 1 (triple a b 0 0)"
| "undigits vs = []"

fun digits :: "nat list \<Rightarrow> nat list" where
  "digits (x # y # z # bs) = [x div 4, 16 * (x mod 4) + y div 16, 4 * (y mod 16) + z div 64, z mod 64] @ digits bs"
| "digits [x, y] = [x div 4, 16 * (x mod 4) + y div 16, 4 * (y mod 16)]"
| "digits [x] = [x div 4, 16 * (x mod 4)]"
| "digits [] = []"

lemma undigits_append: "4 dvd length vs \<Longrightarrow> undigits (vs @ ws) = undigits vs @ undigits ws"
proof (induction vs rule: undigits.induct)
  case (1 a b c d vs)
  then have "4 dvd length vs" by (simp add: dvd_def) presburger
  with 1 show ?case by simp
next
  case (2 a b c)
  then have False by simp presburger
  then show ?case ..
next
  case (3 a b)
  then have False by simp presburger
  then show ?case ..
qed simp_all

lemma undigits_digits: "\<forall>b \<in> set bs. b < 256 \<Longrightarrow> undigits (digits bs) = bs"
  by (induction bs rule: digits.induct) (auto simp: triple_def)

lemma digits_less: "\<forall>b \<in> set bs. b < 256 \<Longrightarrow> \<forall>v \<in> set (digits bs). v < 64"
  by (induction bs rule: digits.induct) auto

definition pads :: "nat \<Rightarrow> nat" where
  "pads n = (3 - n mod 3) mod 3"

lemma digits_length: "length (digits bs) + pads (length bs) = 4 * ((length bs + 2) div 3)"
proof (induction bs rule: digits.induct)
  case (1 x y z bs)
  have "pads (Suc (Suc (Suc (length bs)))) = pads (length bs)" by (simp add: pads_def mod_Suc)
  moreover have "(5 + length bs) div 3 = Suc (Suc (Suc (length bs)) div 3)" by presburger
  ultimately show ?case using 1 by simp
qed (simp_all add: pads_def)

lemma undigits_length: "4 dvd length vs + p \<Longrightarrow> p \<le> 2 \<Longrightarrow> length (undigits vs) = 3 * ((length vs + p) div 4) - p"
proof (induction vs rule: undigits.induct)
  case (1 a b c d vs)
  have "length (a # b # c # d # vs) + p = 4 + (length vs + p)" by simp
  then have "4 dvd length vs + p" using 1(2) by (simp only: dvd_add_triv_left_iff)
  with 1 have "length (undigits vs) = 3 * ((length vs + p) div 4) - p" by simp
  moreover obtain k where k: "length vs + p = 4 * k" using \<open>4 dvd length vs + p\<close> by (auto simp: dvd_def)
  then have "p \<le> 3 * k" using 1(3) by (cases k) simp_all
  ultimately show ?case using k by (simp add: triple_def)
next
  case (2 a b c)
  then have "p = 1" by simp presburger
  then show ?case by (simp add: triple_def)
next
  case (3 a b)
  then have "p = 2" by simp presburger
  then show ?case by (simp add: triple_def)
next
  case "4_1"
  then have "p = 0" by simp presburger
  then show ?case by simp
next
  case "4_2"
  then have False by simp presburger
  then show ?case ..
qed

lemma sextet_less: "sextet t = Some v \<Longrightarrow> v < 64"
  by (auto simp: sextet_def split: if_split_asm)

lemma sextet_alphabet: "v < 64 \<Longrightarrow> sextet (byte_of (alphabet ! v)) = Some v"
proof -
  assume v: "v < 64"
  have l: "length alphabet = 64" using arg_cong[OF alphabet_sextets, of length] by simp
  show ?thesis using arg_cong[OF alphabet_sextets, of "\<lambda>xs. xs ! v"] v l by simp
qed

lemma sextet_inj: "sextet s = Some v \<Longrightarrow> sextet t = Some v \<Longrightarrow> s = t"
  by (auto simp: sextet_def split: if_split_asm)

lemma byte_of_inj: "byte_of c = byte_of d \<Longrightarrow> c = d"
  by (metis byte_of_def char_of_char)

lemma byte_of_less: "byte_of c < 256"
  by (simp add: byte_of_def)

lemma alphabet_sextet: "sextet (byte_of c) = Some v \<Longrightarrow> c = alphabet ! v"
  using sextet_alphabet[of v] sextet_less[of "byte_of c" v] sextet_inj byte_of_inj by blast

lemma padding_no_sextet: "sextet (byte_of padding_char) = None"
  by (simp add: padding_char_def byte_of_def sextet_def)

section \<open>Encoding\<close>

lemma or_disjoint:
  assumes "y < 2 ^ n"
  shows "push_bit n x OR y = 2 ^ n * x + (y :: nat)"
proof -
  have "take_bit n y = y" using assms by (simp add: take_bit_nat_eq_self)
  then have lt: "bit y k \<Longrightarrow> k < n" for k using bit_take_bit_iff[of n y k] by simp
  then have "push_bit n x OR y = push_bit n x + y"
    by (intro disjunctive_add_eq_or[symmetric]) (auto simp: bit_eq_iff bit_simps dest!: lt)
  then show ?thesis by (simp add: push_bit_eq_mult mult.commute)
qed

lemma tables_nth: "x < 256 \<Longrightarrow> encode_table_0 ! x = alphabet ! (x div 4)" "x < 256 \<Longrightarrow> encode_table_1 ! x = alphabet ! (x mod 64)"
  by (simp_all add: encode_tables_formulas)

lemma masks: "x AND 0x03 = x mod (4 :: nat)" "x AND 0x0F = x mod (16 :: nat)"
  using take_bit_eq_mask[of 2 x] take_bit_eq_mask[of 4 x] by (simp_all add: take_bit_eq_mod mask_eq_exp_minus_1)

lemma index_values:
  fixes x y z :: nat
  assumes "y < 256" "z < 256"
  shows "push_bit 4 (x AND 0x03) OR (drop_bit 4 y AND 0x0F) = 16 * (x mod 4) + y div 16"
    "push_bit 2 (y AND 0x0F) OR (drop_bit 6 z AND 0x03) = 4 * (y mod 16) + z div 64"
    "push_bit 2 (y AND 0x0F) = 4 * (y mod 16)" "push_bit 4 (x AND 0x03) = 16 * (x mod 4)"
proof -
  show "push_bit 4 (x AND 0x03) OR (drop_bit 4 y AND 0x0F) = 16 * (x mod 4) + y div 16"
    using or_disjoint[of "y div 16" 4 "x mod 4"] assms by (simp add: masks drop_bit_eq_div)
  show "push_bit 2 (y AND 0x0F) OR (drop_bit 6 z AND 0x03) = 4 * (y mod 16) + z div 64"
    using or_disjoint[of "z div 64" 2 "y mod 16"] assms by (simp add: masks drop_bit_eq_div)
qed (simp_all add: masks push_bit_eq_mult)

lemma encode_loop_digits: "\<forall>b \<in> set bs. b < 256 \<Longrightarrow> encode_loop bs = map ((!) alphabet) (digits bs)"
proof (induction bs rule: digits.induct)
  case (1 x y z bs)
  then have "x < 256" "y < 256" "z < 256" "encode_loop bs = map ((!) alphabet) (digits bs)" by simp_all
  then show ?case
    unfolding encode_loop.simps digits.simps index_values(1)[OF \<open>y < 256\<close> \<open>z < 256\<close>] index_values(2)[OF \<open>y < 256\<close> \<open>z < 256\<close>]
    by (simp add: tables_nth)
next
  case (2 x y)
  then have "x < 256" "y < 256" by simp_all
  then show ?case
    unfolding encode_loop.simps digits.simps index_values(1)[OF \<open>y < 256\<close> \<open>y < 256\<close>] index_values(3)[OF \<open>y < 256\<close> \<open>y < 256\<close>]
    by (simp add: tables_nth)
next
  case (3 x)
  then have "x < 256" by simp
  then show ?case
    unfolding encode_loop.simps digits.simps index_values(4)[OF \<open>x < 256\<close> \<open>x < 256\<close>] by (simp add: tables_nth)
qed simp

lemma div_up: "n div 3 + (if n mod 3 > 0 then 1 else 0) = (n + 2) div (3 :: nat)"
  by presburger

lemma to_base64_digits:
  "to_base64 s = map ((!) alphabet) (digits (map byte_of s)) @ replicate (pads (length s)) padding_char"
proof -
  have e: "encode_loop (map byte_of s) = map ((!) alphabet) (digits (map byte_of s))"
    by (rule encode_loop_digits) (simp add: byte_of_less)
  have "push_bit 2 (length s div 3 + (if length s mod 3 > 0 then 1 else 0)) = 4 * ((length s + 2) div 3)"
    using div_up[of "length s"] by (simp only: push_bit_eq_mult) simp
  then show ?thesis using digits_length[of "map byte_of s"] e
    by (simp add: to_base64_def Let_def)
qed

lemma filter_full:
  assumes "length (filter P xs) = length xs" "x \<in> set xs"
  shows "P x"
proof (rule ccontr)
  assume "\<not> P x"
  with assms(2) have "length (filter P xs) < length xs" by (rule length_filter_less)
  with assms(1) show False by simp
qed

section \<open>Machines\<close>

lemma tab_nth: "t < 256 \<Longrightarrow> tab_of f ! t = (case sextet t of None \<Rightarrow> bad_char | Some v \<Rightarrow> f (of_nat v))"
  by (simp add: tab_of_def)

lemma fold_or_ge: "x \<in> set xs \<or> x \<le> z \<Longrightarrow> x \<le> fold (OR) xs (z :: u32)"
proof (induction xs arbitrary: z)
  case (Cons y ys)
  have "x \<in> set ys \<or> x \<le> y OR z"
    using Cons.prems le_word_or2[of y z] le_word_or2[of z y] order.trans[of x z "y OR z"] by (auto simp: or.commute)
  from Cons.IH[OF this] show ?case by simp
qed simp

lemma or_small:
  assumes "y < 2 ^ n" "2 ^ n * x + y < 256"
  shows "(of_nat (2 ^ n * x) :: u8) OR of_nat y = of_nat (2 ^ n * x + y)"
proof (rule word_unat_eq_iff[THEN iffD2])
  have small: "k < 256 \<Longrightarrow> unat (of_nat k :: u8) = k" for k by (simp add: unat_of_nat)
  have "unat (of_nat (2 ^ n * x) :: u8) = 2 ^ n * x" "unat (of_nat y :: u8) = y" "unat (of_nat (2 ^ n * x + y) :: u8) = 2 ^ n * x + y"
    using assms(2) by (intro small; linarith)+
  moreover have "(2 ^ n * x) OR y = 2 ^ n * x + y" using or_disjoint[OF assms(1), of x] by (simp add: push_bit_eq_mult mult.commute)
  ultimately show "unat ((of_nat (2 ^ n * x) :: u8) OR of_nat y) = unat (of_nat (2 ^ n * x + y) :: u8)"
    by (simp only: unsigned_or_eq)
qed

lemma no_high_byte: "drop_bit 24 (w :: u32) = 0 \<Longrightarrow> w < bad_char"
proof -
  assume "drop_bit 24 w = 0"
  then have "unat w div 2 ^ 24 = 0" by (metis unat_0 unat_drop_bit_eq drop_bit_eq_div)
  then show ?thesis by (simp add: bad_char_def word_less_nat_alt div_eq_0_iff)
qed

text \<open>
  A machine whose tables put the sextets of a group where it finds the three bytes again; what a byte
  outside the alphabet gives is larger than any such word.
\<close>

locale base64_machine =
  fixes m :: machine
    and f0 f1 f2 f3 :: "u32 \<Rightarrow> u32"
  assumes tables: "decode_tables m = [tab_of f0, tab_of f1, tab_of f2, tab_of f3]"
    and part0: "v < 64 \<Longrightarrow> parts m (f0 (of_nat v)) = ([of_nat (4 * v), 0, 0], 0)"
    and part1: "v < 64 \<Longrightarrow> parts m (f1 (of_nat v)) = ([of_nat (v div 16), of_nat (16 * (v mod 16)), 0], 0)"
    and part2: "v < 64 \<Longrightarrow> parts m (f2 (of_nat v)) = ([0, of_nat (v div 4), of_nat (64 * (v mod 4))], 0)"
    and part3: "v < 64 \<Longrightarrow> parts m (f3 (of_nat v)) = ([0, 0, of_nat v], 0)"
    and part_0: "parts m 0 = ([0, 0, 0], 0)"
    and part_or: "parts m (x OR y) = (map2 (OR) (fst (parts m x)) (fst (parts m y)), snd (parts m x) OR snd (parts m y))"
begin

lemma part_sextets:
  assumes "a < 64" "b < 64" "c < 64" "d < 64"
  shows "parts m (f3 (of_nat d) OR f2 (of_nat c) OR f1 (of_nat b) OR f0 (of_nat a)) = (map of_nat (triple a b c d), 0)"
    "parts m (f2 (of_nat c) OR f1 (of_nat b) OR f0 (of_nat a)) = (map of_nat (triple a b c 0), 0)"
    "parts m (f1 (of_nat b) OR f0 (of_nat a)) = (map of_nat (triple a b 0 0), 0)"
proof -
  have ab: "(of_nat (b div 16) :: u8) OR of_nat (4 * a) = of_nat (4 * a + b div 16)"
    using or_small[of "b div 16" 2 a] assms by (simp add: or.commute)
  have bc: "(of_nat (c div 4) :: u8) OR of_nat (16 * (b mod 16)) = of_nat (16 * (b mod 16) + c div 4)"
    using or_small[of "c div 4" 4 "b mod 16"] assms by (simp add: or.commute)
  have cd: "(of_nat d :: u8) OR of_nat (64 * (c mod 4)) = of_nat (64 * (c mod 4) + d)"
    using or_small[of d 6 "c mod 4"] assms by (simp add: or.commute)
  note eval = part_or part0[OF assms(1)] part1[OF assms(2)] part2[OF assms(3)] part3[OF assms(4)]
  show "parts m (f3 (of_nat d) OR f2 (of_nat c) OR f1 (of_nat b) OR f0 (of_nat a)) = (map of_nat (triple a b c d), 0)"
    using ab bc cd by (simp add: eval triple_def del: of_nat_add of_nat_mult)
  show "parts m (f2 (of_nat c) OR f1 (of_nat b) OR f0 (of_nat a)) = (map of_nat (triple a b c 0), 0)"
    using ab bc by (simp add: eval triple_def del: of_nat_add of_nat_mult)
  show "parts m (f1 (of_nat b) OR f0 (of_nat a)) = (map of_nat (triple a b 0 0), 0)"
    using ab by (simp add: eval triple_def del: of_nat_add of_nat_mult)
qed

lemma group_word:
  assumes "fold (OR) (map2 (\<lambda>tab t. tab ! t) (decode_tables m) ts) 0 = w" "parts m w = (map of_nat xs, 0)" "\<forall>x \<in> set xs. x < 256"
  shows "decode_group m ts n = Inr (map char_of (take n xs))"
proof -
  have bytes: "map ((!) (memory_bytes m w)) (decidx m) = map of_nat xs" and high: "drop_bit 24 w = 0"
    using assms(2) by (simp_all add: parts_def)
  have "map (\<lambda>i. char_of (unat (memory_bytes m w ! i)) :: char) (take n (decidx m)) =
      take n (map (\<lambda>b. char_of (unat b)) (map ((!) (memory_bytes m w)) (decidx m)))" by (simp add: take_map)
  also have "\<dots> = map char_of (take n xs)"
    unfolding bytes using assms(3) by (auto simp: take_map unat_of_nat dest!: in_set_takeD)
  finally show ?thesis using assms(1) no_high_byte[OF high] by (simp add: decode_group_def)
qed

lemma group_bad:
  assumes "length ts \<le> 4" "\<forall>t \<in> set ts. t < 256" "t \<in> set ts" "sextet t = None"
  shows "decode_group m ts n = Inl B64_char"
proof -
  let ?es = "map2 (\<lambda>tab t. tab ! t) (decode_tables m) ts"
  obtain i where i: "i < length ts" "ts ! i = t" using assms(3) by (auto simp: in_set_conv_nth)
  have t: "t < 256" using assms(2,3) by blast
  have "?es ! i = bad_char" using i assms(1) t assms(4) by (auto simp: tables tab_nth nth_Cons' split: if_split_asm)
  moreover have "i < length ?es" using i assms(1) by (simp add: tables)
  ultimately have "bad_char \<in> set ?es" by (metis nth_mem)
  then have "bad_char \<le> fold (OR) ?es 0" by (intro fold_or_ge) simp
  then show ?thesis by (simp add: decode_group_def)
qed

lemma triple_less: "a < 64 \<Longrightarrow> b < 64 \<Longrightarrow> c < 64 \<Longrightarrow> d < 64 \<Longrightarrow> \<forall>x \<in> set (triple a b c d). x < 256"
  by (auto simp: triple_def)

lemma group_good:
  assumes "map sextet ts = map Some vs" "\<forall>t \<in> set ts. t < 256" "length ts = 2 \<or> length ts = 3 \<or> length ts = 4"
  shows "decode_group m ts (length ts - 1) = Inr (map char_of (undigits vs))"
proof -
  have len: "length vs = length ts" using arg_cong[OF assms(1), of length] by simp
  have v: "\<forall>v \<in> set vs. v < 64"
  proof
    fix v assume "v \<in> set vs"
    then have "Some v \<in> set (map sextet ts)" unfolding assms(1) by simp
    then show "v < 64" using sextet_less by auto
  qed
  from assms(3) consider (two) "length ts = 2" | (three) "length ts = 3" | (four) "length ts = 4" by blast
  then show ?thesis
  proof cases
    case two
    then obtain s t a b where ts: "ts = [s, t]" "vs = [a, b]" using len by (auto simp: numeral_2_eq_2 length_Suc_conv)
    have "fold (OR) (map2 (\<lambda>tab t. tab ! t) (decode_tables m) ts) 0 = f1 (of_nat b) OR f0 (of_nat a)"
      using assms(1,2) by (simp add: ts tables tab_nth)
    from group_word[OF this part_sextets(3)[of a b 0 0], of 1] v triple_less[of a b 0 0] show ?thesis by (simp add: ts)
  next
    case three
    then obtain s t r a b c where ts: "ts = [s, t, r]" "vs = [a, b, c]" using len by (auto simp: numeral_3_eq_3 length_Suc_conv)
    have "fold (OR) (map2 (\<lambda>tab t. tab ! t) (decode_tables m) ts) 0 = f2 (of_nat c) OR f1 (of_nat b) OR f0 (of_nat a)"
      using assms(1,2) by (simp add: ts tables tab_nth or.assoc)
    from group_word[OF this part_sextets(2)[of a b c 0], of 2] v triple_less[of a b c 0] show ?thesis
      by (simp add: ts numeral_2_eq_2)
  next
    case four
    then obtain s t r q a b c d where ts: "ts = [s, t, r, q]" "vs = [a, b, c, d]"
      using len by (auto simp: numeral_eq_Suc length_Suc_conv)
    have "fold (OR) (map2 (\<lambda>tab t. tab ! t) (decode_tables m) ts) 0 = f3 (of_nat d) OR f2 (of_nat c) OR f1 (of_nat b) OR f0 (of_nat a)"
      using assms(1,2) by (simp add: ts tables tab_nth or.assoc)
    from group_word[OF this part_sextets(1)[of a b c d], of 3] v triple_less[of a b c d] show ?thesis
      by (simp add: ts triple_def numeral_3_eq_3)
  qed
qed

lemma loop_good:
  "map sextet ts = map Some vs \<Longrightarrow> \<forall>t \<in> set ts. t < 256 \<Longrightarrow> length ts = 4 * i \<Longrightarrow>
     decode_loop m i (ts @ rest) = Inr (map char_of (undigits vs), rest)"
proof (induction i arbitrary: ts vs)
  case 0
  then show ?case by simp
next
  case (Suc i)
  then obtain t1 t2 t3 t4 ts' where ts: "ts = t1 # t2 # t3 # t4 # ts'" by (auto simp: length_Suc_conv numeral_eq_Suc)
  with Suc.prems(1) obtain a b c d vs' where vs: "vs = a # b # c # d # vs'" "map sextet ts' = map Some vs'"
    "map sextet [t1, t2, t3, t4] = map Some [a, b, c, d]" by (auto simp: Cons_eq_map_conv)
  have "decode_group m [t1, t2, t3, t4] 3 = Inr (map char_of (triple a b c d))"
    using group_good[OF vs(3)] Suc.prems(2) ts by (simp add: numeral_3_eq_3)
  moreover have "decode_loop m i (ts' @ rest) = Inr (map char_of (undigits vs'), rest)"
    using Suc.IH[OF vs(2)] Suc.prems(2,3) ts by simp
  ultimately show ?case by (simp add: ts vs(1))
qed

lemma loop_bad:
  "\<exists>t \<in> set ts. sextet t = None \<Longrightarrow> \<forall>t \<in> set ts. t < 256 \<Longrightarrow> length ts = 4 * i \<Longrightarrow>
     decode_loop m i (ts @ rest) = Inl B64_char"
proof (induction i arbitrary: ts)
  case 0
  then show ?case by simp
next
  case (Suc i)
  then obtain t1 t2 t3 t4 ts' where ts: "ts = t1 # t2 # t3 # t4 # ts'" by (auto simp: length_Suc_conv numeral_eq_Suc)
  show ?case
  proof (cases "\<exists>t \<in> set [t1, t2, t3, t4]. sextet t = None")
    case True
    then obtain t where "t \<in> set [t1, t2, t3, t4]" "sextet t = None" by blast
    then have "decode_group m [t1, t2, t3, t4] 3 = Inl B64_char"
      using group_bad[of "[t1, t2, t3, t4]" t] Suc.prems(2) ts by simp
    then show ?thesis by (simp add: ts)
  next
    case False
    then have "decode_loop m i (ts' @ rest) = Inl B64_char" using Suc.IH[of ts'] Suc.prems ts by auto
    then show ?thesis by (cases "decode_group m [t1, t2, t3, t4] 3") (auto simp: ts decode_group_def Let_def split: if_split_asm)
  qed
qed

text \<open>A text with \<open>p\<close> signs of padding among its last four.\<close>

lemma sextets_some: "\<forall>t \<in> set ts. sextet t \<noteq> None \<Longrightarrow> map sextet ts = map Some (map (the \<circ> sextet) ts)"
  by (induction ts) auto

lemma from_base64_split:
  assumes "length x = 4 * k" "0 < k" "p = length (filter (\<lambda>c. c = padding_char) (take 4 (rev x)))" "p \<le> 2"
  shows "from_base64 m x =
    (let body = map byte_of (take (4 * k - p) x)
     in if \<exists>t \<in> set body. sextet t = None then Inl B64_char
        else Inr (map char_of (undigits (map (the \<circ> sextet) body))))"
proof -
  define n where "n = k - (if p \<noteq> 0 then 1 else 0)"
  define pre where "pre = map byte_of (take (4 * n) x)"
  define end_part where "end_part = (if p = 0 then [] else map byte_of (take (4 - p) (drop (4 * n) x)))"
  have nk: "4 * n \<le> 4 * k" "p = 0 \<Longrightarrow> n = k" "p \<noteq> 0 \<Longrightarrow> 4 * k - p = 4 * n + (4 - p)"
    using assms(2,4) by (auto simp: n_def)
  have bs: "map byte_of x = pre @ map byte_of (drop (4 * n) x)" by (simp add: pre_def flip: map_append)
  have body: "map byte_of (take (4 * k - p) x) = pre @ end_part"
    using nk assms(1) by (auto simp: pre_def end_part_def take_add simp flip: map_append)
  have bytes: "\<forall>t \<in> set (pre @ end_part). t < 256" by (auto simp: pre_def end_part_def byte_of_less)
  have len: "length pre = 4 * n" "p \<noteq> 0 \<Longrightarrow> length end_part = 4 - p"
    using nk assms(1,2,4) by (auto simp: pre_def end_part_def n_def)
  have last: "(if p = 0 then Inr [] else if p = 1 then decode_group m (take 3 (map byte_of (drop (4 * n) x))) 2
      else decode_group m (take 2 (map byte_of (drop (4 * n) x))) 1) =
    (if \<exists>t \<in> set end_part. sextet t = None then Inl B64_char
     else Inr (map char_of (undigits (map (the \<circ> sextet) end_part))))" (is "?l = ?r")
  proof (cases "p = 0")
    case True
    then show ?thesis by (simp add: end_part_def)
  next
    case False
    then have l: "?l = decode_group m end_part (length end_part - 1)"
      using assms(4) len(2) by (auto simp: end_part_def take_map le_Suc_eq numeral_2_eq_2 numeral_3_eq_3)
    show ?thesis
    proof (cases "\<exists>t \<in> set end_part. sextet t = None")
      case True
      then obtain t where "t \<in> set end_part" "sextet t = None" by blast
      then show ?thesis using group_bad[of end_part t] bytes l len(2)[OF False] True by auto
    next
      case good: False
      then have "map sextet end_part = map Some (map (the \<circ> sextet) end_part)" by (intro sextets_some) auto
      moreover have "length end_part = 2 \<or> length end_part = 3 \<or> length end_part = 4"
        using len(2)[OF False] False assms(4) by auto
      ultimately show ?thesis using group_good[of end_part "map (the \<circ> sextet) end_part"] bytes l good by auto
    qed
  qed
  have sizes: "x \<noteq> []" "length x AND 3 = 0" "drop_bit 2 (length x) = k" "drop_bit 2 (length x * 3) = 3 * k"
    using assms(1,2) by (auto simp: masks(1)[simplified] drop_bit_eq_div)
  have start: "from_base64 m x = (case decode_loop m n (map byte_of x) of Inl e \<Rightarrow> Inl e
      | Inr (out, bs) \<Rightarrow>
          (case (if p = 0 then Inr [] else if p = 1 then decode_group m (take 3 bs) 2 else decode_group m (take 2 bs) 1) of
             Inl e \<Rightarrow> Inl e
           | Inr rest \<Rightarrow> let w = out @ rest in Inr (w @ replicate (3 * k - p - length w) (CHR ''.''))))"
    using sizes assms(4) by (simp add: from_base64_def Let_def n_def flip: assms(3))
  show ?thesis
  proof (cases "\<exists>t \<in> set pre. sextet t = None")
    case True
    then have "decode_loop m n (map byte_of x) = Inl B64_char"
      unfolding bs using bytes len(1) by (intro loop_bad) auto
    then show ?thesis using True by (auto simp: start body)
  next
    case False
    then have loop: "decode_loop m n (map byte_of x) =
        Inr (map char_of (undigits (map (the \<circ> sextet) pre)), map byte_of (drop (4 * n) x))"
      unfolding bs using bytes len(1) by (intro loop_good sextets_some) auto
    let ?vs = "map (the \<circ> sextet) (pre @ end_part)"
    have "length (pre @ end_part) + p = 4 * k" using len nk assms(2,4) by (cases "p = 0"; cases k) (auto simp: end_part_def n_def)
    then have "length (undigits ?vs) = 3 * k - p" using undigits_length[of ?vs p] assms(4) by simp
    moreover have "undigits ?vs = undigits (map (the \<circ> sextet) pre) @ undigits (map (the \<circ> sextet) end_part)"
      using len(1) by (simp add: undigits_append)
    ultimately show ?thesis using False by (auto simp: start loop last body)
  qed
qed

lemma no_padding: "\<forall>t \<in> set (map byte_of xs). sextet t \<noteq> None \<Longrightarrow> filter (\<lambda>c. c = padding_char) xs = []"
  using padding_no_sextet by (auto simp: filter_empty_conv)

lemma padding_count:
  assumes "\<forall>t \<in> set (map byte_of xs). sextet t \<noteq> None" "4 \<le> length xs + p" "p \<le> 2"
  shows "length (filter (\<lambda>c. c = padding_char) (take 4 (rev (xs @ replicate p padding_char)))) = p"
proof -
  have "take 4 (rev (xs @ replicate p padding_char)) = replicate p padding_char @ take (4 - p) (rev xs)"
    using assms(3) by (simp add: take_replicate min_absorb1)
  moreover have "filter (\<lambda>c. c = padding_char) (take (4 - p) (rev xs)) = []"
    using no_padding[OF assms(1)] by (auto simp: filter_empty_conv dest!: in_set_takeD)
  ultimately show ?thesis by simp
qed

text \<open>The texts accepted, and what they give.\<close>

lemma from_base64_good:
  assumes "\<forall>v \<in> set vs. v < 64" "p \<le> 2" "4 dvd length vs + p"
  shows "from_base64 m (map ((!) alphabet) vs @ replicate p padding_char) = Inr (map char_of (undigits vs))"
proof (cases "length vs + p = 0")
  case True
  then show ?thesis by (simp add: from_base64_def)
next
  case False
  let ?x = "map ((!) alphabet) vs @ replicate p padding_char"
  obtain k where k: "length vs + p = 4 * k" "0 < k" using assms(3) False by (auto elim!: dvdE)
  have body: "map byte_of (take (4 * k - p) ?x) = map (byte_of \<circ> (!) alphabet) vs" using k(1) by auto
  have sx: "map (sextet \<circ> byte_of \<circ> (!) alphabet) vs = map Some vs" using assms(1) by (simp add: sextet_alphabet)
  have ok: "\<forall>t \<in> set (map byte_of (map ((!) alphabet) vs)). sextet t \<noteq> None" using assms(1) by (auto simp: sextet_alphabet)
  have "p = length (filter (\<lambda>c. c = padding_char) (take 4 (rev ?x)))"
    using padding_count[OF ok _ assms(2)] k by simp
  moreover have "map (the \<circ> sextet) (map (byte_of \<circ> (!) alphabet) vs) = vs"
    using assms(1) by (simp add: map_idI sextet_alphabet)
  ultimately show ?thesis
    using from_base64_split[of ?x k p] k assms(2) ok body by (auto simp: Let_def)
qed

lemma from_base64_accepts:
  assumes "from_base64 m x = Inr s"
  shows "\<exists>vs p. (\<forall>v \<in> set vs. v < 64) \<and> p \<le> 2 \<and> 4 dvd length vs + p \<and>
    x = map ((!) alphabet) vs @ replicate p padding_char \<and> s = map char_of (undigits vs)"
proof (cases "x = []")
  case True
  with assms show ?thesis by (intro exI[of _ "[]"] exI[of _ 0]) (simp add: from_base64_def)
next
  case False
  define p where "p = length (filter (\<lambda>c. c = padding_char) (take 4 (rev x)))"
  have "length x AND 3 = 0" "p \<le> 2" using assms False unfolding p_def by (auto simp: from_base64_def Let_def split: if_split_asm)
  moreover from this(1) obtain k where k: "length x = 4 * k" by (auto simp: masks(1)[simplified])
  ultimately have p: "p \<le> 2" "0 < k" using False by (cases k; auto)+
  note split = from_base64_split[OF k p(2) p_def p(1)]
  let ?body = "take (4 * k - p) x"
  have good: "\<forall>t \<in> set (map byte_of ?body). sextet t \<noteq> None"
    and s: "s = map char_of (undigits (map (the \<circ> sextet) (map byte_of ?body)))"
    using assms split by (auto simp: Let_def split: if_split_asm)
  let ?vs = "map (the \<circ> sextet) (map byte_of ?body)"
  have sx: "map sextet (map byte_of ?body) = map Some ?vs" using good by (intro sextets_some) auto
  have vs: "\<forall>v \<in> set ?vs. v < 64" using good sextet_less by fastforce
  have "?body = map ((!) alphabet) ?vs"
    using good alphabet_sextet by (auto simp: map_idI intro!: map_idI[symmetric])
  moreover have "drop (4 * k - p) x = replicate p padding_char"
  proof -
    let ?z = "drop (4 * k - p) x"
    have lz: "length ?z = p" using k p by simp
    have "rev x = rev ?z @ rev ?body" by (metis append_take_drop_id rev_append)
    then have "take 4 (rev x) = take 4 (rev ?z) @ take (4 - length (rev ?z)) (rev ?body)" by (simp only: take_append)
    then have tk: "take 4 (rev x) = rev ?z @ take (4 - p) (rev ?body)" using lz p(1) by simp
    have count: "p = length (filter (\<lambda>c. c = padding_char) (rev ?z @ take (4 - p) (rev ?body)))" using p_def unfolding tk .
    have none: "filter (\<lambda>c. c = padding_char) (take (4 - p) (rev ?body)) = []"
      using no_padding[OF good] by (auto simp: filter_empty_conv dest!: in_set_takeD)
    have rev_count: "p = length (filter (\<lambda>c. c = padding_char) (rev ?z))" using count unfolding filter_append none append_Nil2 .
    have "length (rev ?z) = p" by (rule trans[OF length_rev lz])
    then have "length (filter (\<lambda>c. c = padding_char) (rev ?z)) = length (rev ?z)"
      by (rule trans[OF rev_count[symmetric] sym])
    then have "c = padding_char" if "c \<in> set ?z" for c
      using filter_full[of "\<lambda>c. c = padding_char" "rev ?z" c] that by (simp only: set_rev)
    then show ?thesis by (rule replicate_eqI[OF lz])
  qed
  ultimately have "x = map ((!) alphabet) ?vs @ replicate p padding_char" by (metis append_take_drop_id)
  moreover have "length ?vs + p = 4 * k" using k p by simp
  ultimately show ?thesis using vs p s by (intro exI[of _ ?vs] exI[of _ p]) auto
qed

end

text \<open>Both byte orders are such machines.\<close>

lemma le_part_or: "parts little_endian (x OR y) =
    (map2 (OR) (fst (parts little_endian x)) (fst (parts little_endian y)), snd (parts little_endian x) OR snd (parts little_endian y))"
  by (simp add: parts_def little_endian_def drop_bit_or unsigned_or_eq)

lemma be_part_or: "parts big_endian (x OR y) =
    (map2 (OR) (fst (parts big_endian x)) (fst (parts big_endian y)), snd (parts big_endian x) OR snd (parts big_endian y))"
  by (simp add: parts_def big_endian_def drop_bit_or unsigned_or_eq)

interpretation le: base64_machine little_endian le_0 le_1 le_2 le_3
proof unfold_locales
  show "decode_tables little_endian = [tab_of le_0, tab_of le_1, tab_of le_2, tab_of le_3]"
    by (simp add: little_endian_def le_table_0 le_table_1 le_table_2 le_table_3)
  show "parts little_endian 0 = ([0, 0, 0], 0)" by (simp add: parts_def little_endian_def)
qed (use le_parts_0 le_parts_1 le_parts_2 le_parts_3 in \<open>simp_all add: map_eq_conv le_part_or\<close>)

interpretation be: base64_machine big_endian be_0 be_1 be_2 be_3
proof unfold_locales
  show "decode_tables big_endian = [tab_of be_0, tab_of be_1, tab_of be_2, tab_of be_3]"
    by (simp add: big_endian_def be_table_0 be_table_1 be_table_2 be_table_3)
  show "parts big_endian 0 = ([0, 0, 0], 0)" by (simp add: parts_def big_endian_def)
qed (use be_parts_0 be_parts_1 be_parts_2 be_parts_3 in \<open>simp_all add: map_eq_conv be_part_or\<close>)

lemma from_base64_alphabet:
  assumes "m = little_endian \<or> m = big_endian" "\<forall>v \<in> set vs. v < 64" "p \<le> 2" "4 dvd length vs + p"
  shows "from_base64 m (map ((!) alphabet) vs @ replicate p padding_char) = Inr (map char_of (undigits vs))"
  using assms(1) le.from_base64_good[OF assms(2-4)] be.from_base64_good[OF assms(2-4)] by auto

lemma from_to_base64:
  assumes "m = little_endian \<or> m = big_endian"
  shows "from_base64 m (to_base64 s) = Inr s"
proof -
  have bytes: "\<forall>b \<in> set (map byte_of s). b < 256" by (simp add: byte_of_less)
  have "length (digits (map byte_of s)) + pads (length s) = 4 * ((length s + 2) div 3)"
    using digits_length[of "map byte_of s"] by simp
  then have "from_base64 m (to_base64 s) = Inr (map char_of (undigits (digits (map byte_of s))))"
    unfolding to_base64_digits using digits_less[OF bytes] by (intro from_base64_alphabet[OF assms]) (auto simp: pads_def)
  then show ?thesis
    using undigits_digits[OF bytes] by (simp add: map_idI byte_of_def comp_def)
qed

text \<open>
  C29: What \<open>to_base64\<close> writes, \<open>from_base64\<close> reads back, on machines of either byte order.  The text is the
  one of RFC 4648: a letter of the alphabet for each six bits, and padding to a multiple of four.  The
  decoder accepts exactly the texts of that shape, whatever the bits that padding makes unused; on every
  other one it throws, and both byte orders agree on all texts they accept.
\<close>

theorem base64_roundtrip:
  assumes "m = little_endian \<or> m = big_endian"
  shows "from_base64 m (to_base64 s) = Inr s \<and>
    to_base64 s = map ((!) alphabet) (digits (map byte_of s)) @ replicate ((3 - length s mod 3) mod 3) padding_char \<and>
    (\<forall>x r. from_base64 m x = Inr r \<longleftrightarrow>
       (\<exists>vs p. (\<forall>v \<in> set vs. v < 64) \<and> p \<le> 2 \<and> 4 dvd length vs + p \<and>
          x = map ((!) alphabet) vs @ replicate p padding_char \<and> r = map char_of (undigits vs)))"
proof -
  have "from_base64 m x = Inr r \<Longrightarrow> \<exists>vs p. (\<forall>v \<in> set vs. v < 64) \<and> p \<le> 2 \<and> 4 dvd length vs + p \<and>
      x = map ((!) alphabet) vs @ replicate p padding_char \<and> r = map char_of (undigits vs)" for x r
    using assms le.from_base64_accepts be.from_base64_accepts by blast
  then show ?thesis
    using from_base64_alphabet[OF assms] from_to_base64[OF assms, of s] to_base64_digits[of s] unfolding pads_def by blast
qed

theorem base64_roundtrip_witness:
  "from_base64 little_endian (to_base64 ''nplex'') = Inr ''nplex'' \<and> from_base64 big_endian (to_base64 ''nplex'') = Inr ''nplex'' \<and>
   to_base64 ''nplex'' = ''bnBsZXg=''"
proof -
  have "to_base64 ''nplex'' = ''bnBsZXg=''" by code_simp
  moreover have "from_base64 little_endian (to_base64 ''nplex'') = Inr ''nplex''"
    using base64_roundtrip[OF disjI1[OF refl], of "''nplex''"] by (rule conjunct1)
  moreover have "from_base64 big_endian (to_base64 ''nplex'') = Inr ''nplex''"
    using base64_roundtrip[OF disjI2[OF refl], of "''nplex''"] by (rule conjunct1)
  ultimately show ?thesis by blast
qed

end
