(* ===== verification/Nplex_Json_Spec.thy ===== *)
theory Nplex_Json_Spec
  imports Nplex_Json Nplex_Base64_Spec
begin

text \<open>
  What printing as JSON promises: a reader of the JSON grammar gets back the members, their texts byte by
  byte and their numbers; data that is no text comes as base64 and can be decoded; and what is printed is
  UTF-8 when the texts it is given are.
\<close>

section \<open>JSON\<close>

datatype json =
    JString string
  | JNumber nat
  | JArray "json list"
  | JObject "(string \<times> json) list"

definition escaped :: "string \<Rightarrow> string" where
  "escaped s = concat (map (\<lambda>c. if plain_char c then [c] else escape_of c) s)"

definition quoted :: "string \<Rightarrow> string" where
  "quoted s = quote # escaped s @ [quote]"

text \<open>The compact text of a value.\<close>

fun render :: "json \<Rightarrow> string"
  and render_elements :: "json list \<Rightarrow> string"
  and render_members :: "(string \<times> json) list \<Rightarrow> string" where
  "render (JString s) = quoted s"
| "render (JNumber n) = decimal n"
| "render (JArray vs) = ''['' @ render_elements vs @ '']''"
| "render (JObject ms) = ''{'' @ render_members ms @ ''}''"
| "render_elements [] = []"
| "render_elements (v # vs) = render v @ (if vs = [] then [] else '','' @ render_elements vs)"
| "render_members [] = []"
| "render_members ((k, v) # ms) = quoted k @ '':'' @ render v @ (if ms = [] then [] else '','' @ render_members ms)"

subsection \<open>A reader\<close>

text \<open>
  The grammar of RFC 8259 as far as it is used: white space between tokens, strings with all escapes, of
  \<open>\u\<close> those below 128, and whole numbers.
\<close>

definition skip_ws :: "string \<Rightarrow> string" where
  "skip_ws = dropWhile (\<lambda>c. c \<in> {CHR 0x20, CHR 0x09, CHR 0x0A, CHR 0x0D})"

fun unescape :: "char \<Rightarrow> char option" where
  "unescape c =
     (if c \<in> {quote, CHR 0x5C, CHR ''/''} then Some c
      else map_of [(CHR ''b'', CHR 0x08), (CHR ''f'', CHR 0x0C), (CHR ''n'', CHR 0x0A), (CHR ''r'', CHR 0x0D),
        (CHR ''t'', CHR 0x09)] c)"

definition hex_value :: "char \<Rightarrow> nat option" where
  "hex_value c =
     (if is_digit c then Some (of_char c - 48)
      else if CHR ''a'' \<le> c \<and> c \<le> CHR ''f'' then Some (of_char c - 87)
      else if CHR ''A'' \<le> c \<and> c \<le> CHR ''F'' then Some (of_char c - 55)
      else None)"

definition hex_char :: "char \<Rightarrow> char \<Rightarrow> char \<Rightarrow> char \<Rightarrow> char option" where
  "hex_char a b c d =
     (case (hex_value a, hex_value b, hex_value c, hex_value d) of
        (Some i, Some j, Some k, Some l) \<Rightarrow>
          (let n = ((i * 16 + j) * 16 + k) * 16 + l in if n < 128 then Some (char_of n) else None)
      | _ \<Rightarrow> None)"

text \<open>What follows the opening quote.\<close>

fun read_string :: "string \<Rightarrow> (string \<times> string) option" where
  "read_string [] = None"
| "read_string (c # cs) =
     (if c = quote then Some ([], cs)
      else if c < CHR 0x20 then None
      else if c = CHR 0x5C then
        (case cs of
           [] \<Rightarrow> None
         | d # ds \<Rightarrow>
             if d = CHR ''u'' then
               (case ds of
                  e1 # e2 # e3 # e4 # es \<Rightarrow>
                    (case hex_char e1 e2 e3 e4 of
                       None \<Rightarrow> None
                     | Some x \<Rightarrow> map_option (apfst ((#) x)) (read_string es))
                | _ \<Rightarrow> None)
             else
               (case unescape d of
                  None \<Rightarrow> None
                | Some x \<Rightarrow> map_option (apfst ((#) x)) (read_string ds)))
      else map_option (apfst ((#) c)) (read_string cs))"

definition read_number :: "string \<Rightarrow> (json \<times> string) option" where
  "read_number s =
     (let ds = takeWhile is_digit s
      in if ds = [] \<or> hd ds = CHR ''0'' \<and> length ds > 1 then None
         else Some (JNumber (digits_value ds), dropWhile is_digit s))"

text \<open>The bytes of a text bound the depth of the recursion and the length of the lists.\<close>

fun read_value :: "nat \<Rightarrow> string \<Rightarrow> (json \<times> string) option"
  and read_elements :: "nat \<Rightarrow> string \<Rightarrow> (json list \<times> string) option"
  and read_members :: "nat \<Rightarrow> string \<Rightarrow> ((string \<times> json) list \<times> string) option" where
  "read_value 0 s = None"
| "read_elements 0 s = None"
| "read_members 0 s = None"
| "read_value (Suc n) s =
     (case skip_ws s of
        [] \<Rightarrow> None
      | c # cs \<Rightarrow>
          if c = quote then map_option (apfst JString) (read_string cs)
          else if c = CHR ''['' then
            (if take 1 (skip_ws cs) = '']'' then Some (JArray [], tl (skip_ws cs))
             else map_option (apfst JArray) (read_elements n cs))
          else if c = CHR ''{'' then
            (if take 1 (skip_ws cs) = ''}'' then Some (JObject [], tl (skip_ws cs))
             else map_option (apfst JObject) (read_members n cs))
          else read_number (c # cs))"
| "read_elements (Suc n) s =
     Option.bind (read_value n s) (\<lambda>(v, r).
       case skip_ws r of
         [] \<Rightarrow> None
       | c # cs \<Rightarrow>
           if c = CHR '','' then map_option (apfst ((#) v)) (read_elements n cs)
           else if c = CHR '']'' then Some ([v], cs)
           else None)"
| "read_members (Suc n) s =
     (case skip_ws s of
        [] \<Rightarrow> None
      | q # qs \<Rightarrow>
          if q \<noteq> quote then None
          else Option.bind (read_string qs) (\<lambda>(k, r).
            case skip_ws r of
              [] \<Rightarrow> None
            | d # ds \<Rightarrow>
                if d \<noteq> CHR '':'' then None
                else Option.bind (read_value n ds) (\<lambda>(v, r').
                  case skip_ws r' of
                    [] \<Rightarrow> None
                  | c # cs \<Rightarrow>
                      if c = CHR '','' then map_option (apfst ((#) (k, v))) (read_members n cs)
                      else if c = CHR ''}'' then Some ([(k, v)], cs)
                      else None)))"

definition read_json :: "string \<Rightarrow> json option" where
  "read_json s =
     Option.bind (read_value (length s) s) (\<lambda>(v, r). if skip_ws r = [] then Some v else None)"

section \<open>The reader gets back what is rendered\<close>

lemma plain_chars:
  "\<not> plain_char c \<longleftrightarrow> c < CHR 0x20 \<or> c = quote \<or> c = CHR 0x5C"
  by (auto simp: plain_char_def not_le)

lemma escaped_simps [simp]:
  "escaped [] = []"
  "escaped (c # s) = (if plain_char c then [c] else escape_of c) @ escaped s"
  "escaped (s @ t) = escaped s @ escaped t"
  by (simp_all add: escaped_def)

lemma escaped_plain: "list_all plain_char s \<Longrightarrow> escaped s = s"
  by (induction s) simp_all

lemma hex_value_digit: "k < 16 \<Longrightarrow> hex_value (hex_digit k) = Some k"
  by (simp add: hex_value_def hex_digit_def is_digit_def less_eq_char_def)

lemma hex_char_hex4:
  assumes "n < 128"
  shows "hex_char (hex_digit (n div 4096 mod 16)) (hex_digit (n div 256 mod 16)) (hex_digit (n div 16 mod 16))
     (hex_digit (n mod 16)) = Some (char_of n)"
proof -
  have "n div 4096 = 0" "n div 256 = 0" "n div 16 mod 16 = n div 16" using assms by simp_all
  moreover have "n div 16 * 16 + n mod 16 = n" by simp
  ultimately show ?thesis using assms by (simp add: hex_char_def hex_value_digit)
qed

lemma low_char: "c < CHR 0x20 \<Longrightarrow> (of_char c :: nat) < 32"
  by (simp add: less_char_def)

lemma read_plain: "plain_char c \<Longrightarrow> read_string (c # cs) = map_option (apfst ((#) c)) (read_string cs)"
  by (auto simp: plain_char_def)

lemma read_escape:
  assumes "\<not> plain_char c"
  shows "read_string (escape_of c @ cs) = map_option (apfst ((#) c)) (read_string cs)"
proof -
  let ?named = "{quote, CHR 0x5C, CHR 0x08, CHR 0x0C, CHR 0x0A, CHR 0x0D, CHR 0x09}"
  show ?thesis
  proof (cases "c \<in> ?named")
    case True
    then show ?thesis by (elim insertE emptyE) (simp_all add: escape_of_def quote_def)
  next
    case False
    then have c: "(of_char c :: nat) < 32" using assms low_char by (auto simp: plain_chars)
    have "escape_of c = CHR 0x5C # CHR ''u'' # hex4 (of_char c)" using False by (simp add: escape_of_def)
    then show ?thesis using hex_char_hex4[of "of_char c"] c by (simp add: hex4_def quote_def)
  qed
qed

lemma read_escaped: "read_string (escaped s @ quote # r) = Some (s, r)"
  by (induction s) (simp_all add: read_plain read_escape del: read_string.simps(2), simp add: quote_def)

lemma skip_ws_token [simp]:
  "skip_ws (quote # s) = quote # s" "skip_ws (CHR ''{'' # s) = CHR ''{'' # s" "skip_ws (CHR ''['' # s) = CHR ''['' # s"
  "skip_ws (CHR ''}'' # s) = CHR ''}'' # s" "skip_ws (CHR '']'' # s) = CHR '']'' # s"
  "skip_ws (CHR '':'' # s) = CHR '':'' # s" "skip_ws (CHR '','' # s) = CHR '','' # s" "skip_ws [] = []"
  by (simp_all add: skip_ws_def quote_def)

lemma decimal_head: "\<exists>c cs. decimal n = c # cs \<and> is_digit c"
  using decimal_digits[of n] decimal_not_Nil[of n] by (cases "decimal n") auto

lemma skip_ws_digit: "is_digit c \<Longrightarrow> skip_ws (c # cs) = c # cs"
  by (auto simp: skip_ws_def is_digit_def less_eq_char_def)

lemma decimal_no_zero: "0 < n \<Longrightarrow> hd (decimal n) \<noteq> CHR ''0''"
proof (induction n rule: decimal.induct)
  case (1 n)
  show ?case
  proof (cases "n < 10")
    case True
    then have "(of_char (digit n) :: nat) \<noteq> of_char (CHR ''0'')" using 1(2) by (simp add: digit_def)
    then have "digit n \<noteq> CHR ''0''" by metis
    then show ?thesis using True by (subst decimal.simps) simp
  next
    case False
    then show ?thesis using 1 by (subst decimal.simps) simp
  qed
qed

lemma read_decimal:
  assumes "r = [] \<or> \<not> is_digit (hd r)"
  shows "read_number (decimal n @ r) = Some (JNumber n, r)"
proof -
  have d: "list_all is_digit (decimal n)" by simp
  have "takeWhile is_digit (decimal n @ r) = decimal n" "dropWhile is_digit (decimal n @ r) = r"
    using d assms by (cases r; simp add: list_all_iff takeWhile_append2 dropWhile_append2)+
  moreover have "\<not> (hd (decimal n) = CHR ''0'' \<and> length (decimal n) > 1)"
    using decimal_no_zero[of n] by (cases "n = 0") (simp_all add: decimal_small)
  ultimately show ?thesis by (simp add: read_number_def Let_def)
qed

lemma render_first: "\<exists>c cs. render v = c # cs \<and> skip_ws (c # cs @ r) = c # cs @ r \<and> c \<noteq> CHR '']'' \<and> c \<noteq> CHR ''}''"
proof (cases v)
  case (JNumber n)
  then show ?thesis using decimal_head[of n] skip_ws_digit by (auto simp: is_digit_def less_eq_char_def)
qed (auto simp: quoted_def quote_def skip_ws_def)

lemma render_not_Nil [simp]: "render v \<noteq> []"
  using render_first[of v] by auto

lemma read_rendered:
  "length (render v) \<le> n \<Longrightarrow> r = [] \<or> \<not> is_digit (hd r) \<Longrightarrow> read_value n (render v @ r) = Some (v, r)"
  "vs \<noteq> [] \<Longrightarrow> length (render_elements vs) < n \<Longrightarrow> read_elements n (render_elements vs @ CHR '']'' # r) = Some (vs, r)"
  "ms \<noteq> [] \<Longrightarrow> length (render_members ms) < n \<Longrightarrow> read_members n (render_members ms @ CHR ''}'' # r) = Some (ms, r)"
proof (induction v and vs and ms arbitrary: n r and n r and n r rule: render_render_elements_render_members.induct)
  case (1 s)
  then obtain k where "n = Suc k" by (cases n) (simp_all add: quoted_def)
  then show ?case by (simp add: quoted_def read_escaped)
next
  case (2 m)
  obtain c cs where d: "decimal m = c # cs" "is_digit c" using decimal_head by blast
  with 2 obtain k where "n = Suc k" by (cases n) simp_all
  moreover have "c \<noteq> quote" "c \<noteq> CHR ''[''" "c \<noteq> CHR ''{''"
    using d(2) by (auto simp: is_digit_def less_eq_char_def quote_def)
  ultimately show ?case using read_decimal[OF 2(2), of m] d by (simp add: skip_ws_digit)
next
  case (3 vs)
  then obtain k where n: "n = Suc k" by (cases n) simp_all
  show ?case
  proof (cases vs)
    case Nil
    then show ?thesis by (simp add: n quote_def)
  next
    case (Cons v ws)
    have "take 1 (skip_ws (render_elements vs @ CHR '']'' # r)) \<noteq> '']''"
      using render_first[of v "(if ws = [] then [] else '','' @ render_elements ws) @ CHR '']'' # r"] Cons by auto
    then show ?thesis using 3 Cons by (simp add: n quote_def)
  qed
next
  case (4 ms)
  then obtain k where n: "n = Suc k" by (cases n) simp_all
  show ?case
  proof (cases ms)
    case Nil
    then show ?thesis by (simp add: n quote_def)
  next
    case (Cons m ws)
    then have "take 1 (skip_ws (render_members ms @ CHR ''}'' # r)) \<noteq> ''}''"
      by (cases m) (simp add: quoted_def, simp add: quote_def)
    then show ?thesis using 4 Cons by (simp add: n quote_def)
  qed
next
  case 5
  then show ?case by simp
next
  case (6 v vs)
  then obtain k where n: "n = Suc k" by (cases n) simp_all
  have len: "length (render v) \<le> k" using 6(4) by (simp add: n)
  show ?case
  proof (cases "vs = []")
    case True
    then show ?thesis using 6(1)[OF len, of "CHR '']'' # r"] by (simp add: n is_digit_def less_eq_char_def)
  next
    case False
    then show ?thesis using 6(1)[OF len, of "CHR '','' # render_elements vs @ CHR '']'' # r"] 6(2)[OF False, of k r] 6(4)
      by (simp add: n is_digit_def less_eq_char_def)
  qed
next
  case 7
  then show ?case by simp
next
  case (8 k v ms)
  then obtain i where n: "n = Suc i" by (cases n) simp_all
  have len: "length (render v) \<le> i" using 8(4) by (simp add: n)
  show ?case
  proof (cases "ms = []")
    case True
    then show ?thesis using 8(1)[OF len, of "CHR ''}'' # r"]
      by (simp add: n is_digit_def less_eq_char_def quoted_def read_escaped)
  next
    case False
    then show ?thesis using 8(1)[OF len, of "CHR '','' # render_members ms @ CHR ''}'' # r"] 8(2)[OF False, of i r] 8(4)
      by (simp add: n is_digit_def less_eq_char_def quoted_def read_escaped)
  qed
qed

lemma read_json_render: "read_json (render v) = Some v"
  using read_rendered(1)[of v "length (render v)" "[]"] by (simp add: read_json_def)

section \<open>UTF-8\<close>

lemma masked_bit:
  "x AND m = v \<Longrightarrow> bit v n \<Longrightarrow> bit x n" "x AND m = v \<Longrightarrow> \<not> bit v n \<Longrightarrow> bit m n \<Longrightarrow> \<not> bit x n" for x m v :: u8
  by (metis bit_and_iff)+

lemma lead_bits:
  "byte c AND 0xF8 = 0xF0 \<Longrightarrow> bit (byte c) 7 \<and> bit (byte c) 6" "byte c AND 0xF0 = 0xE0 \<Longrightarrow> bit (byte c) 7 \<and> bit (byte c) 6"
  "byte c AND 0xE0 = 0xC0 \<Longrightarrow> bit (byte c) 7 \<and> bit (byte c) 6" "cont_byte c \<Longrightarrow> bit (byte c) 7 \<and> \<not> bit (byte c) 6"
  "byte c AND 0x80 = 0 \<longleftrightarrow> \<not> bit (byte c) 7"
proof -
  show "byte c AND 0xF8 = 0xF0 \<Longrightarrow> bit (byte c) 7 \<and> bit (byte c) 6"
    by (intro conjI; erule masked_bit(1)) simp_all
  show "byte c AND 0xF0 = 0xE0 \<Longrightarrow> bit (byte c) 7 \<and> bit (byte c) 6"
    by (intro conjI; erule masked_bit(1)) simp_all
  show "byte c AND 0xE0 = 0xC0 \<Longrightarrow> bit (byte c) 7 \<and> bit (byte c) 6"
    by (intro conjI; erule masked_bit(1)) simp_all
  show "cont_byte c \<Longrightarrow> bit (byte c) 7 \<and> \<not> bit (byte c) 6"
    unfolding cont_byte_def by (intro conjI; (erule masked_bit(1), simp | erule masked_bit(2), simp, simp))
  show "byte c AND 0x80 = 0 \<longleftrightarrow> \<not> bit (byte c) 7" using and_power_nonzero[of "byte c" 7] by auto
qed

definition ascii :: "char \<Rightarrow> bool" where
  "ascii c \<longleftrightarrow> c \<noteq> CHR 0x00 \<and> byte c AND 0x80 = 0"

lemma utf8nvalid_ascii: "ascii c \<Longrightarrow> utf8nvalid (c # s) \<longleftrightarrow> utf8nvalid s"
  using lead_bits[of c] by (auto simp: ascii_def)

lemma utf8nvalid_ascii_text: "list_all ascii s \<Longrightarrow> utf8nvalid s"
  by (induction s) (simp_all add: utf8nvalid_ascii del: utf8nvalid.simps(2))

lemma utf8nvalid_ended: "utf8nvalid s \<Longrightarrow> utf8_ended s"
  using lead_bits[of "hd s"] by (cases s) (auto simp: utf8_ended_def split: if_split_asm)

lemma utf8_ended_append: "utf8_ended s \<Longrightarrow> utf8_ended t \<Longrightarrow> utf8_ended (s @ t)"
  by (simp add: utf8_ended_def split: list.splits)

lemma utf8_parts:
  "utf8nvalid4 s \<Longrightarrow> \<exists>a b c d t. s = a # b # c # d # t \<and> (\<forall>u. utf8nvalid4 (a # b # c # d # u) \<longleftrightarrow> utf8_ended u) \<and> cont_byte b \<and> cont_byte c \<and> cont_byte d"
  by (cases s rule: utf8nvalid4.cases) auto

lemma utf8_parts3:
  "utf8nvalid3 s \<Longrightarrow> \<exists>a b c t. s = a # b # c # t \<and> (\<forall>u. utf8nvalid3 (a # b # c # u) \<longleftrightarrow> utf8_ended u) \<and> cont_byte b \<and> cont_byte c"
  by (cases s rule: utf8nvalid3.cases) auto

lemma utf8_parts2:
  "utf8nvalid2 s \<Longrightarrow> \<exists>a b t. s = a # b # t \<and> (\<forall>u. utf8nvalid2 (a # b # u) \<longleftrightarrow> utf8_ended u) \<and> cont_byte b"
  by (cases s rule: utf8nvalid2.cases) auto

text \<open>A valid text that is not empty starts with one character, and the rest is valid.\<close>

lemma utf8_first:
  assumes "utf8nvalid s" "s \<noteq> []"
  obtains a where "ascii a" "s = a # tl s" "utf8nvalid (tl s)"
  | ch t where "s = ch @ t" "ch \<noteq> []" "\<forall>u. utf8nvalid u \<longrightarrow> utf8nvalid (ch @ u)" "\<forall>c \<in> set ch. bit (byte c) 7" "utf8nvalid t"
proof -
  obtain a u where s: "s = a # u" using assms(2) by (cases s) auto
  have a: "a \<noteq> CHR 0x00" using assms(1) by (auto simp: s)
  consider (four) "byte a AND 0xF8 = 0xF0" | (three) "byte a AND 0xF8 \<noteq> 0xF0" "byte a AND 0xF0 = 0xE0"
    | (two) "byte a AND 0xF8 \<noteq> 0xF0" "byte a AND 0xF0 \<noteq> 0xE0" "byte a AND 0xE0 = 0xC0"
    | (one) "byte a AND 0x80 = 0" "utf8nvalid u"
    using assms(1) by (auto simp: s split: if_split_asm)
  then show thesis
  proof cases
    case four
    then have "utf8nvalid4 s" "utf8nvalid (drop 4 s)" using assms(1) a by (simp_all add: s)
    then obtain b c d t where t: "s = a # b # c # d # t" "\<forall>u. utf8nvalid4 (a # b # c # d # u) \<longleftrightarrow> utf8_ended u"
      "cont_byte b" "cont_byte c" "cont_byte d" "utf8nvalid t"
      using utf8_parts[of s] by (auto simp: s)
    show thesis
      by (rule that(2)[of "[a, b, c, d]" t]) (use t four a lead_bits utf8nvalid_ended in auto)
  next
    case three
    then have "utf8nvalid3 s" "utf8nvalid (drop 3 s)" using assms(1) a by (simp_all add: s)
    then obtain b c t where t: "s = a # b # c # t" "\<forall>u. utf8nvalid3 (a # b # c # u) \<longleftrightarrow> utf8_ended u"
      "cont_byte b" "cont_byte c" "utf8nvalid t"
      using utf8_parts3[of s] by (auto simp: s)
    show thesis
      by (rule that(2)[of "[a, b, c]" t]) (use t three a lead_bits utf8nvalid_ended in auto)
  next
    case two
    then have "utf8nvalid2 s" "utf8nvalid (drop 2 s)" using assms(1) a by (simp_all add: s)
    then obtain b t where t: "s = a # b # t" "\<forall>u. utf8nvalid2 (a # b # u) \<longleftrightarrow> utf8_ended u" "cont_byte b" "utf8nvalid t"
      using utf8_parts2[of s] by (auto simp: s)
    show thesis
      by (rule that(2)[of "[a, b]" t]) (use t two a lead_bits utf8nvalid_ended in auto)
  next
    case one
    then show thesis using that(1)[of a] a by (simp add: s ascii_def)
  qed
qed
lemma utf8nvalid_append: "utf8nvalid s \<Longrightarrow> utf8nvalid t \<Longrightarrow> utf8nvalid (s @ t)"
proof (induction "length s" arbitrary: s rule: less_induct)
  case less
  show ?case
  proof (cases "s = []")
    case False
    from less.prems(1) False show ?thesis
    proof (cases rule: utf8_first)
      case (1 a)
      then show ?thesis using less False utf8nvalid_ascii[of a "tl s @ t"] by (metis append_Cons length_tl diff_less length_greater_0_conv zero_less_one)
    next
      case (2 ch u)
      then show ?thesis using less.hyps[of u] less.prems(2) by simp
    qed
  next
    case True
    then show ?thesis using less.prems(2) by simp
  qed
qed

lemma high_plain:
  assumes "bit (byte c) 7"
  shows "plain_char c"
proof -
  have "\<not> (of_char c :: nat) < 128"
  proof
    assume c: "(of_char c :: nat) < 128"
    have "byte c = of_nat (of_char c)" by (simp add: byte_def of_nat_of_char)
    then have "bit (of_char c :: nat) 7" using assms by (simp add: bit_of_nat_iff)
    with c show False by (simp add: bit_iff_odd)
  qed
  then show ?thesis by (auto simp: plain_char_def quote_def less_eq_char_def)
qed

lemma hex4_ascii: "list_all ascii (hex4 n)"
proof -
  have "ascii (hex_digit k)" if "k < 16" for k
  proof -
    have "list_all (\<lambda>k. ascii (hex_digit k)) [0..<16]" by code_simp
    with that show ?thesis by (simp add: list_all_iff)
  qed
  then show ?thesis by (simp add: hex4_def)
qed

lemma escape_ascii: "list_all ascii (escape_of c)"
proof -
  have "list_all ascii (quote # CHR 0x5C # ''bfnrtu'')" by code_simp
  then show ?thesis using hex4_ascii by (simp add: escape_of_def)
qed

lemma escaped_utf8: "utf8nvalid s \<Longrightarrow> utf8nvalid (escaped s)"
proof (induction "length s" arbitrary: s rule: less_induct)
  case less
  show ?case
  proof (cases "s = []")
    case False
    from less.prems False show ?thesis
    proof (cases rule: utf8_first)
      case (1 a)
      have "utf8nvalid (if plain_char a then [a] else escape_of a)"
        using 1(1) escape_ascii by (intro utf8nvalid_ascii_text) simp
      moreover have "utf8nvalid (escaped (tl s))" using less.hyps 1(3) False by simp
      ultimately show ?thesis by (subst 1(2)) (simp only: escaped_simps utf8nvalid_append)
    next
      case (2 ch t)
      then have "escaped ch = ch" by (intro escaped_plain) (auto simp: list_all_iff high_plain)
      moreover have "utf8nvalid (escaped t)" using less.hyps[of t] 2 by simp
      ultimately show ?thesis using 2(1,3) by simp
    qed
  qed simp
qed

declare utf8nvalid.simps(2) [simp del]

text \<open>The texts in a value.\<close>

fun texts_of :: "json \<Rightarrow> string list"
  and texts_of_elements :: "json list \<Rightarrow> string list"
  and texts_of_members :: "(string \<times> json) list \<Rightarrow> string list" where
  "texts_of (JString s) = [s]"
| "texts_of (JNumber n) = []"
| "texts_of (JArray vs) = texts_of_elements vs"
| "texts_of (JObject ms) = texts_of_members ms"
| "texts_of_elements [] = []"
| "texts_of_elements (v # vs) = texts_of v @ texts_of_elements vs"
| "texts_of_members [] = []"
| "texts_of_members ((k, v) # ms) = k # texts_of v @ texts_of_members ms"

lemma ascii_punctuation: "list_all ascii (quote # ''{}[]:,'')"
  by code_simp

lemma quoted_utf8: "utf8nvalid s \<Longrightarrow> utf8nvalid (quoted s)"
  using ascii_punctuation utf8nvalid_append[OF escaped_utf8 utf8nvalid_ascii_text[of "[quote]"]]
  by (simp add: quoted_def utf8nvalid_ascii)

lemma decimal_ascii: "list_all ascii (decimal n)"
proof -
  have "ascii (digit k)" if "k < 10" for k
  proof -
    have "list_all (\<lambda>k. ascii (digit k)) [0..<10]" by code_simp
    with that show ?thesis by (simp add: list_all_iff)
  qed
  then show ?thesis using decimal_digits[of n] by (auto simp: list_all_iff is_digit_iff)
qed

lemma render_utf8:
  "list_all utf8nvalid (texts_of v) \<Longrightarrow> utf8nvalid (render v)"
  "list_all utf8nvalid (texts_of_elements vs) \<Longrightarrow> utf8nvalid (render_elements vs)"
  "list_all utf8nvalid (texts_of_members ms) \<Longrightarrow> utf8nvalid (render_members ms)"
  using ascii_punctuation
  by (induction v and vs and ms rule: texts_of_texts_of_elements_texts_of_members.induct)
    (auto simp: utf8nvalid_ascii quoted_utf8 utf8nvalid_append utf8nvalid_ascii_text decimal_ascii)

text \<open>The test accepts surrogates and code points above U+10FFFF, which RFC 3629 excludes.\<close>

lemma surrogate_accepted: "utf8nvalid [CHR 0xED, CHR 0xA0, CHR 0x80]" "utf8nvalid [CHR 0xF7, CHR 0xBF, CHR 0xBF, CHR 0xBF]"
  by code_simp+

section \<open>What is printed\<close>

definition value_tree :: "meta list \<Rightarrow> val \<Rightarrow> json" where
  "value_tree h v =
     JObject [(''data'', JString (if utf8nvalid (v_data v) then v_data v else to_base64 (v_data v))),
       (''encoding'', JString (if utf8nvalid (v_data v) then ''text'' else ''base64'')),
       (''rev'', JNumber (unat (value_rev h v)))]"

definition change_tree :: "meta list \<Rightarrow> change \<Rightarrow> json" where
  "change_tree h c =
     JObject ([(''action'', JString (action_to_string (ch_action c))), (''key'', JString (ch_key c))] @
       (if ch_action c \<noteq> DELETE then [(''new_value'', value_tree h (the (ch_new c)))] else []) @
       (if ch_action c \<noteq> CREATE then [(''old_value'', value_tree h (the (ch_old c)))] else []))"

definition session_members :: "session_t \<Rightarrow> (string \<times> json) list" where
  "session_members s = [(''user'', JString (s_user s)), (''address'', JString (s_address s))]"

text \<open>The values an action promises.\<close>

definition has_values :: "change \<Rightarrow> bool" where
  "has_values c \<longleftrightarrow> (ch_action c \<noteq> DELETE \<longrightarrow> ch_new c \<noteq> None) \<and> (ch_action c \<noteq> CREATE \<longrightarrow> ch_old c \<noteq> None)"

lemma seq_ops_eval [simp]:
  "f s = (Inr (), s') \<Longrightarrow> seq_ops (f # fs) s = seq_ops fs s'"
  "f s = (Inl e, s') \<Longrightarrow> seq_ops (f # fs) s = (Inl e, s')"
  by (simp_all add: seq_ops.simps(2) bind_op_def)

declare seq_ops.simps(2) [simp del]

lemma out_plus_eval [simp]: "out_plus s out = (Inr (), out @ s)"
  by (simp add: out_plus_def)

lemma seq_ops_append: "seq_ops (fs @ gs) s = (case seq_ops fs s of (Inl e, s') \<Rightarrow> (Inl e, s') | (Inr _, s') \<Rightarrow> seq_ops gs s')"
  by (induction fs arbitrary: s) (simp_all add: seq_ops.simps(2) bind_op_def split: prod.split sum.split)

lemma append_number_eval [simp]: "json_append_number n out = (Inr (), out @ decimal n)"
  by (simp add: json_append_number_def)

text \<open>A text nothing of which is escaped, in ASCII; the constant keeps the simplifier from taking texts apart.\<close>

definition plain_text :: "string \<Rightarrow> bool" where
  "plain_text s \<longleftrightarrow> list_all (\<lambda>c. plain_char c \<and> ascii c) s"

lemma plain_textD: "plain_text s \<Longrightarrow> list_all plain_char s" "plain_text s \<Longrightarrow> utf8nvalid s"
  by (auto simp: plain_text_def list_all_iff intro: utf8nvalid_ascii_text)

lemma append_text_eval [simp]: "plain_text s \<Longrightarrow> json_append_text s out = (Inr (), out @ quoted s)"
  by (simp add: json_append_text_def quoted_def escaped_plain plain_textD)

lemma escape_loop_eval: "list_all plain_char run \<Longrightarrow> escape_loop run s out = (Inr (), out @ run @ escaped s)"
  by (induction run s arbitrary: out rule: escape_loop.induct) simp_all

lemma append_escaped_eval [simp]: "json_append_escaped_text s out = (Inr (), out @ quoted s)"
  by (simp add: json_append_escaped_text_def escape_loop_eval quoted_def)

lemma plain_names [simp]:
  "plain_text ''data''" "plain_text ''encoding''" "plain_text ''text''"
  "plain_text ''base64''" "plain_text ''rev''" "plain_text ''action''"
  "plain_text ''key''" "plain_text ''new_value''" "plain_text ''old_value''"
  "plain_text ''value''" "plain_text ''user''" "plain_text ''address''"
  "plain_text ''since''" "plain_text ''until''" "plain_text ''code''"
  "plain_text ''timestamp''" "plain_text ''tx_type''" "plain_text ''changes''"
  "plain_text ''session''" "plain_text ''event_data''" "plain_text ''event_session''"
  "plain_text ''CREATE''" "plain_text ''UPDATE''" "plain_text ''DELETE''"
  by code_simp+

lemma plain_text_append: "plain_text (s @ t) \<longleftrightarrow> plain_text s \<and> plain_text t"
  by (simp add: plain_text_def)

lemma digits_plain: "list_all is_digit s \<Longrightarrow> plain_text s"
proof -
  have "plain_char (digit k) \<and> ascii (digit k)" if "k < 10" for k
  proof -
    have "list_all (\<lambda>k. plain_char (digit k) \<and> ascii (digit k)) [0..<10]" by code_simp
    with that show ?thesis by (simp add: list_all_iff)
  qed
  then show "list_all is_digit s \<Longrightarrow> ?thesis" by (auto simp: plain_text_def list_all_iff is_digit_iff)
qed

lemma to_base64_plain [simp]: "plain_text (to_base64 s)"
proof -
  have "\<forall>b \<in> set (map byte_of s). b < 256" by (simp add: byte_of_less)
  then have "\<forall>v \<in> set (digits (map byte_of s)). v < 64" by (rule digits_less)
  moreover have "plain_char (alphabet ! v) \<and> ascii (alphabet ! v)" if "v < 64" for v
  proof -
    have "list_all (\<lambda>c. plain_char c \<and> ascii c) alphabet" "length alphabet = 64" by code_simp+
    with that show ?thesis by (simp add: list_all_length)
  qed
  moreover have "plain_char padding_char \<and> ascii padding_char" by code_simp
  ultimately show ?thesis by (auto simp: to_base64_digits plain_text_def list_all_iff)
qed

lemma padded_plain: "plain_text (padded w n)"
proof -
  have "plain_text ''-''" "plain_char (CHR ''0'') \<and> ascii (CHR ''0'')" by code_simp+
  then show ?thesis
    using digits_plain[OF decimal_digits, of "nat \<bar>n\<bar>"]
    by (auto simp: padded_def Let_def plain_text_def list_all_iff set_replicate_conv_if)
qed

lemma iso8601_plain [simp]: "plain_text (to_iso8601 padded t)"
proof -
  have "plain_text ''-'' \<and> plain_text '':'' \<and> plain_text ''.'' \<and> plain_text ''T'' \<and> plain_text ''Z''" by code_simp
  then show ?thesis
    unfolding to_iso8601_def Let_def plain_text_append using padded_plain by blast
qed

lemma append_value_eval [simp]: "json_append_value h v out = (Inr (), out @ render (value_tree h v))"
  by (simp add: json_append_value_def value_tree_def Let_def seq_ops_append)

lemma append_keyval_eval [simp]:
  "json_append_keyval h k v out = (Inr (), out @ render (JObject [(''key'', JString k), (''value'', value_tree h v)]))"
  by (simp add: json_append_keyval_def)

lemma append_value_ptr_eval [simp]:
  "p \<noteq> None \<Longrightarrow> json_append_value_ptr h p out = (Inr (), out @ render (value_tree h (the p)))"
  "json_append_value_ptr h None out = (Inl Ex_crash, out)"
  by (auto simp: json_append_value_ptr_def)

lemma append_change_eval [simp]: "has_values c \<Longrightarrow> json_append_change h c out = (Inr (), out @ render (change_tree h c))"
  by (cases "ch_action c") (simp_all add: json_append_change_def change_tree_def has_values_def seq_ops_append)

lemma append_change_crash: "\<not> has_values c \<Longrightarrow> \<exists>out'. json_append_change h c out = (Inl Ex_crash, out')"
  by (cases "ch_action c"; cases "ch_new c"; cases "ch_old c")
    (simp_all add: json_append_change_def has_values_def seq_ops_append)

lemma append_changes_eval:
  "list_all has_values cs \<Longrightarrow> json_append_changes h cs out = (Inr (), out @ render_elements (map (change_tree h) cs))"
  by (induction cs arbitrary: out) simp_all

lemma append_changes_crash:
  "\<not> list_all has_values cs \<Longrightarrow> \<exists>out'. json_append_changes h cs out = (Inl Ex_crash, out')"
proof (induction cs arbitrary: out)
  case (Cons c cs)
  show ?case
  proof (cases "has_values c")
    case True
    then obtain out' where "json_append_changes h cs (out @ render (change_tree h c) @ '','') = (Inl Ex_crash, out')"
      using Cons by auto
    then show ?thesis using True Cons.prems by (cases "cs = []") simp_all
  next
    case False
    then show ?thesis using append_change_crash[of c h out] by auto
  qed
qed simp

lemma code_plain [simp]: "plain_text (code_to_string c)"
proof -
  have "plain_text ''CONNECTED'' \<and> plain_text ''CLOSED_BY_SERVER'' \<and> plain_text ''CLOSED_BY_USER'' \<and>
      plain_text ''COMM_ERROR'' \<and> plain_text ''CON_LOST'' \<and> plain_text ''EXCD_LIMITS'' \<and> plain_text ''UNKNOWN''"
    by code_simp
  then show ?thesis by (cases c) simp_all
qed

lemma json_string_eval:
  assumes "plain_text name" "\<And>out. body out = (Inr (), out @ render v)"
  shows "json_string name body = Inr (render (JObject [(name, v)]))"
  using assms by (simp add: json_string_def)

definition since_member :: "session_t \<Rightarrow> string \<times> json" where
  "since_member s = (''since'', JString (to_iso8601 padded (s_since s)))"

lemma append_session_eval:
  "json_append_session padded s out = (Inr (), out @ render (JObject (session_members s @ [since_member s])))"
  by (simp add: json_append_session_def session_members_def since_member_def)

definition event_members :: "session_t \<Rightarrow> (string \<times> json) list" where
  "event_members s =
     session_members s @ [(''code'', JString (code_to_string (s_code s))), since_member s] @
     (if s_until s = 0 then [] else [(''until'', JString (to_iso8601 padded (s_until s)))])"

lemma append_event_session_eval:
  "json_append_event_session padded s out = (Inr (), out @ render (JObject (event_members s)))"
  by (simp add: json_append_event_session_def event_members_def session_members_def since_member_def seq_ops_append)

definition event_data_tree :: "meta list \<Rightarrow> addr option \<Rightarrow> change list \<Rightarrow> json" where
  "event_data_tree h m changes =
     JObject [(''rev'', JNumber (case m of None \<Rightarrow> 0 | Some a \<Rightarrow> unat (meta_rev (h ! a)))),
       (''user'', JString (case m of None \<Rightarrow> [] | Some a \<Rightarrow> meta_user (h ! a))),
       (''timestamp'', JString (to_iso8601 padded (case m of None \<Rightarrow> 0 | Some a \<Rightarrow> meta_timestamp (h ! a)))),
       (''tx_type'', JNumber (case m of None \<Rightarrow> 0 | Some a \<Rightarrow> unat (meta_tx_type (h ! a)))),
       (''changes'', JArray (map (change_tree h) changes))]"

lemma append_event_data_eval:
  "list_all has_values cs \<Longrightarrow> json_append_event_data padded h m cs out = (Inr (), out @ render (event_data_tree h m cs))"
  by (cases m) (simp_all add: json_append_event_data_def event_data_tree_def append_changes_eval)

lemma append_event_data_crash:
  assumes "\<not> list_all has_values cs"
  shows "\<exists>out'. json_append_event_data padded h m cs out = (Inl Ex_crash, out')"
proof -
  obtain s' where "\<And>s. json_append_changes h cs s = (Inl Ex_crash, s' s)"
    using append_changes_crash[OF assms, of h] by metis
  then show ?thesis by (cases m) (simp_all add: json_append_event_data_def)
qed

text \<open>Data printed as it is or in base64 can be told apart and got back.\<close>

lemma value_tree_data:
  "\<exists>data encoding. value_tree h v = JObject [(''data'', JString data), (''encoding'', JString encoding),
       (''rev'', JNumber (unat (value_rev h v)))] \<and>
     (encoding = ''text'' \<and> data = v_data v \<or> encoding = ''base64'' \<and> from_base64 little_endian data = Inr (v_data v))"
  using from_to_base64[of little_endian "v_data v"] by (cases "utf8nvalid (v_data v)") (simp_all add: value_tree_def)

lemma value_tree_utf8 [simp]: "list_all utf8nvalid (texts_of (value_tree h v))"
  by (simp add: value_tree_def plain_textD(2))

lemma change_tree_utf8: "utf8nvalid (ch_key c) \<Longrightarrow> list_all utf8nvalid (texts_of (change_tree h c))"
  by (cases "ch_action c") (simp_all add: change_tree_def plain_textD(2))

lemma changes_tree_utf8:
  "list_all utf8nvalid (map ch_key cs) \<Longrightarrow> list_all utf8nvalid (texts_of_elements (map (change_tree h) cs))"
  by (induction cs) (simp_all add: change_tree_utf8)

section \<open>The theorem\<close>

text \<open>
  A result that is the text of an object with one member, and valid UTF-8 provided the given texts are.
\<close>

definition prints :: "string list \<Rightarrow> exn + string \<Rightarrow> string \<Rightarrow> json \<Rightarrow> bool" where
  "prints ts r name body \<longleftrightarrow>
     (\<exists>s. r = Inr s \<and> read_json s = Some (JObject [(name, body)]) \<and> (list_all utf8nvalid ts \<longrightarrow> utf8nvalid s))"

lemma prints_render:
  assumes "plain_text name" "list_all utf8nvalid ts \<Longrightarrow> list_all utf8nvalid (texts_of v)" "\<And>out. body out = (Inr (), out @ render v)"
  shows "prints ts (json_string name body) name v"
proof -
  let ?o = "JObject [(name, v)]"
  have "json_string name body = Inr (render ?o)" by (rule json_string_eval[OF assms(1,3)])
  moreover have "utf8nvalid (render ?o)" if "list_all utf8nvalid ts"
    using assms(2)[OF that] plain_textD(2)[OF assms(1)] by (intro render_utf8(1)) simp
  ultimately show ?thesis unfolding prints_def using read_json_render[of ?o] by blast
qed

lemma prints_data:
  "prints [key] (data_to_json h key v) ''data'' (JObject [(''key'', JString key), (''value'', value_tree h v)])"
  unfolding data_to_json_def by (rule prints_render) (simp_all add: plain_textD(2))

lemma prints_session:
  "prints [s_user s, s_address s] (session_to_json padded s) ''session'' (JObject (session_members s @ [since_member s]))"
  unfolding session_to_json_def
  by (rule prints_render, simp_all only: append_session_eval)
    (simp_all add: session_members_def since_member_def plain_textD(2))

lemma prints_event_session:
  "prints [s_user s, s_address s] (event_session_to_json padded s) ''event_session'' (JObject (event_members s))"
  unfolding event_session_to_json_def
  by (rule prints_render, simp_all only: append_event_session_eval)
    (simp_all add: event_members_def session_members_def since_member_def plain_textD(2))

lemma prints_event_data:
  assumes "list_all has_values cs"
  shows "prints ((case m of None \<Rightarrow> [] | Some a \<Rightarrow> meta_user (h ! a)) # map ch_key cs) (event_data_to_json padded h m cs)
    ''event_data'' (event_data_tree h m cs)"
  unfolding event_data_to_json_def
  by (rule prints_render, simp_all only: append_event_data_eval[OF assms])
    (simp_all add: event_data_tree_def changes_tree_utf8 plain_textD(2))

lemma event_data_crash:
  assumes "\<not> list_all has_values cs"
  shows "event_data_to_json padded h m cs = Inl Ex_crash"
  using append_event_data_crash[OF assms, of h m "''{'' @ quoted ''event_data'' @ '':''"]
  by (auto simp: event_data_to_json_def json_string_def)

text \<open>
  C30: The four functions print JSON that a reader of the grammar takes apart again into exactly the members
  they mean to print: keys, users and addresses byte by byte whatever characters they hold, revisions and
  types as numbers.  The data of a value comes as text or, where it is not UTF-8, as base64 that decodes to
  it.  The result is UTF-8, by the code's own test, if the keys, users and
  addresses are.  A change that lacks a value its action
  promises, and nothing else, makes the code use a null pointer.  The formatting library is assumed to do
  what its documentation says.
\<close>

theorem json_reads_back:
  assumes "fmt = padded"
  shows "prints [key] (data_to_json h key v) ''data'' (JObject [(''key'', JString key), (''value'', value_tree h v)]) \<and>
    prints [s_user s, s_address s] (session_to_json fmt s) ''session'' (JObject (session_members s @ [since_member s])) \<and>
    prints [s_user s, s_address s] (event_session_to_json fmt s) ''event_session'' (JObject (event_members s)) \<and>
    (if list_all has_values cs
     then prints ((case m of None \<Rightarrow> [] | Some a \<Rightarrow> meta_user (h ! a)) # map ch_key cs) (event_data_to_json fmt h m cs)
            ''event_data'' (event_data_tree h m cs)
     else event_data_to_json fmt h m cs = Inl Ex_crash) \<and>
    (\<exists>data encoding. value_tree h v = JObject [(''data'', JString data), (''encoding'', JString encoding),
         (''rev'', JNumber (unat (value_rev h v)))] \<and>
       (encoding = ''text'' \<and> data = v_data v \<or> encoding = ''base64'' \<and> from_base64 little_endian data = Inr (v_data v)))"
  using prints_data prints_session prints_event_session prints_event_data event_data_crash value_tree_data
  unfolding assms by simp

text \<open>A value with a quote, a newline and a byte that is no UTF-8.\<close>

theorem json_reads_back_witness:
  "read_json (''{'' @ quoted ''data'' @ '':{'' @ quoted ''key'' @ '':'' @ quoted ''a/b'' @ '','' @ quoted ''value'' @ '':{'' @
      quoted ''data'' @ '':'' @ quoted ''Igr/'' @ '','' @ quoted ''encoding'' @ '':'' @ quoted ''base64'' @ '','' @
      quoted ''rev'' @ '':7}}}'') =
   Some (JObject [(''data'', JObject [(''key'', JString ''a/b''), (''value'', JObject [(''data'', JString ''Igr/''),
     (''encoding'', JString ''base64''), (''rev'', JNumber 7)])])])"
proof -
  let ?h = "[\<lparr>meta_rev = 7, meta_user = ''jo'', meta_timestamp = 5, meta_tx_type = 2, meta_nrefs = 1\<rparr>]"
  let ?v = "\<lparr>v_data = [quote, CHR 0x0A, CHR 0xFF], v_meta = Some 0\<rparr>"
  have run: "data_to_json ?h ''a/b'' ?v = Inr (''{'' @ quoted ''data'' @ '':{'' @ quoted ''key'' @ '':'' @ quoted ''a/b'' @ '','' @
      quoted ''value'' @ '':{'' @ quoted ''data'' @ '':'' @ quoted ''Igr/'' @ '','' @ quoted ''encoding'' @ '':'' @
      quoted ''base64'' @ '','' @ quoted ''rev'' @ '':7}}}'')"
    by code_simp
  have tree: "value_tree ?h ?v = JObject [(''data'', JString ''Igr/''), (''encoding'', JString ''base64''), (''rev'', JNumber 7)]"
    by code_simp
  have "prints [''a/b''] (data_to_json ?h ''a/b'' ?v) ''data'' (JObject [(''key'', JString ''a/b''), (''value'', value_tree ?h ?v)])"
    by (rule conjunct1[OF json_reads_back[OF refl]])
  then show ?thesis unfolding run tree prints_def by (simp only: sum.inject) blast
qed

end
