(* ===== verification/Spec2Isabelle.thy ===== *)
theory Spec2Isabelle
  imports Nplex_Ordmap Nplex_Glob_Spec Nplex_Keys Nplex_Access Nplex_Schema Nplex_Store_Spec
    Nplex_Transaction_Life Nplex_Transaction_Keys Nplex_Submit Nplex_Connection_Spec
    Nplex_Client_Queues Nplex_Params_Spec Nplex_Json_Spec
begin

text \<open>
  A verification library for nplex-cpp, the C++ client of a replicated key-value database.

  \<^bold>\<open>The program.\<close>  A client holds a full copy of the database (the store) and keeps it current with the
  updates a server pushes over one TCP connection.  A program reads and writes through transactions, which
  look at the store under one of three isolation levels, record what they read and wrote, and become a
  request when they are submitted.  The server answers whether it takes the request; the update that follows
  commits the transaction.  One thread runs the event loop: callbacks of libuv deliver bytes, the connection
  cuts them into messages, the client treats each message against its state, its queues of commands and
  requests, the store, and the open transactions, and tells the program through futures, a reactor and a
  manager.

  \<^bold>\<open>Conventions\<close> (\<open>Nplex_Base\<close>).  An operation is a function from a state to what it returns or throws and
  the state it leaves, \<open>('s, 'a) op\<close>; a throw keeps the writes made before it.  \<open>exn\<close> has one constructor for
  each kind of throw, and three for what no exception reports: undefined behaviour (\<open>Ex_crash\<close>), a loop that
  does not end (\<open>Ex_hang\<close>), a promise destroyed unsatisfied (\<open>Ex_broken_promise\<close>).  Integers are words of
  their width and wrap around; bytes are \<open>char\<close>, strings are lists of them and compare as unsigned bytes.
  Pointers to shared objects are indexes into a heap that the state holds: metadata of values in the store,
  transactions in the client, promises by their number.  Null is \<open>None\<close>.

  \<^bold>\<open>The parts.\<close>  Each line names the theories, then the sources under \<open>src/\<close>.

  \<^item> \<open>Nplex_Ordmap\<close>: \<open>std::map\<close>, as a sequence of pairs with increasing keys, with the laws the other parts
    use as locale \<open>ordered_store\<close>.
  \<^item> \<open>Nplex_Glob\<close>, \<open>Nplex_Glob_Spec\<close>: \<open>deps/match.c\<close>.  \<open>glob_match\<close> with its two backtrack points; a reference
    matcher over tokens, and their equivalence where \<open>**\<close> is a whole path component.
  \<^item> \<open>Nplex_Keys\<close>: \<open>src/utils.cpp\<close>, \<open>deps/utf8.h\<close>.  Which keys are valid; permission masks.
  \<^item> \<open>Nplex_Access\<close>: \<open>src/user.cpp\<close>, \<open>src/user.hpp\<close>.  The first access rule that matches decides.
  \<^item> \<open>Nplex_Schema\<close>: \<open>src/schema.hpp\<close>.  The messages as records, an absent field as \<open>None\<close>; the verifiers.
  \<^item> \<open>Nplex_Store\<close>, \<open>Nplex_Store_Spec\<close>: \<open>src/store.cpp\<close>, \<open>include/nplex-cpp/types.hpp\<close>.  The record \<open>store\<close> has the
    members of \<open>store_t\<close> and the heap of metadata.  Invariant of the maps and the reference counts; updates
    and snapshots refine a database that maps keys to values; the change list is exact.
  \<^item> \<open>Nplex_Transaction\<close> (model), \<open>Nplex_Walk\<close> (what \<open>for_each\<close> visits), \<open>Nplex_Transaction_Spec\<close> (invariant by
    primitive effects, locale \<open>change_feed\<close>), \<open>Nplex_Transaction_Props\<close> (isolation), \<open>Nplex_Transaction_Life\<close>
    (state machine and promise), \<open>Nplex_Transaction_Keys\<close> (sets of keys): \<open>src/transaction_impl.cpp\<close>.  The
    record \<open>tx\<close> has the members of \<open>transaction_impl\<close>; histories are the relation \<open>tx_step\<close> over user calls,
    commits of others and events of the client.
  \<^item> \<open>Nplex_Crc\<close>: \<open>deps/cppcrc.h\<close>.  The table-driven checksum, bit by bit, and the errors it detects.
  \<^item> \<open>Nplex_Messaging\<close>, \<open>Nplex_Submit\<close>: \<open>src/messaging.cpp\<close>.  Frames and their parsing; the requests; the request
    of a transaction against the update a server makes of it.
  \<^item> \<open>Nplex_Connection\<close>, \<open>Nplex_Connection_Spec\<close>: \<open>src/connection.cpp\<close>.  The record \<open>conn\<close>; reassembly of messages
    from a stream, and counters of messages in flight.
  \<^item> \<open>Nplex_Client\<close>, \<open>Nplex_Client_Messages\<close>, \<open>Nplex_Client_Loop\<close> (model): \<open>src/client_impl.cpp\<close>.  The record
    \<open>client\<close> has the members of \<open>client_impl\<close>, the heap of transactions and the promises of \<open>ping\<close> and
    \<open>fetch_sessions\<close>; what libuv, the manager and the reactor answer is the record \<open>env\<close>.
    \<open>Nplex_Client_Inv\<close>, \<open>Nplex_Client_History\<close>, \<open>Nplex_Client_Safety\<close>: the invariant, kept by every call and
    event, and the history of each transaction inside the client, which carries the theorems about one
    transaction over to the client.  \<open>Nplex_Client_Futures\<close>: no future is forgotten.
    \<open>Nplex_Client_Faults\<close>: where the client does not do what its documentation says.
  \<^item> \<open>Nplex_Cqueue\<close>, \<open>Nplex_Cqueue_Spec\<close>, \<open>Nplex_Client_Queues\<close>: \<open>deps/cqueue.hpp\<close>.  The circular queue with its
    buffer and 64-bit indexes; it refines a list with a bound.  Locale \<open>fifo\<close> is what the client asks of a
    queue; the lists of the client's model and the circular queue both provide it, and the last theory
    says that the queues of the client may be either.
  \<^item> \<open>Nplex_Regex\<close>, \<open>Nplex_Addr\<close>, \<open>Nplex_Addr_Spec\<close>: \<open>src/addr.cpp\<close>.  The patterns as expressions whose text is
    that of the source, and in plain words what they accept.
  \<^item> \<open>Nplex_Params\<close>, \<open>Nplex_Params_Spec\<close>: \<open>src/client.cpp\<close>, \<open>src/params.hpp\<close>.  Which parameters create a client.
  \<^item> \<open>Nplex_Base64\<close>, \<open>Nplex_Base64_Tables\<close>, \<open>Nplex_Base64_Spec\<close>: \<open>deps/base64.hpp\<close>.  The codec with the tables of
    both byte orders; locale \<open>base64_machine\<close> is what a set of tables must satisfy, and both do.
  \<^item> \<open>Nplex_Decimal\<close>, \<open>Nplex_Iso8601\<close>: numbers in decimal, and instants as text, \<open>to_iso8601\<close> of \<open>src/utils.cpp\<close>
    with the calendar of \<open>gmtime_r\<close>; the text can be read back.
  \<^item> \<open>Nplex_Json\<close>, \<open>Nplex_Json_Spec\<close>: \<open>src/json.cpp\<close>.  Printing as JSON, and a reader of the JSON grammar that
    gets back what was to be printed.

  \<^bold>\<open>Loops and bounds.\<close>  Loops over a list are structural recursions.  The loop of \<open>glob_match\<close> has two nested
  measures, on the text and pattern a backtrack point has left; walks over maps and the reassembly of
  messages recur on what is left.  \<open>process_commands\<close> runs \<open>command_loop\<close> with the length of the queue as
  fuel; it is enough because no command pushes another one, and the theorem on it says that the queue is
  empty at the end or the client closed.  The loop that doubles the buffer of the circular queue is a
  \<open>while_option\<close>, and \<open>cqueue_refines\<close> says that it always ends; \<open>pop_while\<close> takes at most as many turns as
  there are elements.  The repetitions of the expression matcher end because each turn consumes a byte.

  \<^bold>\<open>Parameters.\<close>  FlatBuffers is third-party: \<open>decode\<close> is what its accessors read from a buffer that passes the
  structural part of its verifier, \<open>e_encode\<close> the bytes its builder makes.  libuv is third-party: its answers
  are fields of \<open>env\<close> and arguments of the callbacks.  The manager and the reactor are code of the program.
  The product of a timeout with the timeout factor, a floating-point one, is a function, and so are the
  number formats of the fmt library (\<open>padded\<close> is what its documentation says of them).

  \<^bold>\<open>Not modelled.\<close>  Threads inside an operation: each public operation holds its mutex from beginning to end, so
  operations follow one another in some order, which the histories range over.  Logging.  The byte layout of
  FlatBuffers and the object API of the schema, \<open>Pack\<close> and \<open>UnPack\<close>, which the client does not call.  The
  functions of \<open>deps/utf8.h\<close> and the widths of \<open>deps/cppcrc.h\<close> the client does not use.  The branch of the
  circular queue's \<open>resize\<close> for elements whose move constructor may throw.  The shared
  strings of \<open>deps/cstring.hpp\<close> (strings here), the test framework, the tests and the examples.
\<close>

end
